(* ===== verification/Prelude.thy ===== *)
theory Prelude
  imports Main "HOL-Library.Word"
begin

text \<open>
  Shared vocabulary of the development: the machine integer types of the firmware, the
  ESP-IDF error codes it tests, and C strings kept in fixed-size \<^verbatim>\<open>char\<close> arrays
  (\<^verbatim>\<open>strncpy\<close>, \<^verbatim>\<open>strlen\<close>, \<^verbatim>\<open>strcmp\<close>, the way \<^verbatim>\<open>nvs_get_str\<close> fills a buffer). The
  collection \<open>c_simps\<close> holds the rewrite rules the component proofs share.
\<close>

unbundle bit_operations_syntax

named_theorems c_simps \<open>rewrite rules for the C-level vocabulary\<close>

section \<open>Machine integers and error codes\<close>

type_synonym u8 = "8 word"
type_synonym u16 = "16 word"
type_synonym u32 = "32 word"
type_synonym i64 = "64 word"
type_synonym byte = "8 word"

text \<open>\<^verbatim>\<open>esp_err_t\<close> is a C \<^verbatim>\<open>int\<close>: error codes are or-ed together by the boot manager, so the
  bit pattern is kept. The values are those of the ESP-IDF error code list.\<close>

type_synonym esp_err = "32 word"

definition ESP_OK :: esp_err where "ESP_OK = 0"
definition ESP_FAIL :: esp_err where "ESP_FAIL = -1"
definition ESP_ERR_NO_MEM :: esp_err where "ESP_ERR_NO_MEM = 0x101"
definition ESP_ERR_INVALID_ARG :: esp_err where "ESP_ERR_INVALID_ARG = 0x102"
definition ESP_ERR_INVALID_STATE :: esp_err where "ESP_ERR_INVALID_STATE = 0x103"
definition ESP_ERR_NOT_FOUND :: esp_err where "ESP_ERR_NOT_FOUND = 0x105"
definition ESP_ERR_TIMEOUT :: esp_err where "ESP_ERR_TIMEOUT = 0x107"
definition ESP_ERR_NVS_NOT_FOUND :: esp_err where "ESP_ERR_NVS_NOT_FOUND = 0x1102"
definition ESP_ERR_NVS_INVALID_HANDLE :: esp_err where "ESP_ERR_NVS_INVALID_HANDLE = 0x1107"
definition ESP_ERR_NVS_INVALID_LENGTH :: esp_err where "ESP_ERR_NVS_INVALID_LENGTH = 0x110c"
definition ESP_ERR_NVS_NO_FREE_PAGES :: esp_err where "ESP_ERR_NVS_NO_FREE_PAGES = 0x110d"
definition ESP_ERR_NVS_NEW_VERSION_FOUND :: esp_err where
  "ESP_ERR_NVS_NEW_VERSION_FOUND = 0x1110"

lemmas esp_err_defs = ESP_OK_def ESP_FAIL_def ESP_ERR_NO_MEM_def ESP_ERR_INVALID_ARG_def
  ESP_ERR_INVALID_STATE_def ESP_ERR_NOT_FOUND_def ESP_ERR_TIMEOUT_def
  ESP_ERR_NVS_NOT_FOUND_def ESP_ERR_NVS_INVALID_HANDLE_def ESP_ERR_NVS_INVALID_LENGTH_def
  ESP_ERR_NVS_NO_FREE_PAGES_def ESP_ERR_NVS_NEW_VERSION_FOUND_def

lemma esp_err_not_ok [simp, c_simps]:
  "ESP_FAIL \<noteq> ESP_OK" "ESP_ERR_NO_MEM \<noteq> ESP_OK" "ESP_ERR_INVALID_ARG \<noteq> ESP_OK"
  "ESP_ERR_INVALID_STATE \<noteq> ESP_OK" "ESP_ERR_NOT_FOUND \<noteq> ESP_OK" "ESP_ERR_TIMEOUT \<noteq> ESP_OK"
  "ESP_ERR_NVS_NOT_FOUND \<noteq> ESP_OK" "ESP_ERR_NVS_INVALID_HANDLE \<noteq> ESP_OK"
  "ESP_ERR_NVS_INVALID_LENGTH \<noteq> ESP_OK" "ESP_ERR_NVS_NO_FREE_PAGES \<noteq> ESP_OK"
  "ESP_ERR_NVS_NEW_VERSION_FOUND \<noteq> ESP_OK"
  by (simp_all add: esp_err_defs)

text \<open>Or-ing error codes loses none of them: the accumulated code is \<^verbatim>\<open>ESP_OK\<close> exactly when
  every code is.\<close>

lemma or_zero_iff [c_simps]: "(a OR b = 0) = (a = 0 \<and> b = (0 :: 'a :: len word))"
  by (auto simp: bit_eq_iff bit_or_iff)

lemma esp_err_or_ok [simp, c_simps]: "(a OR b = ESP_OK) = (a = ESP_OK \<and> b = ESP_OK)"
  by (simp add: ESP_OK_def or_zero_iff)

section \<open>C strings in fixed-size arrays\<close>

text \<open>A \<^verbatim>\<open>char\<close> array is the list of all its bytes; the C string it holds ends before the
  first NUL. A Isabelle \<^typ>\<open>string\<close> without NUL stands for the C string itself.\<close>

abbreviation NUL :: char where "NUL \<equiv> CHR 0x00"

definition cstr :: "char list \<Rightarrow> string" where
  "cstr buf = takeWhile (\<lambda>c. c \<noteq> NUL) buf"

definition strlen :: "char list \<Rightarrow> nat" where
  "strlen buf = length (cstr buf)"

definition strcmp_eq :: "char list \<Rightarrow> char list \<Rightarrow> bool" where
  "strcmp_eq a b = (cstr a = cstr b)"

text \<open>\<^verbatim>\<open>strncpy(dst, src, n)\<close>: at most \<open>n\<close> bytes of the string, the rest of the first \<open>n\<close>
  bytes filled with NUL, no terminator when the string has \<open>n\<close> bytes or more.\<close>

definition strncpy :: "char list \<Rightarrow> char list \<Rightarrow> nat \<Rightarrow> char list" where
  "strncpy dst src n = take n (cstr src @ replicate n NUL) @ drop n dst"

text \<open>A library call that stores the string \<open>s\<close> with its terminator at the start of a
  buffer.\<close>

definition put_cstr :: "char list \<Rightarrow> string \<Rightarrow> char list" where
  "put_cstr buf s = s @ NUL # drop (Suc (length s)) buf"

definition zero_buf :: "nat \<Rightarrow> char list" where
  "zero_buf n = replicate n NUL"

definition no_nul :: "string \<Rightarrow> bool" where
  "no_nul s = (NUL \<notin> set s)"

text \<open>A terminated buffer of \<open>n\<close> bytes, and the stronger form in which every byte after the
  string is NUL (what \<^verbatim>\<open>memset\<close> followed by a copy leaves).\<close>

definition buf_ok :: "nat \<Rightarrow> char list \<Rightarrow> bool" where
  "buf_ok n buf = (length buf = n \<and> NUL \<in> set buf)"

definition buf_canon :: "nat \<Rightarrow> char list \<Rightarrow> bool" where
  "buf_canon n buf = (strlen buf < n \<and> buf = cstr buf @ replicate (n - strlen buf) NUL)"

lemma cstr_Nil [simp]: "cstr [] = []"
  by (simp add: cstr_def)

lemma no_nul_cstr [simp]: "no_nul (cstr b)"
  by (auto simp: no_nul_def cstr_def dest: set_takeWhileD)

lemma cstr_no_nul [simp]: "no_nul s \<Longrightarrow> cstr s = s"
  by (auto simp: no_nul_def cstr_def intro: takeWhile_eq_all_conv [THEN iffD2])

lemma cstr_append_NUL [simp]: "no_nul s \<Longrightarrow> cstr (s @ NUL # r) = s"
  by (induction s) (auto simp: no_nul_def cstr_def)

lemma cstr_idem [simp]: "cstr (cstr b) = cstr b"
  by simp

lemma cstr_zero_buf [simp]: "cstr (zero_buf n) = []"
  by (cases n) (simp_all add: zero_buf_def cstr_def)

lemma cstr_append_replicate [simp]: "no_nul s \<Longrightarrow> cstr (s @ replicate k NUL) = s"
  by (cases k) simp_all

lemma cstr_put_cstr [simp]: "no_nul s \<Longrightarrow> cstr (put_cstr b s) = s"
  by (simp add: put_cstr_def)

lemma length_zero_buf [simp]: "length (zero_buf n) = n"
  by (simp add: zero_buf_def)

lemma length_put_cstr [simp]: "length s < length b \<Longrightarrow> length (put_cstr b s) = length b"
  by (simp add: put_cstr_def)

lemma strlen_lt_buf_ok: "buf_ok n b \<Longrightarrow> strlen b < n"
  unfolding buf_ok_def strlen_def cstr_def
  by (induction b arbitrary: n) auto

lemma take_cstr_no_nul [simp]: "no_nul (take k (cstr s))"
  by (meson in_set_takeD no_nul_cstr no_nul_def)

lemma buf_canon_ok: "buf_canon n b \<Longrightarrow> buf_ok n b"
proof -
  assume "buf_canon n b"
  then have lt: "strlen b < n" and eq: "b = cstr b @ replicate (n - strlen b) NUL"
    by (simp_all add: buf_canon_def)
  have "NUL \<in> set (replicate (n - strlen b) NUL)" using lt by simp
  with eq have "NUL \<in> set b" by (metis Un_iff set_append)
  moreover have "length b = n" using lt eq
    by (metis length_append length_replicate less_imp_le le_add_diff_inverse strlen_def)
  ultimately show "buf_ok n b" by (simp add: buf_ok_def)
qed

lemma buf_canon_zero [simp]: "0 < n \<Longrightarrow> buf_canon n (zero_buf n)"
  by (simp add: buf_canon_def strlen_def) (simp add: zero_buf_def)

lemma put_cstr_zero_buf:
  assumes "length s < n"
  shows "put_cstr (zero_buf n) s = s @ replicate (n - length s) NUL"
proof -
  have "n - length s = Suc (n - Suc (length s))" using assms by simp
  then show ?thesis by (simp add: put_cstr_def zero_buf_def drop_replicate)
qed

lemma buf_canon_put_zero:
  assumes "no_nul s" and "length s < n"
  shows "buf_canon n (put_cstr (zero_buf n) s)"
  using assms by (simp add: buf_canon_def strlen_def) (simp add: put_cstr_zero_buf)

lemma put_cstr_canon: "buf_canon n b \<Longrightarrow> put_cstr (zero_buf n) (cstr b) = b"
  using put_cstr_zero_buf [of "cstr b" n] by (simp add: buf_canon_def strlen_def)

text \<open>The idiom \<^verbatim>\<open>strncpy(b, s, sizeof(b) - 1); b[sizeof(b) - 1] = 0\<close> leaves a canonical
  buffer holding the string cut to the array.\<close>

lemma strncpy_terminated:
  assumes "length dst = n" and "0 < n"
  shows "(strncpy dst src (n - 1))[n - 1 := NUL]
           = put_cstr (zero_buf n) (take (n - 1) (cstr src))"
proof -
  obtain m where m: "n = Suc m" using assms(2) by (cases n) auto
  let ?t = "take m (cstr src @ replicate m NUL)"
  obtain x where x: "drop m dst = [x]"
    using assms(1) m by (cases "drop m dst") (auto dest: arg_cong [where f = length])
  have len: "length ?t = m" by simp
  have "(?t @ [x])[m := NUL] = ?t @ [NUL]"
    using list_update_length [of ?t x "[]" NUL] unfolding len .
  also have "\<dots> = take m (cstr src) @ replicate (n - length (take m (cstr src))) NUL"
    by (cases "length (cstr src) \<le> m") (simp_all add: m Suc_diff_le replicate_append_same)
  finally show ?thesis
    using m x by (simp add: strncpy_def put_cstr_zero_buf)
qed

end
