(* ===== verification/Nvs.thy ===== *)
theory Nvs
  imports Prelude
begin

text \<open>
  The non-volatile storage (NVS) interface of ESP-IDF as the firmware uses it. NVS is not part
  of the repository, so it is a parameter of every definition that calls it: a record of
  operations over an abstract world \<open>'w\<close>. The locale \<open>nvs_store\<close> lists what the firmware
  relies on (documented behaviour: a lookup returns what was stored under a namespace and a
  key, a failed write touches no other key, opening and committing change no value), and holds
  the lemmas every client uses. The in-memory store at the end of the theory satisfies these
  laws, so that the properties that assume them can be applied at concrete inputs.
\<close>

datatype nvs_value = NvsU8 u8 | NvsU32 u32 | NvsStr string

datatype nvs_mode = NVS_READONLY | NVS_READWRITE

type_synonym nvs_handle = u32

record 'w nvs_api =
  nvs_flash_init :: "'w \<Rightarrow> esp_err \<times> 'w"
  nvs_flash_erase :: "'w \<Rightarrow> esp_err \<times> 'w"
  nvs_open :: "string \<Rightarrow> nvs_mode \<Rightarrow> 'w \<Rightarrow> (esp_err \<times> nvs_handle) \<times> 'w"
  nvs_close :: "nvs_handle \<Rightarrow> 'w \<Rightarrow> 'w"
  nvs_commit :: "nvs_handle \<Rightarrow> 'w \<Rightarrow> esp_err \<times> 'w"
  nvs_erase_all :: "nvs_handle \<Rightarrow> 'w \<Rightarrow> esp_err \<times> 'w"
  nvs_set_u8 :: "nvs_handle \<Rightarrow> string \<Rightarrow> u8 \<Rightarrow> 'w \<Rightarrow> esp_err \<times> 'w"
  nvs_set_u32 :: "nvs_handle \<Rightarrow> string \<Rightarrow> u32 \<Rightarrow> 'w \<Rightarrow> esp_err \<times> 'w"
  nvs_set_str :: "nvs_handle \<Rightarrow> string \<Rightarrow> char list \<Rightarrow> 'w \<Rightarrow> esp_err \<times> 'w"
  nvs_get_u8 :: "nvs_handle \<Rightarrow> string \<Rightarrow> 'w \<Rightarrow> esp_err \<times> u8"
  nvs_get_u32 :: "nvs_handle \<Rightarrow> string \<Rightarrow> 'w \<Rightarrow> esp_err \<times> u32"
  nvs_get_str :: "nvs_handle \<Rightarrow> string \<Rightarrow> nat \<Rightarrow> 'w \<Rightarrow> esp_err \<times> string"

text \<open>The three setters under one name, and what a setter stores: a C string loses what
  follows its terminator.\<close>

fun nvs_put :: "'w nvs_api \<Rightarrow> nvs_handle \<Rightarrow> string \<Rightarrow> nvs_value \<Rightarrow> 'w \<Rightarrow> esp_err \<times> 'w" where
  "nvs_put api h k (NvsU8 v) w = nvs_set_u8 api h k v w"
| "nvs_put api h k (NvsU32 v) w = nvs_set_u32 api h k v w"
| "nvs_put api h k (NvsStr b) w = nvs_set_str api h k b w"

fun nvs_norm :: "nvs_value \<Rightarrow> nvs_value" where
  "nvs_norm (NvsStr b) = NvsStr (cstr b)"
| "nvs_norm v = v"

text \<open>A getter writes its out-parameter only when it succeeds.\<close>

definition get_u8_into :: "'w nvs_api \<Rightarrow> nvs_handle \<Rightarrow> string \<Rightarrow> 'w \<Rightarrow> u8 \<Rightarrow> u8" where
  "get_u8_into api h k w old = (case nvs_get_u8 api h k w of (e, v) \<Rightarrow> if e = ESP_OK then v else old)"

definition get_u32_into :: "'w nvs_api \<Rightarrow> nvs_handle \<Rightarrow> string \<Rightarrow> 'w \<Rightarrow> u32 \<Rightarrow> u32" where
  "get_u32_into api h k w old = (case nvs_get_u32 api h k w of (e, v) \<Rightarrow> if e = ESP_OK then v else old)"

definition get_str_into ::
  "'w nvs_api \<Rightarrow> nvs_handle \<Rightarrow> string \<Rightarrow> nat \<Rightarrow> 'w \<Rightarrow> char list \<Rightarrow> char list" where
  "get_str_into api h k len w buf =
     (case nvs_get_str api h k len w of (e, s) \<Rightarrow> if e = ESP_OK then put_cstr buf s else buf)"

text \<open>The C idiom \<^verbatim>\<open>ret |= nvs_set(...)\<close> repeated: every setter runs, the codes are or-ed.\<close>

fun nvs_or_sets ::
  "'w nvs_api \<Rightarrow> nvs_handle \<Rightarrow> (string \<times> nvs_value) list \<Rightarrow> esp_err \<Rightarrow> 'w \<Rightarrow> esp_err \<times> 'w" where
  "nvs_or_sets api h [] ret w = (ret, w)"
| "nvs_or_sets api h ((k, v) # kvs) ret w =
     (case nvs_put api h k v w of (e, w') \<Rightarrow> nvs_or_sets api h kvs (ret OR e) w')"

section \<open>The contract\<close>

text \<open>\<open>ns w h\<close> is the namespace open under the handle \<open>h\<close>, \<open>val w n k\<close> the value stored in
  namespace \<open>n\<close> under the key \<open>k\<close>.\<close>

locale nvs_store =
  fixes api :: "'w nvs_api"
    and ns :: "'w \<Rightarrow> nvs_handle \<Rightarrow> string option"
    and val :: "'w \<Rightarrow> string \<Rightarrow> string \<Rightarrow> nvs_value option"
  assumes init_val: "nvs_flash_init api w = (e, w') \<Longrightarrow> val w' = val w"
    and erase_flash: "nvs_flash_erase api w = (ESP_OK, w') \<Longrightarrow> val w' n k = None"
    and open_val: "nvs_open api n m w = (r, w') \<Longrightarrow> val w' = val w"
    and open_handle: "nvs_open api n m w = ((ESP_OK, h), w') \<Longrightarrow> h \<noteq> 0 \<and> ns w' h = Some n"
    and open_others: "nvs_open api n m w = (r, w') \<Longrightarrow> ns w h = Some n' \<Longrightarrow> ns w' h = Some n'"
    and close_val: "val (nvs_close api h w) = val w"
    and close_others: "h' \<noteq> h \<Longrightarrow> ns (nvs_close api h w) h' = ns w h'"
    and commit_val: "nvs_commit api h w = (e, w') \<Longrightarrow> val w' = val w"
    and commit_ns: "nvs_commit api h w = (e, w') \<Longrightarrow> ns w' = ns w"
    and erase_ns: "nvs_erase_all api h w = (e, w') \<Longrightarrow> ns w' = ns w"
    and erase_all: "ns w h = Some n \<Longrightarrow> nvs_erase_all api h w = (ESP_OK, w') \<Longrightarrow> val w' n k = None"
    and erase_other: "ns w h = Some n \<Longrightarrow> nvs_erase_all api h w = (e, w') \<Longrightarrow> n' \<noteq> n \<Longrightarrow>
      val w' n' k = val w n' k"
    and put_ns: "nvs_put api h k v w = (e, w') \<Longrightarrow> ns w' = ns w"
    and put_val: "ns w h = Some n \<Longrightarrow> nvs_put api h k v w = (ESP_OK, w') \<Longrightarrow>
      val w' n k = Some (nvs_norm v)"
    and put_other: "ns w h = Some n \<Longrightarrow> nvs_put api h k v w = (e, w') \<Longrightarrow> n' \<noteq> n \<or> k' \<noteq> k \<Longrightarrow>
      val w' n' k' = val w n' k'"
    and get_u8_ok: "ns w h = Some n \<Longrightarrow> nvs_get_u8 api h k w = (ESP_OK, x) \<Longrightarrow>
      val w n k = Some (NvsU8 x)"
    and get_u8_complete: "ns w h = Some n \<Longrightarrow> val w n k = Some (NvsU8 x) \<Longrightarrow>
      nvs_get_u8 api h k w = (ESP_OK, x)"
    and get_u32_ok: "ns w h = Some n \<Longrightarrow> nvs_get_u32 api h k w = (ESP_OK, y) \<Longrightarrow>
      val w n k = Some (NvsU32 y)"
    and get_u32_complete: "ns w h = Some n \<Longrightarrow> val w n k = Some (NvsU32 y) \<Longrightarrow>
      nvs_get_u32 api h k w = (ESP_OK, y)"
    and get_str_ok: "ns w h = Some n \<Longrightarrow> nvs_get_str api h k len w = (ESP_OK, s) \<Longrightarrow>
      val w n k = Some (NvsStr s) \<and> length s < len \<and> no_nul s"
    and get_str_complete: "ns w h = Some n \<Longrightarrow> val w n k = Some (NvsStr s) \<Longrightarrow> no_nul s \<Longrightarrow>
      length s < len \<Longrightarrow> nvs_get_str api h k len w = (ESP_OK, s)"
begin

lemma get_u8_into_stored:
  "ns w h = Some n \<Longrightarrow> val w n k = Some (NvsU8 x) \<Longrightarrow> get_u8_into api h k w old = x"
  using get_u8_complete [of w h n k x] by (simp add: get_u8_into_def)

lemma get_u8_into_absent:
  "ns w h = Some n \<Longrightarrow> val w n k = None \<Longrightarrow> get_u8_into api h k w old = old"
  using get_u8_ok [of w h n k] by (auto simp: get_u8_into_def split: prod.splits)

lemma get_u32_into_stored:
  "ns w h = Some n \<Longrightarrow> val w n k = Some (NvsU32 x) \<Longrightarrow> get_u32_into api h k w old = x"
  using get_u32_complete [of w h n k x] by (simp add: get_u32_into_def)

lemma get_str_into_stored:
  "ns w h = Some n \<Longrightarrow> val w n k = Some (NvsStr s) \<Longrightarrow> no_nul s \<Longrightarrow> length s < len \<Longrightarrow>
     get_str_into api h k len w buf = put_cstr buf s"
  using get_str_complete [of w h n k s len] by (simp add: get_str_into_def)

lemma or_sets_ns: "nvs_or_sets api h kvs ret w = (e, w') \<Longrightarrow> ns w' = ns w"
  by (induction kvs arbitrary: ret w) (auto split: prod.splits dest: put_ns)

lemma or_sets_other:
  assumes "ns w h = Some n" and "nvs_or_sets api h kvs ret w = (e, w')"
    and "n' \<noteq> n \<or> k' \<notin> fst ` set kvs"
  shows "val w' n' k' = val w n' k'"
  using assms
proof (induction kvs arbitrary: ret w)
  case Nil
  then show ?case by simp
next
  case (Cons kv kvs)
  obtain k v where kv: "kv = (k, v)" by (cases kv)
  obtain e1 w1 where p: "nvs_put api h k v w = (e1, w1)" by (cases "nvs_put api h k v w")
  have "ns w1 h = Some n" using put_ns [OF p] Cons.prems(1) by simp
  then have "val w' n' k' = val w1 n' k'"
    using Cons.IH [of w1 "ret OR e1"] Cons.prems kv p by auto
  also have "\<dots> = val w n' k'"
    using put_other [OF Cons.prems(1) p] Cons.prems(3) kv by auto
  finally show ?case .
qed

lemma or_sets_ok_ret: "nvs_or_sets api h kvs ret w = (ESP_OK, w') \<Longrightarrow> ret = ESP_OK"
  by (induction kvs arbitrary: ret w) (fastforce split: prod.splits)+

lemma or_sets_stored:
  assumes "ns w h = Some n" and "nvs_or_sets api h kvs ret w = (ESP_OK, w')"
    and "distinct (map fst kvs)" and "(k, v) \<in> set kvs"
  shows "val w' n k = Some (nvs_norm v)"
  using assms
proof (induction kvs arbitrary: ret w)
  case Nil
  then show ?case by simp
next
  case (Cons kv kvs)
  obtain k1 v1 where kv: "kv = (k1, v1)" by (cases kv)
  obtain e1 w1 where p: "nvs_put api h k1 v1 w = (e1, w1)" by (cases "nvs_put api h k1 v1 w")
  have ns1: "ns w1 h = Some n" using put_ns [OF p] Cons.prems(1) by simp
  have rest: "nvs_or_sets api h kvs (ret OR e1) w1 = (ESP_OK, w')"
    using Cons.prems(2) kv p by simp
  have e1: "e1 = ESP_OK" using or_sets_ok_ret [OF rest] by simp
  show ?case
  proof (cases "(k, v) \<in> set kvs")
    case True
    then show ?thesis using Cons.IH [OF ns1 rest] Cons.prems(3) by simp
  next
    case False
    then have "(k, v) = (k1, v1)" and "k1 \<notin> fst ` set kvs"
      using Cons.prems(3,4) kv by auto
    then show ?thesis
      using or_sets_other [OF ns1 rest, of n k1] put_val [OF Cons.prems(1), of k1 v1 w1] p e1
      by simp
  qed
qed

end

section \<open>An in-memory store\<close>

text \<open>Handles are numbered from 1 and never reused; the next set or commit fails with the
  head of \<open>faults\<close> when that is not \<^verbatim>\<open>ESP_OK\<close>; the replies of the next
  \<^verbatim>\<open>nvs_flash_init\<close> calls are listed in \<open>inits\<close>.\<close>

record mem_nvs =
  mem_vals :: "(string \<times> string) \<Rightarrow> nvs_value option"
  mem_open :: "nvs_handle \<Rightarrow> string option"
  mem_next :: nat
  mem_faults :: "esp_err list"
  mem_inits :: "esp_err list"

definition mem_pop_fault :: "mem_nvs \<Rightarrow> esp_err \<times> mem_nvs" where
  "mem_pop_fault w = (case mem_faults w of [] \<Rightarrow> (ESP_OK, w) | e # es \<Rightarrow> (e, w\<lparr>mem_faults := es\<rparr>))"

definition mem_set :: "nvs_handle \<Rightarrow> string \<Rightarrow> nvs_value \<Rightarrow> mem_nvs \<Rightarrow> esp_err \<times> mem_nvs" where
  "mem_set h k v w =
     (case mem_open w h of None \<Rightarrow> (ESP_ERR_NVS_INVALID_HANDLE, w)
      | Some n \<Rightarrow> (case mem_pop_fault w of (e, w1) \<Rightarrow>
          if e = ESP_OK then (ESP_OK, w1\<lparr>mem_vals := (mem_vals w1)((n, k) \<mapsto> nvs_norm v)\<rparr>)
          else (e, w1)))"

definition mem_get :: "nvs_handle \<Rightarrow> string \<Rightarrow> mem_nvs \<Rightarrow> nvs_value option" where
  "mem_get h k w = (case mem_open w h of None \<Rightarrow> None | Some n \<Rightarrow> mem_vals w (n, k))"

definition mem_nvs_open :: "string \<Rightarrow> nvs_mode \<Rightarrow> mem_nvs \<Rightarrow> (esp_err \<times> nvs_handle) \<times> mem_nvs" where
  "mem_nvs_open n m w =
     (let h = of_nat (Suc (mem_next w)) in
      if int (Suc (mem_next w)) < 2 ^ 32 \<and> mem_open w h = None
      then ((ESP_OK, h), w\<lparr>mem_open := (mem_open w)(h \<mapsto> n), mem_next := Suc (mem_next w)\<rparr>)
      else ((ESP_ERR_NO_MEM, 0), w))"

definition mem_erase :: "nvs_handle \<Rightarrow> mem_nvs \<Rightarrow> esp_err \<times> mem_nvs" where
  "mem_erase h w =
     (case mem_open w h of None \<Rightarrow> (ESP_ERR_NVS_INVALID_HANDLE, w)
      | Some n \<Rightarrow> (ESP_OK, w\<lparr>mem_vals := (\<lambda>(m, k). if m = n then None else mem_vals w (m, k))\<rparr>))"

definition mem_api :: "mem_nvs nvs_api" where
  "mem_api = \<lparr>
     nvs_flash_init = (\<lambda>w. case mem_inits w of [] \<Rightarrow> (ESP_OK, w) | e # es \<Rightarrow> (e, w\<lparr>mem_inits := es\<rparr>)),
     nvs_flash_erase = (\<lambda>w. (ESP_OK, w\<lparr>mem_vals := (\<lambda>_. None)\<rparr>)),
     nvs_open = mem_nvs_open,
     nvs_close = (\<lambda>h w. w\<lparr>mem_open := (mem_open w)(h := None)\<rparr>),
     nvs_commit = (\<lambda>h w. mem_pop_fault w),
     nvs_erase_all = mem_erase,
     nvs_set_u8 = (\<lambda>h k v. mem_set h k (NvsU8 v)),
     nvs_set_u32 = (\<lambda>h k v. mem_set h k (NvsU32 v)),
     nvs_set_str = (\<lambda>h k b. mem_set h k (NvsStr b)),
     nvs_get_u8 = (\<lambda>h k w. case mem_get h k w of Some (NvsU8 x) \<Rightarrow> (ESP_OK, x)
                             | _ \<Rightarrow> (ESP_ERR_NVS_NOT_FOUND, 0)),
     nvs_get_u32 = (\<lambda>h k w. case mem_get h k w of Some (NvsU32 x) \<Rightarrow> (ESP_OK, x)
                             | _ \<Rightarrow> (ESP_ERR_NVS_NOT_FOUND, 0)),
     nvs_get_str = (\<lambda>h k len w. case mem_get h k w of
         Some (NvsStr s) \<Rightarrow> if length s < len \<and> no_nul s then (ESP_OK, s)
                            else (ESP_ERR_NVS_INVALID_LENGTH, [])
       | _ \<Rightarrow> (ESP_ERR_NVS_NOT_FOUND, []))\<rparr>"

abbreviation mem_val :: "mem_nvs \<Rightarrow> string \<Rightarrow> string \<Rightarrow> nvs_value option" where
  "mem_val w n k \<equiv> mem_vals w (n, k)"

lemma mem_pop_fault_simps [simp]:
  "mem_pop_fault w = (e, w') \<Longrightarrow> mem_vals w' = mem_vals w"
  "mem_pop_fault w = (e, w') \<Longrightarrow> mem_open w' = mem_open w"
  by (auto simp: mem_pop_fault_def split: list.splits)

lemma mem_put: "nvs_put mem_api h k v w = mem_set h k v w"
  by (cases v) (simp_all add: mem_api_def)

lemma mem_set_open: "mem_set h k v w = (e, w') \<Longrightarrow> mem_open w' = mem_open w"
  by (auto simp: mem_set_def split: option.splits prod.splits if_splits)

lemma mem_set_ok:
  "mem_open w h = Some n \<Longrightarrow> mem_set h k v w = (ESP_OK, w') \<Longrightarrow> mem_val w' n k = Some (nvs_norm v)"
  by (auto simp: mem_set_def split: option.splits prod.splits if_splits)

lemma mem_set_other:
  "mem_open w h = Some n \<Longrightarrow> mem_set h k v w = (e, w') \<Longrightarrow> n' \<noteq> n \<or> k' \<noteq> k \<Longrightarrow>
     mem_val w' n' k' = mem_val w n' k'"
  by (auto simp: mem_set_def split: option.splits prod.splits if_splits)

lemma mem_handle_nonzero: "int (Suc m) < 2 ^ 32 \<Longrightarrow> (of_nat (Suc m) :: nvs_handle) \<noteq> 0"
  by (simp add: word_of_nat_eq_0_iff nat_dvd_not_less del: of_nat_Suc)

interpretation mem: nvs_store mem_api mem_open "\<lambda>w n k. mem_vals w (n, k)"
proof (unfold_locales, goal_cases)
  case (1 w e w') then show ?case by (auto simp: mem_api_def split: list.splits)
next
  case (2 w w' n k) then show ?case by (auto simp: mem_api_def)
next
  case (3 n m w r w') then show ?case
    by (auto simp: mem_api_def mem_nvs_open_def Let_def split: if_splits)
next
  case (4 n m w h w') then show ?case
    using mem_handle_nonzero
    by (auto simp: mem_api_def mem_nvs_open_def Let_def simp del: of_nat_Suc split: if_splits)
next
  case (5 n m w r w' h n') then show ?case
    by (auto simp: mem_api_def mem_nvs_open_def Let_def split: if_splits)
next
  case (6 h w) then show ?case by (simp add: mem_api_def)
next
  case (7 h' h w) then show ?case by (simp add: mem_api_def)
next
  case (8 h w e w') then show ?case by (simp add: mem_api_def)
next
  case (9 h w e w') then show ?case by (simp add: mem_api_def)
next
  case (10 h w e w') then show ?case by (auto simp: mem_api_def mem_erase_def split: option.splits)
next
  case (11 w h n w' k) then show ?case by (auto simp: mem_api_def mem_erase_def split: option.splits)
next
  case (12 w h n e w' n' k) then show ?case
    by (auto simp: mem_api_def mem_erase_def split: option.splits)
next
  case (13 h k v w e w') then show ?case by (simp add: mem_put mem_set_open)
next
  case (14 w h n k v w') then show ?case by (simp add: mem_put mem_set_ok)
next
  case (15 w h n k v e w' n' k') then show ?case by (simp add: mem_put mem_set_other)
qed (auto simp: mem_api_def mem_get_def split: option.splits nvs_value.splits if_splits)

end
