(* ===== verification/BootManager.thy ===== *)
theory BootManager
  imports Nvs
begin

text \<open>
  The boot manager of \<^verbatim>\<open>src/src/simibox_boot_manager_idf.c\<close> and the protocol constants of
  \<^verbatim>\<open>simibox_nvs_protocol.h\<close>: the state shared by the firmwares through the NVS namespace
  \<^verbatim>\<open>bootmgr\<close>, its cached copy, and the operations that move the download workflow forward.
  The record \<open>boot_mgr\<close> is the file's two statics; every operation takes the NVS interface,
  the statics and the NVS world and returns its error code with the new statics and world.
\<close>

section \<open>Protocol constants\<close>

definition SIMIBOX_NVS_NAMESPACE :: string where "SIMIBOX_NVS_NAMESPACE = ''bootmgr''"

definition NVS_KEY_REASON :: string where "NVS_KEY_REASON = ''reason''"
definition NVS_KEY_FOLDER :: string where "NVS_KEY_FOLDER = ''folder''"
definition NVS_KEY_RETRY :: string where "NVS_KEY_RETRY = ''retry''"
definition NVS_KEY_ERROR :: string where "NVS_KEY_ERROR = ''error''"
definition NVS_KEY_PROGRESS :: string where "NVS_KEY_PROGRESS = ''progress''"
definition NVS_KEY_SIZE :: string where "NVS_KEY_SIZE = ''size''"
definition NVS_KEY_VOLUME :: string where "NVS_KEY_VOLUME = ''volume''"
definition NVS_KEY_MAX_VOL :: string where "NVS_KEY_MAX_VOL = ''maxvol''"
definition NVS_KEY_SSID :: string where "NVS_KEY_SSID = ''ssid''"
definition NVS_KEY_BOOT_COUNT :: string where "NVS_KEY_BOOT_COUNT = ''boot_cnt''"

lemmas nvs_key_defs = NVS_KEY_REASON_def NVS_KEY_FOLDER_def NVS_KEY_RETRY_def NVS_KEY_ERROR_def
  NVS_KEY_PROGRESS_def NVS_KEY_SIZE_def NVS_KEY_VOLUME_def NVS_KEY_MAX_VOL_def NVS_KEY_SSID_def
  NVS_KEY_BOOT_COUNT_def

text \<open>The enumerations are C \<^verbatim>\<open>int\<close>s: a value read back from NVS is cast without a check, so
  any byte can occur.\<close>

type_synonym boot_reason_t = u32
type_synonym download_error_t = u32

definition BOOT_REASON_NORMAL :: boot_reason_t where "BOOT_REASON_NORMAL = 0"
definition BOOT_REASON_DOWNLOAD_REQUEST :: boot_reason_t where "BOOT_REASON_DOWNLOAD_REQUEST = 1"
definition BOOT_REASON_DOWNLOAD_SUCCESS :: boot_reason_t where "BOOT_REASON_DOWNLOAD_SUCCESS = 2"
definition BOOT_REASON_DOWNLOAD_FAILED :: boot_reason_t where "BOOT_REASON_DOWNLOAD_FAILED = 3"
definition BOOT_REASON_FACTORY_RESET :: boot_reason_t where "BOOT_REASON_FACTORY_RESET = 4"

definition DOWNLOAD_ERROR_NONE :: download_error_t where "DOWNLOAD_ERROR_NONE = 0"
definition DOWNLOAD_ERROR_WIFI_CONNECT :: download_error_t where "DOWNLOAD_ERROR_WIFI_CONNECT = 1"
definition DOWNLOAD_ERROR_SERVER_UNREACHABLE :: download_error_t where
  "DOWNLOAD_ERROR_SERVER_UNREACHABLE = 2"
definition DOWNLOAD_ERROR_DOWNLOAD_FAILED :: download_error_t where
  "DOWNLOAD_ERROR_DOWNLOAD_FAILED = 3"
definition DOWNLOAD_ERROR_VERIFICATION_FAILED :: download_error_t where
  "DOWNLOAD_ERROR_VERIFICATION_FAILED = 4"
definition DOWNLOAD_ERROR_SD_CARD :: download_error_t where "DOWNLOAD_ERROR_SD_CARD = 5"
definition DOWNLOAD_ERROR_TIMEOUT :: download_error_t where "DOWNLOAD_ERROR_TIMEOUT = 6"

lemmas reason_defs = BOOT_REASON_NORMAL_def BOOT_REASON_DOWNLOAD_REQUEST_def
  BOOT_REASON_DOWNLOAD_SUCCESS_def BOOT_REASON_DOWNLOAD_FAILED_def BOOT_REASON_FACTORY_RESET_def

lemmas dl_error_defs = DOWNLOAD_ERROR_NONE_def DOWNLOAD_ERROR_WIFI_CONNECT_def
  DOWNLOAD_ERROR_SERVER_UNREACHABLE_def DOWNLOAD_ERROR_DOWNLOAD_FAILED_def
  DOWNLOAD_ERROR_VERIFICATION_FAILED_def DOWNLOAD_ERROR_SD_CARD_def DOWNLOAD_ERROR_TIMEOUT_def

definition MAX_BOOT_FAILURES :: u8 where "MAX_BOOT_FAILURES = 5"
definition MAX_DOWNLOAD_RETRIES :: u8 where "MAX_DOWNLOAD_RETRIES = 3"

definition SIMIBOX_NEEDS_DOWNLOAD :: "boot_reason_t \<Rightarrow> bool" where
  "SIMIBOX_NEEDS_DOWNLOAD r = (r = BOOT_REASON_DOWNLOAD_REQUEST)"

definition SIMIBOX_DOWNLOAD_COMPLETED :: "boot_reason_t \<Rightarrow> bool" where
  "SIMIBOX_DOWNLOAD_COMPLETED r =
     (r = BOOT_REASON_DOWNLOAD_SUCCESS \<or> r = BOOT_REASON_DOWNLOAD_FAILED)"

section \<open>State\<close>

record boot_state_t =
  reason :: boot_reason_t
  folder :: "char list"
  retry_count :: u8
  last_error :: download_error_t
  volume :: u8
  max_volume :: u8
  last_ssid :: "char list"
  download_size :: u32
  download_progress :: u8

text \<open>\<^verbatim>\<open>memset(state, 0, sizeof(boot_state_t))\<close>\<close>

definition boot_state_zero :: boot_state_t where
  "boot_state_zero = \<lparr>reason = 0, folder = zero_buf 64, retry_count = 0, last_error = 0,
     volume = 0, max_volume = 0, last_ssid = zero_buf 32, download_size = 0,
     download_progress = 0\<rparr>"

record boot_mgr =
  g_nvs_handle :: nvs_handle
  g_current_state :: boot_state_t

definition boot_mgr_zero :: boot_mgr where
  "boot_mgr_zero = \<lparr>g_nvs_handle = 0, g_current_state = boot_state_zero\<rparr>"

section \<open>Saving and loading\<close>

text \<open>The nine writes of \<^verbatim>\<open>boot_mgr_save_state\<close>, in order.\<close>

definition boot_state_entries :: "boot_state_t \<Rightarrow> (string \<times> nvs_value) list" where
  "boot_state_entries st =
    [(NVS_KEY_REASON, NvsU8 (ucast (reason st))),
     (NVS_KEY_FOLDER, NvsStr (folder st)),
     (NVS_KEY_RETRY, NvsU8 (retry_count st)),
     (NVS_KEY_ERROR, NvsU8 (ucast (last_error st))),
     (NVS_KEY_VOLUME, NvsU8 (volume st)),
     (NVS_KEY_MAX_VOL, NvsU8 (max_volume st)),
     (NVS_KEY_SSID, NvsStr (last_ssid st)),
     (NVS_KEY_SIZE, NvsU32 (download_size st)),
     (NVS_KEY_PROGRESS, NvsU8 (download_progress st))]"

definition boot_mgr_save_state ::
  "'w nvs_api \<Rightarrow> boot_state_t option \<Rightarrow> boot_mgr \<Rightarrow> 'w \<Rightarrow> esp_err \<times> boot_mgr \<times> 'w" where
  "boot_mgr_save_state api state b w =
    (case state of
       None \<Rightarrow> (ESP_ERR_INVALID_STATE, b, w)
     | Some st \<Rightarrow>
         if g_nvs_handle b = 0 then (ESP_ERR_INVALID_STATE, b, w)
         else (case nvs_or_sets api (g_nvs_handle b) (boot_state_entries st) ESP_OK w of
           (ret, w1) \<Rightarrow>
             (case (if ret = ESP_OK then nvs_commit api (g_nvs_handle b) w1 else (ret, w1)) of
               (ret2, w2) \<Rightarrow>
                 if ret2 \<noteq> ESP_OK then (ret2, b, w2)
                 else (ret2, b\<lparr>g_current_state := st\<rparr>, w2))))"

text \<open>The state read from NVS over the defaults.\<close>

definition boot_state_read :: "'w nvs_api \<Rightarrow> nvs_handle \<Rightarrow> 'w \<Rightarrow> boot_state_t" where
  "boot_state_read api h w =
    (let d = boot_state_zero\<lparr>reason := BOOT_REASON_NORMAL, volume := 6, max_volume := 12\<rparr> in
     \<lparr>reason = (case nvs_get_u8 api h NVS_KEY_REASON w of (e, temp) \<Rightarrow>
                  if e = ESP_OK then ucast temp else reason d),
      folder = get_str_into api h NVS_KEY_FOLDER 64 w (folder d),
      retry_count = get_u8_into api h NVS_KEY_RETRY w (retry_count d),
      last_error = (case nvs_get_u8 api h NVS_KEY_ERROR w of (e, temp) \<Rightarrow>
                  if e = ESP_OK then ucast temp else last_error d),
      volume = get_u8_into api h NVS_KEY_VOLUME w (volume d),
      max_volume = get_u8_into api h NVS_KEY_MAX_VOL w (max_volume d),
      last_ssid = get_str_into api h NVS_KEY_SSID 32 w (last_ssid d),
      download_size = get_u32_into api h NVS_KEY_SIZE w (download_size d),
      download_progress = get_u8_into api h NVS_KEY_PROGRESS w (download_progress d)\<rparr>)"

definition boot_mgr_load_state ::
  "'w nvs_api \<Rightarrow> boot_state_t option \<Rightarrow> boot_mgr \<Rightarrow> 'w \<Rightarrow> esp_err \<times> boot_state_t option \<times> boot_mgr" where
  "boot_mgr_load_state api state b w =
    (if state = None \<or> g_nvs_handle b = 0 then (ESP_ERR_INVALID_STATE, state, b)
     else let st = boot_state_read api (g_nvs_handle b) w in
       (ESP_OK, Some st, b\<lparr>g_current_state := st\<rparr>))"

definition boot_mgr_init ::
  "'w nvs_api \<Rightarrow> boot_mgr \<Rightarrow> 'w \<Rightarrow> esp_err \<times> boot_mgr \<times> 'w" where
  "boot_mgr_init api b w =
    (case nvs_open api SIMIBOX_NVS_NAMESPACE NVS_READWRITE w of
       ((ret, h), w1) \<Rightarrow>
         if ret \<noteq> ESP_OK then (ret, b, w1)
         else let b1 = b\<lparr>g_nvs_handle := h\<rparr> in
           (case boot_mgr_load_state api (Some (g_current_state b1)) b1 w1 of
             (_, _, b2) \<Rightarrow> (ESP_OK, b2, w1)))"

definition clean_state :: boot_state_t where
  "clean_state = \<lparr>reason = BOOT_REASON_NORMAL, folder = zero_buf 64, retry_count = 0,
     last_error = DOWNLOAD_ERROR_NONE, volume = 6, max_volume = 12, last_ssid = zero_buf 32,
     download_size = 0, download_progress = 0\<rparr>"

definition boot_mgr_clear_state ::
  "'w nvs_api \<Rightarrow> boot_mgr \<Rightarrow> 'w \<Rightarrow> esp_err \<times> boot_mgr \<times> 'w" where
  "boot_mgr_clear_state api b w = boot_mgr_save_state api (Some clean_state) b w"

section \<open>Download workflow\<close>

definition boot_mgr_request_download ::
  "'w nvs_api \<Rightarrow> string option \<Rightarrow> u32 \<Rightarrow> boot_mgr \<Rightarrow> 'w \<Rightarrow> esp_err \<times> boot_mgr \<times> 'w" where
  "boot_mgr_request_download api fname expected_size b w =
    (case fname of
       None \<Rightarrow> (ESP_ERR_INVALID_ARG, b, w)
     | Some f \<Rightarrow>
         let st = g_current_state b in
         boot_mgr_save_state api
           (Some (st\<lparr>reason := BOOT_REASON_DOWNLOAD_REQUEST,
                     folder := (strncpy (folder st) f (64 - 1))[64 - 1 := NUL],
                     retry_count := 0,
                     last_error := DOWNLOAD_ERROR_NONE,
                     download_size := expected_size,
                     download_progress := 0\<rparr>)) b w)"

definition boot_mgr_update_progress ::
  "'w nvs_api \<Rightarrow> u8 \<Rightarrow> boot_mgr \<Rightarrow> 'w \<Rightarrow> esp_err \<times> boot_mgr \<times> 'w" where
  "boot_mgr_update_progress api percent b w =
    (if g_nvs_handle b = 0 then (ESP_ERR_INVALID_STATE, b, w)
     else let b1 = b\<lparr>g_current_state := (g_current_state b)\<lparr>download_progress := percent\<rparr>\<rparr> in
       (case nvs_set_u8 api (g_nvs_handle b) NVS_KEY_PROGRESS percent w of
         (ret, w1) \<Rightarrow>
           (case (if ret = ESP_OK then nvs_commit api (g_nvs_handle b) w1 else (ret, w1)) of
             (ret2, w2) \<Rightarrow> (ret2, b1, w2))))"

definition boot_mgr_report_success ::
  "'w nvs_api \<Rightarrow> boot_mgr \<Rightarrow> 'w \<Rightarrow> esp_err \<times> boot_mgr \<times> 'w" where
  "boot_mgr_report_success api b w =
    (let b1 = b\<lparr>g_current_state := (g_current_state b)
                  \<lparr>reason := BOOT_REASON_DOWNLOAD_SUCCESS,
                   last_error := DOWNLOAD_ERROR_NONE,
                   download_progress := 100\<rparr>\<rparr> in
     boot_mgr_save_state api (Some (g_current_state b1)) b1 w)"

definition boot_mgr_report_failure ::
  "'w nvs_api \<Rightarrow> download_error_t \<Rightarrow> boot_mgr \<Rightarrow> 'w \<Rightarrow> esp_err \<times> boot_mgr \<times> 'w" where
  "boot_mgr_report_failure api error b w =
    (let b1 = b\<lparr>g_current_state := (g_current_state b)
                  \<lparr>reason := BOOT_REASON_DOWNLOAD_FAILED,
                   last_error := error,
                   retry_count := retry_count (g_current_state b) + 1\<rparr>\<rparr> in
     boot_mgr_save_state api (Some (g_current_state b1)) b1 w)"

definition boot_mgr_needs_download :: "boot_mgr \<Rightarrow> bool" where
  "boot_mgr_needs_download b =
    (reason (g_current_state b) = BOOT_REASON_DOWNLOAD_REQUEST \<and>
     strlen (folder (g_current_state b)) > 0)"

definition boot_mgr_get_error_string :: "download_error_t \<Rightarrow> string" where
  "boot_mgr_get_error_string error =
    (if error = DOWNLOAD_ERROR_NONE then ''No error''
     else if error = DOWNLOAD_ERROR_WIFI_CONNECT then ''WiFi connection failed''
     else if error = DOWNLOAD_ERROR_SERVER_UNREACHABLE then ''Server unreachable''
     else if error = DOWNLOAD_ERROR_DOWNLOAD_FAILED then ''Download failed''
     else if error = DOWNLOAD_ERROR_VERIFICATION_FAILED then ''Verification failed''
     else if error = DOWNLOAD_ERROR_SD_CARD then ''SD card error''
     else if error = DOWNLOAD_ERROR_TIMEOUT then ''Operation timeout''
     else ''Unknown error'')"

definition boot_mgr_set_volume ::
  "'w nvs_api \<Rightarrow> u8 \<Rightarrow> boot_mgr \<Rightarrow> 'w \<Rightarrow> esp_err \<times> boot_mgr \<times> 'w" where
  "boot_mgr_set_volume api vol b w =
    (if g_nvs_handle b = 0 then (ESP_ERR_INVALID_STATE, b, w)
     else let b1 = b\<lparr>g_current_state := (g_current_state b)\<lparr>volume := vol\<rparr>\<rparr> in
       (case nvs_set_u8 api (g_nvs_handle b) NVS_KEY_VOLUME vol w of
         (ret, w1) \<Rightarrow>
           (case (if ret = ESP_OK then nvs_commit api (g_nvs_handle b) w1 else (ret, w1)) of
             (ret2, w2) \<Rightarrow> (ret2, b1, w2))))"

text \<open>\<^verbatim>\<open>boot_mgr_get_volume(uint8_t* vol)\<close>: the argument is the byte pointed to, \<open>None\<close> for a
  null pointer.\<close>

definition boot_mgr_get_volume :: "u8 option \<Rightarrow> boot_mgr \<Rightarrow> esp_err \<times> u8 option" where
  "boot_mgr_get_volume vol b =
    (case vol of None \<Rightarrow> (ESP_ERR_INVALID_ARG, None)
     | Some _ \<Rightarrow> (ESP_OK, Some (volume (g_current_state b))))"

section \<open>What is stored and what is read back\<close>

text \<open>A state whose strings fill their arrays canonically and whose enumerations fit the byte
  they are stored in: what every operation below produces.\<close>

definition bs_canon :: "boot_state_t \<Rightarrow> bool" where
  "bs_canon st \<longleftrightarrow> buf_canon 64 (folder st) \<and> buf_canon 32 (last_ssid st) \<and>
     reason st < 256 \<and> last_error st < 256"

text \<open>NVS holds exactly the entries \<^verbatim>\<open>boot_mgr_save_state\<close> writes for this state.\<close>

definition nvs_mirrors ::
  "('w \<Rightarrow> string \<Rightarrow> string \<Rightarrow> nvs_value option) \<Rightarrow> 'w \<Rightarrow> boot_state_t \<Rightarrow> bool" where
  "nvs_mirrors val w st \<longleftrightarrow>
     list_all (\<lambda>(k, v). val w SIMIBOX_NVS_NAMESPACE k = Some (nvs_norm v)) (boot_state_entries st)"

lemma nvs_mirrors_iff:
  "nvs_mirrors val w st \<longleftrightarrow>
     val w SIMIBOX_NVS_NAMESPACE NVS_KEY_REASON = Some (NvsU8 (ucast (reason st))) \<and>
     val w SIMIBOX_NVS_NAMESPACE NVS_KEY_FOLDER = Some (NvsStr (cstr (folder st))) \<and>
     val w SIMIBOX_NVS_NAMESPACE NVS_KEY_RETRY = Some (NvsU8 (retry_count st)) \<and>
     val w SIMIBOX_NVS_NAMESPACE NVS_KEY_ERROR = Some (NvsU8 (ucast (last_error st))) \<and>
     val w SIMIBOX_NVS_NAMESPACE NVS_KEY_VOLUME = Some (NvsU8 (volume st)) \<and>
     val w SIMIBOX_NVS_NAMESPACE NVS_KEY_MAX_VOL = Some (NvsU8 (max_volume st)) \<and>
     val w SIMIBOX_NVS_NAMESPACE NVS_KEY_SSID = Some (NvsStr (cstr (last_ssid st))) \<and>
     val w SIMIBOX_NVS_NAMESPACE NVS_KEY_SIZE = Some (NvsU32 (download_size st)) \<and>
     val w SIMIBOX_NVS_NAMESPACE NVS_KEY_PROGRESS = Some (NvsU8 (download_progress st))"
  by (simp add: nvs_mirrors_def boot_state_entries_def)

definition bm_open :: "('w \<Rightarrow> nvs_handle \<Rightarrow> string option) \<Rightarrow> boot_mgr \<Rightarrow> 'w \<Rightarrow> bool" where
  "bm_open ns b w \<longleftrightarrow> g_nvs_handle b \<noteq> 0 \<and> ns w (g_nvs_handle b) = Some SIMIBOX_NVS_NAMESPACE"

lemma distinct_boot_state_entries [simp]: "distinct (map fst (boot_state_entries st))"
  by (simp add: boot_state_entries_def nvs_key_defs)

lemma boot_state_entries_keys:
  "fst ` set (boot_state_entries st) = {NVS_KEY_REASON, NVS_KEY_FOLDER, NVS_KEY_RETRY,
     NVS_KEY_ERROR, NVS_KEY_VOLUME, NVS_KEY_MAX_VOL, NVS_KEY_SSID, NVS_KEY_SIZE, NVS_KEY_PROGRESS}"
  by (simp add: boot_state_entries_def insert_commute)

lemma ucast_u8_u32 [simp]: "(x :: u32) < 256 \<Longrightarrow> ucast (ucast x :: u8) = x"
  by (simp add: word_unat_eq_iff unsigned_ucast_eq take_bit_nat_eq_self word_less_nat_alt
      unsigned_take_bit_eq)

lemma save_state_ok_split:
  assumes "boot_mgr_save_state api (Some st) b w = (ESP_OK, b', w')"
  obtains w1 where "g_nvs_handle b \<noteq> 0"
    and "nvs_or_sets api (g_nvs_handle b) (boot_state_entries st) ESP_OK w = (ESP_OK, w1)"
    and "nvs_commit api (g_nvs_handle b) w1 = (ESP_OK, w')"
    and "b' = b\<lparr>g_current_state := st\<rparr>"
  using assms by (auto simp: boot_mgr_save_state_def split: if_splits prod.splits)

context nvs_store
begin

lemma save_state_ok:
  assumes "bm_open ns b w" and "boot_mgr_save_state api (Some st) b w = (ESP_OK, b', w')"
  shows "nvs_mirrors val w' st" and "bm_open ns b' w'" and "g_current_state b' = st"
proof -
  from assms(2) obtain w1
    where sets: "nvs_or_sets api (g_nvs_handle b) (boot_state_entries st) ESP_OK w = (ESP_OK, w1)"
      and com: "nvs_commit api (g_nvs_handle b) w1 = (ESP_OK, w')"
      and b': "b' = b\<lparr>g_current_state := st\<rparr>"
    by (rule save_state_ok_split)
  have open_h: "ns w (g_nvs_handle b) = Some SIMIBOX_NVS_NAMESPACE"
    using assms(1) by (simp add: bm_open_def)
  have "val w' SIMIBOX_NVS_NAMESPACE k = Some (nvs_norm v)"
    if "(k, v) \<in> set (boot_state_entries st)" for k v
    using or_sets_stored [OF open_h sets _ that] commit_val [OF com] by simp
  then show "nvs_mirrors val w' st"
    by (auto simp: nvs_mirrors_def list_all_iff)
  show "bm_open ns b' w'"
    using assms(1) or_sets_ns [OF sets] commit_ns [OF com] b' by (simp add: bm_open_def)
  show "g_current_state b' = st" using b' by simp
qed

lemma save_state_ns: "boot_mgr_save_state api st b w = (e, b', w') \<Longrightarrow> ns w' = ns w"
  by (auto simp: boot_mgr_save_state_def split: option.splits if_splits prod.splits
      dest!: or_sets_ns commit_ns)

lemma save_state_other:
  assumes "bm_open ns b w" and "boot_mgr_save_state api (Some st) b w = (e, b', w')"
    and "n \<noteq> SIMIBOX_NVS_NAMESPACE \<or> k \<notin> fst ` set (boot_state_entries st)"
  shows "val w' n k = val w n k"
proof -
  obtain ret w1 where sets:
      "nvs_or_sets api (g_nvs_handle b) (boot_state_entries st) ESP_OK w = (ret, w1)"
    by (cases "nvs_or_sets api (g_nvs_handle b) (boot_state_entries st) ESP_OK w")
  have "val w1 n k = val w n k"
    using or_sets_other [OF _ sets assms(3)] assms(1) by (simp add: bm_open_def)
  moreover have "val w' = val w1"
    using assms(1,2) sets
    by (auto simp: boot_mgr_save_state_def bm_open_def split: if_splits prod.splits
        dest!: commit_val)
  ultimately show ?thesis by simp
qed

lemma read_mirrors:
  assumes "nvs_mirrors val w st" and "ns w h = Some SIMIBOX_NVS_NAMESPACE" and "bs_canon st"
  shows "boot_state_read api h w = st"
proof -
  note v = assms(1) [unfolded nvs_mirrors_iff]
  note u8 = get_u8_into_stored [OF assms(2)] get_u8_complete [OF assms(2)]
    and u32 = get_u32_into_stored [OF assms(2)] and str = get_str_into_stored [OF assms(2)]
  have buf: "put_cstr (zero_buf 64) (cstr (folder st)) = folder st"
    "put_cstr (zero_buf 32) (cstr (last_ssid st)) = last_ssid st"
    "length (cstr (folder st)) < 64" "length (cstr (last_ssid st)) < 32"
    using assms(3) put_cstr_canon by (auto simp: bs_canon_def buf_canon_def strlen_def)
  show ?thesis
    using v buf assms(3)
    by (simp add: boot_state_read_def boot_state_zero_def bs_canon_def u8 u32 str)
qed

end

section \<open>The download workflow as a transition system\<close>

text \<open>One step is one call of the boot manager that reported \<^verbatim>\<open>ESP_OK\<close>, or a reboot: the
  statics are lost and \<^verbatim>\<open>boot_mgr_init\<close> reads the state back.\<close>

inductive bm_step :: "'w nvs_api \<Rightarrow> boot_mgr \<times> 'w \<Rightarrow> boot_mgr \<times> 'w \<Rightarrow> bool" for api where
  request: "boot_mgr_request_download api (Some f) n b w = (ESP_OK, b', w') \<Longrightarrow>
    bm_step api (b, w) (b', w')"
| progress: "boot_mgr_update_progress api p b w = (ESP_OK, b', w') \<Longrightarrow> bm_step api (b, w) (b', w')"
| success: "boot_mgr_report_success api b w = (ESP_OK, b', w') \<Longrightarrow> bm_step api (b, w) (b', w')"
| failure: "error < 256 \<Longrightarrow> boot_mgr_report_failure api error b w = (ESP_OK, b', w') \<Longrightarrow>
    bm_step api (b, w) (b', w')"
| clear: "boot_mgr_clear_state api b w = (ESP_OK, b', w') \<Longrightarrow> bm_step api (b, w) (b', w')"
| vol: "boot_mgr_set_volume api v b w = (ESP_OK, b', w') \<Longrightarrow> bm_step api (b, w) (b', w')"
| reboot: "boot_mgr_init api boot_mgr_zero w = (ESP_OK, b', w') \<Longrightarrow> bm_step api (b, w) (b', w')"

inductive bm_reach :: "'w nvs_api \<Rightarrow> boot_mgr \<times> 'w \<Rightarrow> bool" for api where
  start: "boot_mgr_init api boot_mgr_zero w0 = (ESP_OK, b, w) \<Longrightarrow>
    boot_mgr_clear_state api b w = (ESP_OK, b', w') \<Longrightarrow> bm_reach api (b', w')"
| step: "bm_reach api s \<Longrightarrow> bm_step api s t \<Longrightarrow> bm_reach api t"

definition workflow_ok :: "boot_state_t \<Rightarrow> bool" where
  "workflow_ok st \<longleftrightarrow>
     (reason st = BOOT_REASON_DOWNLOAD_REQUEST \<longrightarrow>
        retry_count st = 0 \<and> last_error st = DOWNLOAD_ERROR_NONE) \<and>
     (reason st = BOOT_REASON_DOWNLOAD_SUCCESS \<longrightarrow> last_error st = DOWNLOAD_ERROR_NONE)"

definition bm_inv ::
  "('w \<Rightarrow> nvs_handle \<Rightarrow> string option) \<Rightarrow> ('w \<Rightarrow> string \<Rightarrow> string \<Rightarrow> nvs_value option) \<Rightarrow>
   boot_mgr \<times> 'w \<Rightarrow> bool" where
  "bm_inv ns val s \<longleftrightarrow> (case s of (b, w) \<Rightarrow>
     bm_open ns b w \<and> nvs_mirrors val w (g_current_state b) \<and> bs_canon (g_current_state b) \<and>
     workflow_ok (g_current_state b))"

lemma request_folder_canon:
  "length buf = 64 \<Longrightarrow> (strncpy buf f (64 - 1))[64 - 1 := NUL] =
     put_cstr (zero_buf 64) (take 63 (cstr f))"
  using strncpy_terminated [of buf 64 f] by simp

lemma buf_canon_length: "buf_canon n b \<Longrightarrow> length b = n"
  using buf_canon_ok by (auto simp: buf_ok_def)

lemma request_state_canon:
  assumes "bs_canon st"
  shows "bs_canon (st\<lparr>reason := BOOT_REASON_DOWNLOAD_REQUEST,
           folder := (strncpy (folder st) f (64 - 1))[64 - 1 := NUL], retry_count := 0,
           last_error := DOWNLOAD_ERROR_NONE, download_size := n, download_progress := 0\<rparr>)"
proof -
  have "length (folder st) = 64" using assms buf_canon_length by (auto simp: bs_canon_def)
  moreover have "length (take 63 (cstr f)) < 64" by simp
  ultimately show ?thesis
    using assms buf_canon_put_zero [of "take 63 (cstr f)" 64]
    by (simp add: bs_canon_def request_folder_canon [simplified] reason_defs dl_error_defs)
qed

lemma clean_state_canon: "bs_canon clean_state"
  by (simp add: bs_canon_def clean_state_def reason_defs dl_error_defs)

lemma clean_state_workflow: "workflow_ok clean_state"
  by (simp add: workflow_ok_def clean_state_def reason_defs)

context nvs_store
begin

lemma save_inv:
  assumes "bm_open ns b w" and "boot_mgr_save_state api (Some st) b w = (ESP_OK, b', w')"
    and "bs_canon st" and "workflow_ok st"
  shows "bm_inv ns val (b', w')"
  using save_state_ok [OF assms(1,2)] assms(3,4) by (simp add: bm_inv_def)

lemma init_ok:
  assumes "boot_mgr_init api b w = (ESP_OK, b', w')"
  shows "bm_open ns b' w'" and "val w' = val w"
    and "g_current_state b' = boot_state_read api (g_nvs_handle b') w'"
proof -
  from assms obtain h
    where op: "nvs_open api SIMIBOX_NVS_NAMESPACE NVS_READWRITE w = ((ESP_OK, h), w')"
      and b': "b' = snd (snd (boot_mgr_load_state api (Some (g_current_state b))
                                (b\<lparr>g_nvs_handle := h\<rparr>) w'))"
    by (auto simp: boot_mgr_init_def Let_def split: prod.splits if_splits)
  have h: "h \<noteq> 0" "ns w' h = Some SIMIBOX_NVS_NAMESPACE" using open_handle [OF op] by auto
  show "bm_open ns b' w'" and "g_current_state b' = boot_state_read api (g_nvs_handle b') w'"
    using b' h by (auto simp: boot_mgr_load_state_def bm_open_def Let_def)
  show "val w' = val w" by (rule open_val [OF op])
qed

lemma init_reads_back:
  assumes "boot_mgr_init api b0 w = (ESP_OK, b', w')" and "nvs_mirrors val w st" and "bs_canon st"
  shows "g_current_state b' = st" and "bm_open ns b' w'" and "nvs_mirrors val w' st"
proof -
  have "nvs_mirrors val w' st"
    using assms(2) init_ok(2) [OF assms(1)] by (simp add: nvs_mirrors_iff)
  then show "g_current_state b' = st" and "bm_open ns b' w'" and "nvs_mirrors val w' st"
    using init_ok [OF assms(1)] read_mirrors [OF _ _ assms(3)] by (auto simp: bm_open_def)
qed

lemma set_one_mirrors:
  assumes "bm_open ns b w" and "nvs_mirrors val w st"
    and "nvs_set_u8 api (g_nvs_handle b) k v w = (ESP_OK, w1)"
    and "nvs_commit api (g_nvs_handle b) w1 = (ESP_OK, w')"
  shows "bm_open ns b w'"
    and "k = NVS_KEY_PROGRESS \<Longrightarrow> nvs_mirrors val w' (st\<lparr>download_progress := v\<rparr>)"
    and "k = NVS_KEY_VOLUME \<Longrightarrow> nvs_mirrors val w' (st\<lparr>volume := v\<rparr>)"
proof -
  have put: "nvs_put api (g_nvs_handle b) k (NvsU8 v) w = (ESP_OK, w1)" using assms(3) by simp
  have h: "ns w (g_nvs_handle b) = Some SIMIBOX_NVS_NAMESPACE" using assms(1) by (simp add: bm_open_def)
  show "bm_open ns b w'"
    using assms(1) put_ns [OF put] commit_ns [OF assms(4)] by (simp add: bm_open_def)
  have new: "val w' SIMIBOX_NVS_NAMESPACE k = Some (NvsU8 v)"
    using put_val [OF h put] commit_val [OF assms(4)] by simp
  have old: "k' \<noteq> k \<Longrightarrow> val w' SIMIBOX_NVS_NAMESPACE k' = val w SIMIBOX_NVS_NAMESPACE k'" for k'
    using put_other [OF h put] commit_val [OF assms(4)] by simp
  note keys = old [of NVS_KEY_REASON] old [of NVS_KEY_FOLDER] old [of NVS_KEY_RETRY]
    old [of NVS_KEY_ERROR] old [of NVS_KEY_VOLUME] old [of NVS_KEY_MAX_VOL] old [of NVS_KEY_SSID]
    old [of NVS_KEY_SIZE] old [of NVS_KEY_PROGRESS]
  show "k = NVS_KEY_PROGRESS \<Longrightarrow> nvs_mirrors val w' (st\<lparr>download_progress := v\<rparr>)"
    using assms(2) new keys by (simp add: nvs_mirrors_iff) (simp add: nvs_key_defs)
  show "k = NVS_KEY_VOLUME \<Longrightarrow> nvs_mirrors val w' (st\<lparr>volume := v\<rparr>)"
    using assms(2) new keys by (simp add: nvs_mirrors_iff) (simp add: nvs_key_defs)
qed

lemma bm_step_inv:
  assumes "bm_step api s t" and "bm_inv ns val s"
  shows "bm_inv ns val t"
  using assms
proof (induction rule: bm_step.induct)
  case (request f n b w b' w')
  then have "bm_open ns b w" and c: "bs_canon (g_current_state b)" by (auto simp: bm_inv_def)
  then show ?case
    using request(1) request_state_canon [OF c]
    by (auto simp: boot_mgr_request_download_def Let_def workflow_ok_def reason_defs
        intro!: save_inv)
next
  case (progress p b w b' w')
  then show ?case
    using set_one_mirrors [of b w "g_current_state b" NVS_KEY_PROGRESS p]
    by (auto simp: bm_inv_def boot_mgr_update_progress_def bs_canon_def workflow_ok_def bm_open_def
        split: if_splits prod.splits)
next
  case (success b w b' w')
  let ?st = "(g_current_state b)\<lparr>reason := BOOT_REASON_DOWNLOAD_SUCCESS,
    last_error := DOWNLOAD_ERROR_NONE, download_progress := 100\<rparr>"
  have "boot_mgr_save_state api (Some ?st) (b\<lparr>g_current_state := ?st\<rparr>) w = (ESP_OK, b', w')"
    using success(1) by (simp add: boot_mgr_report_success_def Let_def)
  moreover have "bm_open ns (b\<lparr>g_current_state := ?st\<rparr>) w" "bs_canon ?st" "workflow_ok ?st"
    using success(2)
    by (auto simp: bm_inv_def bm_open_def bs_canon_def workflow_ok_def reason_defs dl_error_defs)
  ultimately show ?case by (blast intro: save_inv)
next
  case (failure error b w b' w')
  let ?st = "(g_current_state b)\<lparr>reason := BOOT_REASON_DOWNLOAD_FAILED, last_error := error,
    retry_count := retry_count (g_current_state b) + 1\<rparr>"
  have "boot_mgr_save_state api (Some ?st) (b\<lparr>g_current_state := ?st\<rparr>) w = (ESP_OK, b', w')"
    using failure(2) by (simp add: boot_mgr_report_failure_def Let_def)
  moreover have "bm_open ns (b\<lparr>g_current_state := ?st\<rparr>) w" "bs_canon ?st" "workflow_ok ?st"
    using failure(1,3)
    by (auto simp: bm_inv_def bm_open_def bs_canon_def workflow_ok_def reason_defs)
  ultimately show ?case by (blast intro: save_inv)
next
  case (clear b w b' w')
  then show ?case
    using clean_state_canon clean_state_workflow save_inv [of b w clean_state b' w']
    by (auto simp: boot_mgr_clear_state_def bm_inv_def)
next
  case (vol v b w b' w')
  then show ?case
    using set_one_mirrors [of b w "g_current_state b" NVS_KEY_VOLUME v]
    by (auto simp: bm_inv_def boot_mgr_set_volume_def bs_canon_def workflow_ok_def bm_open_def
        split: if_splits prod.splits)
next
  case (reboot w b' w' b)
  then show ?case
    using init_reads_back [OF reboot(1)] by (auto simp: bm_inv_def)
qed

end

section \<open>Properties\<close>

definition mem0 :: mem_nvs where
  "mem0 = \<lparr>mem_vals = (\<lambda>_. None), mem_open = (\<lambda>_. None), mem_next = 0, mem_faults = [],
           mem_inits = []\<rparr>"

text \<open>C10. A state that \<^verbatim>\<open>boot_mgr_save_state\<close> reports as saved is the state the next boot loads:
  after a reboot (\<^verbatim>\<open>boot_mgr_init\<close> on fresh statics) \<^verbatim>\<open>boot_mgr_load_state\<close> returns every field
  unchanged, strings included, and caches it.\<close>

theorem boot_state_roundtrip:
  assumes "nvs_store api ns val" and "bm_open ns b w" and "bs_canon st"
    and "boot_mgr_save_state api (Some st) b w = (ESP_OK, b1, w1)"
    and "boot_mgr_init api boot_mgr_zero w1 = (ESP_OK, b2, w2)"
  shows "boot_mgr_load_state api (Some st0) b2 w2 = (ESP_OK, Some st, b2) \<and> g_current_state b2 = st"
proof -
  have m: "nvs_mirrors val w1 st" using nvs_store.save_state_ok [OF assms(1,2,4)] by simp
  note reb = nvs_store.init_reads_back [OF assms(1,5) m assms(3)]
  have "boot_state_read api (g_nvs_handle b2) w2 = st"
    using nvs_store.read_mirrors [OF assms(1) reb(3) _ assms(3)] reb(2) by (simp add: bm_open_def)
  then show ?thesis
    using reb(1,2) by (auto simp: boot_mgr_load_state_def bm_open_def)
qed

text \<open>C9. In every state reached from a cleared store by calls that reported success and by
  reboots, NVS holds exactly the cached state, and a pending download request always has retry
  count 0 and no error: the retry limit of \<^verbatim>\<open>app_main\<close> can never be met through this boot
  manager.\<close>

theorem boot_protocol_invariant:
  assumes "nvs_store api ns val" and "bm_reach api (b, w)"
  shows "nvs_mirrors val w (g_current_state b) \<and> bs_canon (g_current_state b) \<and>
    (boot_mgr_needs_download b \<longrightarrow>
       retry_count (g_current_state b) = 0 \<and> last_error (g_current_state b) = DOWNLOAD_ERROR_NONE)"
proof -
  have "bm_inv ns val s" if "bm_reach api s" for s
    using that
  proof (induction rule: bm_reach.induct)
    case (start w0 b w b' w')
    then show ?case
      using nvs_store.save_inv [OF assms(1) nvs_store.init_ok(1) [OF assms(1) start(1)]]
        clean_state_canon clean_state_workflow
      by (simp add: boot_mgr_clear_state_def)
  next
    case (step s t)
    then show ?case using nvs_store.bm_step_inv [OF assms(1)] by blast
  qed
  from this [OF assms(2)] show ?thesis
    by (simp add: bm_inv_def workflow_ok_def boot_mgr_needs_download_def)
qed

text \<open>C29. Whatever \<^verbatim>\<open>boot_mgr_save_state\<close> returns, it writes no key but the nine of the boot
  protocol (in particular neither the boot counter nor another namespace); when it returns an
  error the cached state is kept, and when it returns \<^verbatim>\<open>ESP_OK\<close> every one of the nine or-ed
  results was \<^verbatim>\<open>ESP_OK\<close>: all nine keys hold the new state, which is also the cached one.\<close>

theorem save_state_outcome:
  assumes "nvs_store api ns val" and "bm_open ns b w"
    and "boot_mgr_save_state api (Some st) b w = (e, b1, w1)"
  shows "(n \<noteq> SIMIBOX_NVS_NAMESPACE \<or>
      k \<notin> {NVS_KEY_REASON, NVS_KEY_FOLDER, NVS_KEY_RETRY, NVS_KEY_ERROR, NVS_KEY_PROGRESS, NVS_KEY_SIZE,
        NVS_KEY_VOLUME, NVS_KEY_MAX_VOL, NVS_KEY_SSID} \<longrightarrow> val w1 n k = val w n k) \<and>
    (if e = ESP_OK then nvs_mirrors val w1 st \<and> g_current_state b1 = st else b1 = b)"
proof -
  have "val w1 n k = val w n k" if "n \<noteq> SIMIBOX_NVS_NAMESPACE \<or> k \<notin> fst ` set (boot_state_entries st)"
    using that by (rule nvs_store.save_state_other [OF assms])
  then have "val w1 n k = val w n k" if "n \<noteq> SIMIBOX_NVS_NAMESPACE \<or>
      k \<notin> {NVS_KEY_REASON, NVS_KEY_FOLDER, NVS_KEY_RETRY, NVS_KEY_ERROR, NVS_KEY_PROGRESS, NVS_KEY_SIZE,
        NVS_KEY_VOLUME, NVS_KEY_MAX_VOL, NVS_KEY_SSID}"
    using that by (auto simp: boot_state_entries_keys)
  moreover have "b1 = b" if "e \<noteq> ESP_OK"
    using that assms(3)
    by (auto simp: boot_mgr_save_state_def split: if_splits prod.splits)
  ultimately show ?thesis
    using nvs_store.save_state_ok [OF assms(1,2), of st b1 w1] assms(3) by auto
qed

text \<open>A download request that reported success is what the downloader finds after the
  reboot: the folder name (cut to the 63 bytes the array can hold), retry count and error
  reset, and \<^verbatim>\<open>boot_mgr_needs_download\<close> true exactly when the name is not empty.\<close>

theorem request_survives_reboot:
  assumes "nvs_store api ns val" and "bm_open ns b w" and "bs_canon (g_current_state b)"
    and "boot_mgr_request_download api (Some f) n b w = (ESP_OK, b1, w1)"
    and "boot_mgr_init api boot_mgr_zero w1 = (ESP_OK, b2, w2)"
  shows "cstr (folder (g_current_state b2)) = take 63 (cstr f)
    \<and> retry_count (g_current_state b2) = 0 \<and> last_error (g_current_state b2) = DOWNLOAD_ERROR_NONE
    \<and> download_size (g_current_state b2) = n
    \<and> boot_mgr_needs_download b2 = (cstr f \<noteq> [])"
proof -
  let ?st = "(g_current_state b)\<lparr>reason := BOOT_REASON_DOWNLOAD_REQUEST,
     folder := (strncpy (folder (g_current_state b)) f (64 - 1))[64 - 1 := NUL],
     retry_count := 0, last_error := DOWNLOAD_ERROR_NONE, download_size := n,
     download_progress := 0\<rparr>"
  have "boot_mgr_save_state api (Some ?st) b w = (ESP_OK, b1, w1)"
    using assms(4) by (simp add: boot_mgr_request_download_def Let_def)
  then have st: "g_current_state b2 = ?st"
    using nvs_store.save_state_ok(1) [OF assms(1,2)] request_state_canon [OF assms(3)]
      nvs_store.init_reads_back(1) [OF assms(1,5)] by blast
  have "length (folder (g_current_state b)) = 64"
    using assms(3) buf_canon_length by (auto simp: bs_canon_def)
  then have "cstr (folder ?st) = take 63 (cstr f)"
    by (simp add: request_folder_canon [simplified])
  then show ?thesis
    by (simp add: st boot_mgr_needs_download_def strlen_def)
qed

text \<open>A reported failure is what the next boot finds: reason \<^verbatim>\<open>DOWNLOAD_FAILED\<close>, the error
  code, the same folder, and the retry count one higher modulo 256; the downloader therefore
  does not start again by itself.\<close>

theorem failure_survives_reboot:
  assumes "nvs_store api ns val" and "bm_open ns b w" and "bs_canon (g_current_state b)"
    and "error < 256"
    and "boot_mgr_report_failure api error b w = (ESP_OK, b1, w1)"
    and "boot_mgr_init api boot_mgr_zero w1 = (ESP_OK, b2, w2)"
  shows "reason (g_current_state b2) = BOOT_REASON_DOWNLOAD_FAILED
    \<and> last_error (g_current_state b2) = error
    \<and> folder (g_current_state b2) = folder (g_current_state b)
    \<and> unat (retry_count (g_current_state b2)) = (unat (retry_count (g_current_state b)) + 1) mod 256
    \<and> \<not> boot_mgr_needs_download b2"
proof -
  let ?st = "(g_current_state b)\<lparr>reason := BOOT_REASON_DOWNLOAD_FAILED, last_error := error,
    retry_count := retry_count (g_current_state b) + 1\<rparr>"
  have "boot_mgr_save_state api (Some ?st) (b\<lparr>g_current_state := ?st\<rparr>) w = (ESP_OK, b1, w1)"
    using assms(5) by (simp add: boot_mgr_report_failure_def Let_def)
  moreover have "bm_open ns (b\<lparr>g_current_state := ?st\<rparr>) w" using assms(2) by (simp add: bm_open_def)
  moreover have "bs_canon ?st" using assms(3,4) by (simp add: bs_canon_def reason_defs)
  ultimately have st: "g_current_state b2 = ?st"
    using nvs_store.save_state_ok(1) [OF assms(1)] nvs_store.init_reads_back(1) [OF assms(1,6)] by blast
  then show ?thesis
    by (simp add: boot_mgr_needs_download_def reason_defs unat_word_ariths)
qed

subsection \<open>Witnesses\<close>

text \<open>The in-memory store without faults: every write and every \<^verbatim>\<open>boot_mgr_init\<close> succeeds.\<close>

definition mem_quiet :: "nat \<Rightarrow> mem_nvs \<Rightarrow> bool" where
  "mem_quiet n w \<longleftrightarrow> mem_faults w = [] \<and> mem_inits w = [] \<and> mem_next w = n \<and> (\<forall>h. n < unat h \<longrightarrow> mem_open w h = None)"

lemma mem_quiet_mem0: "mem_quiet 0 mem0"
  by (simp add: mem_quiet_def mem0_def)

lemma mem_set_quiet:
  "mem_quiet m w \<Longrightarrow> mem_open w h = Some n \<Longrightarrow>
     \<exists>w'. mem_set h k v w = (ESP_OK, w') \<and> mem_quiet m w' \<and> mem_open w' = mem_open w"
  by (simp add: mem_set_def mem_pop_fault_def mem_quiet_def)

lemma mem_or_sets_quiet:
  "mem_quiet m w \<Longrightarrow> mem_open w h = Some n \<Longrightarrow>
     \<exists>w'. nvs_or_sets mem_api h kvs ESP_OK w = (ESP_OK, w') \<and> mem_quiet m w' \<and> mem_open w' = mem_open w"
proof (induction kvs arbitrary: w)
  case Nil
  then show ?case by simp
next
  case (Cons kv kvs)
  obtain k v where "kv = (k, v)" by (cases kv)
  moreover obtain w1 where "mem_set h k v w = (ESP_OK, w1)" "mem_quiet m w1" "mem_open w1 = mem_open w"
    using mem_set_quiet [OF Cons.prems] by blast
  ultimately show ?case using Cons.IH [of w1] Cons.prems(2) by (simp add: mem_put)
qed

lemma mem_save_quiet:
  assumes "mem_quiet m w" and "bm_open mem_open b w"
  shows "\<exists>b' w'. boot_mgr_save_state mem_api (Some st) b w = (ESP_OK, b', w') \<and> mem_quiet m w'"
proof -
  from assms mem_or_sets_quiet obtain w1
    where "nvs_or_sets mem_api (g_nvs_handle b) (boot_state_entries st) ESP_OK w = (ESP_OK, w1)"
      and "mem_quiet m w1"
    unfolding bm_open_def by blast
  then show ?thesis
    using assms(2)
    by (simp add: boot_mgr_save_state_def bm_open_def mem_api_def mem_pop_fault_def mem_quiet_def)
qed

lemma mem_open_quiet:
  assumes "mem_quiet m w" and "Suc m < 2 ^ 32"
  shows "\<exists>h w'. nvs_open mem_api n md w = ((ESP_OK, h), w') \<and> mem_quiet (Suc m) w'"
proof -
  have u: "unat (of_nat (Suc m) :: nvs_handle) = Suc m" using assms(2)
    by (simp add: unsigned_of_nat take_bit_nat_eq_self del: of_nat_Suc)
  have "mem_open w (of_nat (Suc m)) = None" using assms(1) u by (simp add: mem_quiet_def)
  then have "nvs_open mem_api n md w =
      ((ESP_OK, of_nat (Suc m)), w\<lparr>mem_open := (mem_open w)(of_nat (Suc m) \<mapsto> n), mem_next := Suc m\<rparr>)"
    using assms by (simp add: mem_api_def mem_nvs_open_def mem_quiet_def Let_def)
  moreover have "mem_quiet (Suc m) (w\<lparr>mem_open := (mem_open w)(of_nat (Suc m) \<mapsto> n), mem_next := Suc m\<rparr>)"
    using assms(1) u by (auto simp: mem_quiet_def)
  ultimately show ?thesis by blast
qed

lemma mem_init_quiet:
  assumes "mem_quiet m w" and "Suc m < 2 ^ 32"
  shows "\<exists>b' w'. boot_mgr_init mem_api b w = (ESP_OK, b', w') \<and> mem_quiet (Suc m) w'"
  using mem_open_quiet [OF assms, of SIMIBOX_NVS_NAMESPACE NVS_READWRITE]
  by (auto simp: boot_mgr_init_def Let_def split: prod.splits)

lemma mem_boot:
  "\<exists>b w. boot_mgr_init mem_api boot_mgr_zero mem0 = (ESP_OK, b, w) \<and> mem_quiet 1 w \<and>
     bm_open mem_open b w"
  using mem_init_quiet [OF mem_quiet_mem0, of boot_mgr_zero] mem.init_ok(1) by auto

theorem boot_state_roundtrip_witness:
  "\<exists>b w b1 w1 b2 w2. boot_mgr_save_state mem_api (Some clean_state) b w = (ESP_OK, b1, w1) \<and>
     boot_mgr_init mem_api boot_mgr_zero w1 = (ESP_OK, b2, w2) \<and>
     boot_mgr_load_state mem_api (Some boot_state_zero) b2 w2 = (ESP_OK, Some clean_state, b2)"
proof -
  obtain b w where q: "mem_quiet 1 w" and o: "bm_open mem_open b w" using mem_boot by blast
  obtain b1 w1 where s: "boot_mgr_save_state mem_api (Some clean_state) b w = (ESP_OK, b1, w1)"
    and q1: "mem_quiet 1 w1" using mem_save_quiet [OF q o] by blast
  obtain b2 w2 where i: "boot_mgr_init mem_api boot_mgr_zero w1 = (ESP_OK, b2, w2)"
    using mem_init_quiet [OF q1, of boot_mgr_zero] by auto
  show ?thesis
    using s i boot_state_roundtrip [OF mem.nvs_store_axioms o clean_state_canon s i, of boot_state_zero]
    by blast
qed

theorem boot_protocol_invariant_witness:
  "\<exists>b w. bm_reach mem_api (b, w) \<and> nvs_mirrors (\<lambda>w n k. mem_vals w (n, k)) w (g_current_state b)"
proof -
  obtain b w where i: "boot_mgr_init mem_api boot_mgr_zero mem0 = (ESP_OK, b, w)"
    and q: "mem_quiet 1 w" and o: "bm_open mem_open b w" using mem_boot by blast
  obtain b1 w1 where s: "boot_mgr_clear_state mem_api b w = (ESP_OK, b1, w1)"
    using mem_save_quiet [OF q o] unfolding boot_mgr_clear_state_def by blast
  have "bm_reach mem_api (b1, w1)" by (rule bm_reach.start [OF i s])
  then show ?thesis using boot_protocol_invariant [OF mem.nvs_store_axioms] by blast
qed

theorem save_state_outcome_witness:
  "\<exists>b w e b1 w1. bm_open mem_open b w \<and>
     boot_mgr_save_state mem_api (Some clean_state) b w = (e, b1, w1) \<and>
     mem_vals w1 (''simibox'', ''k'') = mem_vals w (''simibox'', ''k'')"
proof -
  obtain b w where q: "mem_quiet 1 w" and o: "bm_open mem_open b w" using mem_boot by blast
  obtain b1 w1 where s: "boot_mgr_save_state mem_api (Some clean_state) b w = (ESP_OK, b1, w1)"
    using mem_save_quiet [OF q o] by blast
  have "''simibox'' \<noteq> SIMIBOX_NVS_NAMESPACE" by (simp add: SIMIBOX_NVS_NAMESPACE_def)
  then show ?thesis
    using o s save_state_outcome [OF mem.nvs_store_axioms o s, of "''simibox''" "''k''"] by blast
qed

theorem request_survives_reboot_witness:
  "\<exists>b w b1 w1 b2 w2. boot_mgr_request_download mem_api (Some ''mozart'') 7 b w = (ESP_OK, b1, w1) \<and>
     boot_mgr_init mem_api boot_mgr_zero w1 = (ESP_OK, b2, w2) \<and>
     cstr (folder (g_current_state b2)) = ''mozart'' \<and> boot_mgr_needs_download b2"
proof -
  obtain b0 w0 where q0: "mem_quiet 1 w0" and o0: "bm_open mem_open b0 w0" using mem_boot by blast
  obtain b w where s: "boot_mgr_save_state mem_api (Some clean_state) b0 w0 = (ESP_OK, b, w)"
    and q: "mem_quiet 1 w" using mem_save_quiet [OF q0 o0] by blast
  note ok = mem.save_state_ok [OF o0 s]
  obtain b1 w1 where r: "boot_mgr_request_download mem_api (Some ''mozart'') 7 b w = (ESP_OK, b1, w1)"
    and q1: "mem_quiet 1 w1"
    using mem_save_quiet [OF q ok(2)] unfolding boot_mgr_request_download_def Let_def by auto blast
  obtain b2 w2 where i: "boot_mgr_init mem_api boot_mgr_zero w1 = (ESP_OK, b2, w2)"
    using mem_init_quiet [OF q1, of boot_mgr_zero] by auto
  have c: "bs_canon (g_current_state b)" using ok(3) clean_state_canon by simp
  have "cstr ''mozart'' = ''mozart''" by (simp add: no_nul_def)
  with request_survives_reboot [OF mem.nvs_store_axioms ok(2) c r i]
  have "cstr (folder (g_current_state b2)) = ''mozart''" and "boot_mgr_needs_download b2" by simp_all
  with r i show ?thesis by blast
qed

theorem failure_survives_reboot_witness:
  "\<exists>b w b1 w1 b2 w2. boot_mgr_report_failure mem_api DOWNLOAD_ERROR_SD_CARD b w = (ESP_OK, b1, w1) \<and>
     boot_mgr_init mem_api boot_mgr_zero w1 = (ESP_OK, b2, w2) \<and>
     last_error (g_current_state b2) = DOWNLOAD_ERROR_SD_CARD \<and> \<not> boot_mgr_needs_download b2"
proof -
  obtain b0 w0 where q0: "mem_quiet 1 w0" and o0: "bm_open mem_open b0 w0" using mem_boot by blast
  obtain b w where s: "boot_mgr_save_state mem_api (Some clean_state) b0 w0 = (ESP_OK, b, w)"
    and q: "mem_quiet 1 w" using mem_save_quiet [OF q0 o0] by blast
  note ok = mem.save_state_ok [OF o0 s]
  have "bm_open mem_open (b\<lparr>g_current_state := st\<rparr>) w" for st using ok(2) by (simp add: bm_open_def)
  then obtain b1 w1 where r: "boot_mgr_report_failure mem_api DOWNLOAD_ERROR_SD_CARD b w = (ESP_OK, b1, w1)"
    and q1: "mem_quiet 1 w1"
    using mem_save_quiet [OF q] unfolding boot_mgr_report_failure_def Let_def by blast
  obtain b2 w2 where i: "boot_mgr_init mem_api boot_mgr_zero w1 = (ESP_OK, b2, w2)"
    using mem_init_quiet [OF q1, of boot_mgr_zero] by auto
  have c: "bs_canon (g_current_state b)" using ok(3) clean_state_canon by simp
  have e: "DOWNLOAD_ERROR_SD_CARD < 256" by (simp add: dl_error_defs)
  show ?thesis
    using r i failure_survives_reboot [OF mem.nvs_store_axioms ok(2) c e r i] by blast
qed

end
