(* ===== verification/WifiCreds.thy ===== *)
theory WifiCreds
  imports Nvs "HOL-Library.Multiset"
begin

text \<open>
  Wi-Fi credentials and connection: \<^verbatim>\<open>src/src/simibox_wifi_creds_idf.c\<close> and its header, and the
  stand-alone \<^verbatim>\<open>init_wifi\<close> of \<^verbatim>\<open>simibox_download.cpp\<close>. The Wi-Fi driver is a parameter: a record
  of its calls over the world \<open>'w\<close> (shared with NVS). What the driver does while a task waits is
  the list of events it delivers during the wait; the event handler runs on each of them.
  The handle and the buffers passed in are objects of the callers, so the null-pointer guards of
  the code have no counterpart.
\<close>

section \<open>Driver interface\<close>

record ap_record =
  ap_ssid :: "char list"
  ap_rssi :: int
  ap_primary :: u8

datatype wifi_event = STA_START | STA_CONNECTED | STA_DISCONNECTED u8 | GOT_IP

datatype wifi_setup_op =
    NETIF_INIT | EVENT_LOOP | CREATE_STA | WIFI_INIT | REGISTER_WIFI | REGISTER_IP | SET_MODE_STA
  | SET_PS_NONE | SET_BW_HT40 | SET_PROTOCOL_BGN | WIFI_START

record 'w wifi_api =
  wifi_setup :: "wifi_setup_op \<Rightarrow> 'w \<Rightarrow> esp_err \<times> 'w"
  esp_wifi_connect :: "'w \<Rightarrow> esp_err \<times> 'w"
  esp_wifi_disconnect :: "'w \<Rightarrow> esp_err \<times> 'w"
  esp_wifi_set_config :: "char list \<Rightarrow> char list \<Rightarrow> 'w \<Rightarrow> esp_err \<times> 'w"
  esp_wifi_scan_start :: "'w \<Rightarrow> esp_err \<times> 'w"
  esp_wifi_scan_get_ap_records :: "nat \<Rightarrow> 'w \<Rightarrow> (esp_err \<times> ap_record list) \<times> 'w"
  esp_wifi_sta_get_ap_info :: "'w \<Rightarrow> esp_err \<times> ap_record"
  wait_events :: "nat \<Rightarrow> 'w \<Rightarrow> wifi_event list \<times> 'w"

section \<open>State\<close>

definition WIFI_MAX_NETWORKS :: nat where "WIFI_MAX_NETWORKS = 5"
definition WIFI_SSID_MAX_LEN :: nat where "WIFI_SSID_MAX_LEN = 33"
definition WIFI_PASS_MAX_LEN :: nat where "WIFI_PASS_MAX_LEN = 65"
definition WIFI_SCAN_MAX_AP :: nat where "WIFI_SCAN_MAX_AP = 20"

lemmas wifi_consts = WIFI_MAX_NETWORKS_def WIFI_SSID_MAX_LEN_def WIFI_PASS_MAX_LEN_def
  WIFI_SCAN_MAX_AP_def

record wifi_network_t =
  net_ssid :: "char list"
  net_password :: "char list"
  net_rssi :: int

record wifi_creds_handle_t =
  networks :: "wifi_network_t list"
  net_count :: nat
  initialized :: bool

text \<open>The statics of the module: the two event bits, the two flags. \<open>tried\<close> records the
  networks \<^verbatim>\<open>wifi_creds_connect_best\<close> hands to the driver.\<close>

record 'w wifi_st =
  connected_bit :: bool
  disconnected_bit :: bool
  s_wifi_initialized :: bool
  s_is_connecting :: bool
  tried :: "wifi_network_t list"
  ww :: 'w

definition zero_network :: wifi_network_t where
  "zero_network = \<lparr>net_ssid = zero_buf WIFI_SSID_MAX_LEN, net_password = zero_buf WIFI_PASS_MAX_LEN,
     net_rssi = 0\<rparr>"

definition zero_handle :: wifi_creds_handle_t where
  "zero_handle = \<lparr>networks = replicate WIFI_MAX_NETWORKS zero_network, net_count = 0, initialized = False\<rparr>"

definition on_world :: "('w \<Rightarrow> 'a \<times> 'w) \<Rightarrow> 'w wifi_st \<Rightarrow> 'a \<times> 'w wifi_st" where
  "on_world f s = (case f (ww s) of (r, w') \<Rightarrow> (r, s\<lparr>ww := w'\<rparr>))"

section \<open>Events\<close>

fun wifi_event_handler :: "'w wifi_api \<Rightarrow> wifi_event \<Rightarrow> 'w wifi_st \<Rightarrow> 'w wifi_st" where
  "wifi_event_handler api STA_START s = s"
| "wifi_event_handler api STA_CONNECTED s = s"
| "wifi_event_handler api (STA_DISCONNECTED reason) s =
     (let s1 = s\<lparr>connected_bit := False, disconnected_bit := True\<rparr> in
      if s_is_connecting s1 then snd (on_world (esp_wifi_connect api) s1) else s1)"
| "wifi_event_handler api GOT_IP s =
     s\<lparr>connected_bit := True, disconnected_bit := False, s_is_connecting := False\<rparr>"

text \<open>The handler on a list of events; the flag tells whether \<^verbatim>\<open>CONNECTED_BIT\<close> was set after one
  of them, which is when a task waiting for it is released.\<close>

fun deliver :: "'w wifi_api \<Rightarrow> wifi_event list \<Rightarrow> 'w wifi_st \<Rightarrow> bool \<times> 'w wifi_st" where
  "deliver api [] s = (False, s)"
| "deliver api (e # es) s =
     (let s1 = wifi_event_handler api e s; (seen, s2) = deliver api es s1
      in (connected_bit s1 \<or> seen, s2))"

text \<open>\<^verbatim>\<open>xEventGroupWaitBits(..., CONNECTED_BIT, pdFALSE, pdFALSE, timeout)\<close>\<close>

definition wait_connected :: "'w wifi_api \<Rightarrow> nat \<Rightarrow> 'w wifi_st \<Rightarrow> bool \<times> 'w wifi_st" where
  "wait_connected api timeout_ms s =
     (if connected_bit s then (True, s)
      else (case on_world (wait_events api timeout_ms) s of (es, s1) \<Rightarrow> deliver api es s1))"

section \<open>Initialisation and waiting\<close>

text \<open>A sequence of calls under \<^verbatim>\<open>ESP_ERROR_CHECK\<close>: \<open>None\<close> when one of them aborts.\<close>

fun run_checked :: "'w wifi_api \<Rightarrow> wifi_setup_op list \<Rightarrow> 'w wifi_st \<Rightarrow> 'w wifi_st option" where
  "run_checked api [] s = Some s"
| "run_checked api (op # ops) s =
     (case on_world (wifi_setup api op) s of (e, s1) \<Rightarrow>
        if e \<noteq> ESP_OK \<and> op \<noteq> CREATE_STA then None else run_checked api ops s1)"

definition wifi_creds_init ::
  "'w nvs_api \<Rightarrow> 'w wifi_api \<Rightarrow> 'w wifi_st \<Rightarrow> (esp_err \<times> wifi_creds_handle_t \<times> 'w wifi_st) option" where
  "wifi_creds_init nvs api s =
     (let s1 = snd (on_world (nvs_flash_init nvs) s) in
      case run_checked api [NETIF_INIT, EVENT_LOOP, CREATE_STA, WIFI_INIT] s1 of
        None \<Rightarrow> None
      | Some s2 \<Rightarrow>
          (let s3 = s2\<lparr>connected_bit := False, disconnected_bit := False\<rparr> in
           case run_checked api [REGISTER_WIFI, REGISTER_IP, SET_MODE_STA, SET_PS_NONE, SET_BW_HT40,
                  SET_PROTOCOL_BGN, WIFI_START] s3 of
             None \<Rightarrow> None
           | Some s4 \<Rightarrow>
               Some (ESP_OK, zero_handle\<lparr>initialized := True\<rparr>, s4\<lparr>s_wifi_initialized := True\<rparr>)))"

definition wifi_creds_wait_for_connection ::
  "'w wifi_api \<Rightarrow> nat \<Rightarrow> 'w wifi_st \<Rightarrow> esp_err \<times> 'w wifi_st" where
  "wifi_creds_wait_for_connection api timeout_ms s =
     (if fst (esp_wifi_sta_get_ap_info api (ww s)) = ESP_OK then (ESP_OK, s)
      else
        (let s1 = snd (on_world (esp_wifi_connect api) (s\<lparr>s_is_connecting := True\<rparr>));
             (bits, s2) = wait_connected api timeout_ms s1;
             s3 = s2\<lparr>s_is_connecting := False\<rparr>
         in if bits then (ESP_OK, s3) else (ESP_ERR_TIMEOUT, s3)))"

section \<open>Saved networks\<close>

definition CREDS_NAMESPACE :: string where "CREDS_NAMESPACE = ''wifi_creds''"
definition NVS_KEY_COUNT :: string where "NVS_KEY_COUNT = ''count''"

text \<open>\<^verbatim>\<open>snprintf(key, sizeof(key), "%s%d", prefix, i)\<close> for a one-digit index.\<close>

definition cred_key :: "string \<Rightarrow> nat \<Rightarrow> string" where
  "cred_key prefix i = prefix @ [char_of (48 + i)]"

abbreviation ssid_key :: "nat \<Rightarrow> string" where "ssid_key \<equiv> cred_key ''ssid_''"
abbreviation pass_key :: "nat \<Rightarrow> string" where "pass_key \<equiv> cred_key ''pass_''"

text \<open>One iteration of the loading loop: an entry that cannot be read is skipped (after its
  SSID may have been copied into the slot), a complete one takes the slot.\<close>

definition load_one ::
  "'w nvs_api \<Rightarrow> nvs_handle \<Rightarrow> 'w \<Rightarrow> nat \<Rightarrow> wifi_creds_handle_t \<Rightarrow> wifi_creds_handle_t" where
  "load_one nvs h w i hn =
     (let c = net_count hn; slot = networks hn ! c in
      case nvs_get_str nvs h (ssid_key i) WIFI_SSID_MAX_LEN w of (e1, s1) \<Rightarrow>
        if e1 \<noteq> ESP_OK then hn
        else
          (let slot1 = slot\<lparr>net_ssid := put_cstr (net_ssid slot) s1\<rparr> in
           case nvs_get_str nvs h (pass_key i) WIFI_PASS_MAX_LEN w of (e2, s2) \<Rightarrow>
             if e2 \<noteq> ESP_OK then hn\<lparr>networks := (networks hn)[c := slot1]\<rparr>
             else hn\<lparr>networks := (networks hn)
                      [c := slot1\<lparr>net_password := put_cstr (net_password slot1) s2, net_rssi := - 100\<rparr>],
                     net_count := Suc c\<rparr>))"

definition wifi_creds_load ::
  "'w nvs_api \<Rightarrow> wifi_creds_handle_t \<Rightarrow> 'w wifi_st \<Rightarrow> esp_err \<times> wifi_creds_handle_t \<times> 'w wifi_st" where
  "wifi_creds_load nvs hn s =
     (if \<not> initialized hn then (ESP_ERR_INVALID_STATE, hn, s)
      else
        (case on_world (nvs_open nvs CREDS_NAMESPACE NVS_READONLY) s of ((e, h), s1) \<Rightarrow>
           if e \<noteq> ESP_OK then (ESP_OK, hn, s1)
           else
             (case nvs_get_u8 nvs h NVS_KEY_COUNT (ww s1) of (e1, cnt) \<Rightarrow>
                if e1 \<noteq> ESP_OK \<or> cnt = 0 then (ESP_OK, hn, s1\<lparr>ww := nvs_close nvs h (ww s1)\<rparr>)
                else (ESP_OK,
                  fold (load_one nvs h (ww s1)) [0..<min (unat cnt) WIFI_MAX_NETWORKS]
                    (hn\<lparr>net_count := 0\<rparr>),
                  s1\<lparr>ww := nvs_close nvs h (ww s1)\<rparr>))))"

section \<open>Scanning\<close>

definition set_rssi :: "int \<Rightarrow> wifi_network_t \<Rightarrow> wifi_network_t" where
  "set_rssi r n = n\<lparr>net_rssi := r\<rparr>"

text \<open>The matching loops: every access point against every saved network; the last match
  counts.\<close>

definition match_ap :: "nat \<Rightarrow> ap_record \<Rightarrow> wifi_network_t list \<Rightarrow> wifi_network_t list" where
  "match_ap cnt ap ns =
     fold (\<lambda>j ns. if strcmp_eq (ap_ssid ap) (net_ssid (ns ! j))
                  then ns[j := set_rssi (ap_rssi ap) (ns ! j)] else ns) [0..<cnt] ns"

text \<open>The bubble sort, strongest signal first.\<close>

definition swap_step :: "nat \<Rightarrow> wifi_network_t list \<Rightarrow> wifi_network_t list" where
  "swap_step j ns =
     (if net_rssi (ns ! j) < net_rssi (ns ! (j + 1)) then ns[j := ns ! (j + 1), j + 1 := ns ! j] else ns)"

definition sort_networks :: "nat \<Rightarrow> wifi_network_t list \<Rightarrow> wifi_network_t list" where
  "sort_networks cnt ns =
     fold (\<lambda>i ns. fold swap_step [0..<cnt - i - 1] ns) [0..<cnt - 1] ns"

definition wifi_creds_scan_and_match ::
  "'w wifi_api \<Rightarrow> wifi_creds_handle_t \<Rightarrow> 'w wifi_st \<Rightarrow> esp_err \<times> wifi_creds_handle_t \<times> 'w wifi_st" where
  "wifi_creds_scan_and_match api hn s =
     (if \<not> initialized hn then (ESP_ERR_INVALID_STATE, hn, s)
      else
        (let hn1 = hn\<lparr>networks := fold (\<lambda>i ns. ns[i := set_rssi (- 100) (ns ! i)]) [0..<net_count hn] (networks hn)\<rparr> in
         case on_world (esp_wifi_scan_start api) s of (e, s1) \<Rightarrow>
           if e \<noteq> ESP_OK then (e, hn1, s1)
           else
             (case on_world (esp_wifi_scan_get_ap_records api WIFI_SCAN_MAX_AP) s1 of ((e2, aps), s2) \<Rightarrow>
                if e2 \<noteq> ESP_OK then (e2, hn1, s2)
                else (ESP_OK,
                  hn1\<lparr>networks := sort_networks (net_count hn1) (fold (match_ap (net_count hn1)) aps (networks hn1))\<rparr>,
                  s2))))"

section \<open>Connecting\<close>

text \<open>The bodies of the two driver fields \<^verbatim>\<open>sta.ssid[32]\<close> and \<^verbatim>\<open>sta.password[64]\<close>.\<close>

definition sta_ssid :: "wifi_network_t \<Rightarrow> char list" where
  "sta_ssid n = strncpy (zero_buf 32) (net_ssid n) 32"

definition sta_password :: "wifi_network_t \<Rightarrow> char list" where
  "sta_password n = strncpy (zero_buf 64) (net_password n) 64"

text \<open>One iteration of the connection loop; the flag: connected.\<close>

definition try_network ::
  "'w wifi_api \<Rightarrow> nat \<Rightarrow> wifi_network_t \<Rightarrow> 'w wifi_st \<Rightarrow> bool \<times> 'w wifi_st" where
  "try_network api wait_ms n s =
     (if net_rssi n \<le> - 100 then (False, s)
      else
        (let s0 = s\<lparr>tried := tried s @ [n]\<rparr>;
             s1 = snd (on_world (esp_wifi_disconnect api) s0);
             (e, s2) = on_world (esp_wifi_set_config api (sta_ssid n) (sta_password n)) s1
         in if e \<noteq> ESP_OK then (False, s2)
            else
              (case on_world (esp_wifi_connect api) s2 of (e2, s3) \<Rightarrow>
                 if e2 \<noteq> ESP_OK then (False, s3)
                 else
                   (let s4 = snd (on_world (wifi_setup api SET_PS_NONE) s3);
                        s5 = snd (on_world (wifi_setup api SET_BW_HT40) s4);
                        s6 = s5\<lparr>connected_bit := False\<rparr>
                    in wait_connected api wait_ms s6))))"

fun try_networks ::
  "'w wifi_api \<Rightarrow> nat \<Rightarrow> wifi_network_t list \<Rightarrow> 'w wifi_st \<Rightarrow> bool \<times> 'w wifi_st" where
  "try_networks api wait_ms [] s = (False, s)"
| "try_networks api wait_ms (n # ns) s =
     (case try_network api wait_ms n s of (ok, s1) \<Rightarrow>
        if ok then (True, s1) else try_networks api wait_ms ns s1)"

text \<open>When no saved network was seen, the first one is made eligible.\<close>

definition blind_first :: "nat \<Rightarrow> wifi_network_t list \<Rightarrow> wifi_network_t list" where
  "blind_first cnt ns =
     (if \<not> (\<exists>n \<in> set (take cnt ns). net_rssi n > - 100) \<and> cnt > 0
      then ns[0 := set_rssi (- 99) (ns ! 0)] else ns)"

definition wifi_creds_connect_best ::
  "'w wifi_api \<Rightarrow> nat \<Rightarrow> wifi_creds_handle_t \<Rightarrow> 'w wifi_st \<Rightarrow> esp_err \<times> wifi_creds_handle_t \<times> 'w wifi_st" where
  "wifi_creds_connect_best api timeout_ms hn s =
     (if \<not> initialized hn then (ESP_ERR_INVALID_STATE, hn, s)
      else if net_count hn = 0 then (ESP_ERR_NOT_FOUND, hn, s)
      else
        (case wifi_creds_scan_and_match api hn s of (scan_ret, hn1, s1) \<Rightarrow>
           (let s2 = s1\<lparr>s_is_connecting := True\<rparr>;
                hn2 = hn1\<lparr>networks := blind_first (net_count hn1) (networks hn1)\<rparr>;
                (ok, s3) = try_networks api (timeout_ms div net_count hn2) (take (net_count hn2) (networks hn2)) s2;
                s4 = s3\<lparr>s_is_connecting := False\<rparr>
            in (if ok then ESP_OK else ESP_FAIL, hn2, s4))))"

definition wifi_creds_connect_auto ::
  "'w nvs_api \<Rightarrow> 'w wifi_api \<Rightarrow> nat \<Rightarrow> wifi_creds_handle_t \<Rightarrow> 'w wifi_st
     \<Rightarrow> esp_err \<times> wifi_creds_handle_t \<times> 'w wifi_st" where
  "wifi_creds_connect_auto nvs api timeout_ms hn s =
     (if \<not> initialized hn then (ESP_ERR_INVALID_STATE, hn, s)
      else
        (case wifi_creds_wait_for_connection api (timeout_ms div 2) s of (ret, s1) \<Rightarrow>
           if ret = ESP_OK then (ESP_OK, hn, s1)
           else
             (case wifi_creds_load nvs hn s1 of (ret2, hn2, s2) \<Rightarrow>
                if ret2 \<noteq> ESP_OK \<or> net_count hn2 = 0
                then (case wifi_creds_wait_for_connection api (timeout_ms div 2) s2 of (r, s3) \<Rightarrow> (r, hn2, s3))
                else wifi_creds_connect_best api (timeout_ms div 2) hn2 s2)))"

section \<open>Getters\<close>

definition wifi_creds_get_current_ssid ::
  "'w wifi_api \<Rightarrow> char list \<Rightarrow> nat \<Rightarrow> 'w \<Rightarrow> esp_err \<times> char list" where
  "wifi_creds_get_current_ssid api ssid max_len w =
     (if max_len = 0 then (ESP_ERR_INVALID_ARG, ssid)
      else
        (case esp_wifi_sta_get_ap_info api w of (ret, ap) \<Rightarrow>
           if ret = ESP_OK
           then (ret, (strncpy ssid (ap_ssid ap) (max_len - 1))[max_len - 1 := NUL])
           else (ret, ssid)))"

definition wifi_creds_get_connection_info ::
  "'w wifi_api \<Rightarrow> int \<Rightarrow> u8 \<Rightarrow> 'w \<Rightarrow> esp_err \<times> int \<times> u8" where
  "wifi_creds_get_connection_info api rssi channel w =
     (case esp_wifi_sta_get_ap_info api w of (ret, ap) \<Rightarrow>
        if ret = ESP_OK then (ret, ap_rssi ap, ap_primary ap) else (ret, rssi, channel))"

definition wifi_creds_is_connected :: "'w wifi_api \<Rightarrow> 'w \<Rightarrow> bool" where
  "wifi_creds_is_connected api w = (fst (esp_wifi_sta_get_ap_info api w) = ESP_OK)"

section \<open>The stand-alone connection of the downloader\<close>

text \<open>\<^verbatim>\<open>wifi_event_handler\<close> and \<^verbatim>\<open>init_wifi\<close> of \<^verbatim>\<open>simibox_download.cpp\<close>.\<close>

fun dl_wifi_event_handler :: "'w wifi_api \<Rightarrow> wifi_event \<Rightarrow> 'w wifi_st \<Rightarrow> 'w wifi_st" where
  "dl_wifi_event_handler api STA_START s = snd (on_world (esp_wifi_connect api) s)"
| "dl_wifi_event_handler api (STA_DISCONNECTED reason) s = snd (on_world (esp_wifi_connect api) s)"
| "dl_wifi_event_handler api GOT_IP s = s\<lparr>connected_bit := True\<rparr>"
| "dl_wifi_event_handler api STA_CONNECTED s = s"

datatype 'a init_wifi_result = WifiAbort | WifiRestart 'a | WifiUp 'a

definition init_wifi ::
  "'w nvs_api \<Rightarrow> 'w wifi_api \<Rightarrow> char list \<Rightarrow> char list \<Rightarrow> 'w wifi_st \<Rightarrow> 'w wifi_st init_wifi_result" where
  "init_wifi nvs api ssid pass s =
     (case on_world (nvs_flash_init nvs) s of (e, s1) \<Rightarrow>
        if e \<noteq> ESP_OK then WifiAbort
        else
          (case run_checked api [NETIF_INIT] s1 of None \<Rightarrow> WifiAbort | Some s2 \<Rightarrow>
            (case run_checked api [EVENT_LOOP, CREATE_STA, WIFI_INIT, REGISTER_WIFI, REGISTER_IP, SET_MODE_STA]
                    (s2\<lparr>connected_bit := False, disconnected_bit := False\<rparr>) of
               None \<Rightarrow> WifiAbort
             | Some s3 \<Rightarrow>
                 (case on_world (esp_wifi_set_config api (strncpy (zero_buf 32) ssid 31) (strncpy (zero_buf 64) pass 63)) s3 of
                    (e4, s4) \<Rightarrow>
                    if e4 \<noteq> ESP_OK then WifiAbort
                    else
                      (case run_checked api [WIFI_START, SET_PS_NONE, SET_BW_HT40, SET_PROTOCOL_BGN] s4 of
                         None \<Rightarrow> WifiAbort
                       | Some s5 \<Rightarrow>
                           (case on_world (wait_events api 15000) s5 of (es, s6) \<Rightarrow>
                              (let s7 = fold (dl_wifi_event_handler api) es s6 in
                               if connected_bit s7 then WifiUp s7 else WifiRestart s7)))))))"

section \<open>Events and waiting\<close>

lemma on_world_fields [simp]:
  "connected_bit (snd (on_world f s)) = connected_bit s"
  "disconnected_bit (snd (on_world f s)) = disconnected_bit s"
  "s_is_connecting (snd (on_world f s)) = s_is_connecting s" "tried (snd (on_world f s)) = tried s"
  by (simp_all add: on_world_def split: prod.splits)

lemma on_world_same:
  "on_world f s = (r, s') \<Longrightarrow> connected_bit s' = connected_bit s \<and> disconnected_bit s' = disconnected_bit s \<and>
     s_is_connecting s' = s_is_connecting s \<and> tried s' = tried s"
  using on_world_fields [of f s] by simp

definition bits_ok :: "'w wifi_st \<Rightarrow> bool" where
  "bits_ok s \<longleftrightarrow> \<not> (connected_bit s \<and> disconnected_bit s)"

lemma handler_tried: "tried (wifi_event_handler api e s) = tried s"
  by (cases e) (simp_all add: Let_def)

lemma handler_bits: "bits_ok s \<Longrightarrow> bits_ok (wifi_event_handler api e s)"
  by (cases e) (simp_all add: Let_def bits_ok_def)

lemma deliver_tried: "deliver api es s = (b, s') \<Longrightarrow> tried s' = tried s"
  by (induction es arbitrary: s b) (auto simp: Let_def handler_tried split: prod.splits)

lemma deliver_bits: "deliver api es s = (b, s') \<Longrightarrow> bits_ok s \<Longrightarrow> bits_ok s'"
  by (induction es arbitrary: s b) (auto simp: Let_def split: prod.splits dest: handler_bits)

lemma deliver_seen: "deliver api es s = (b, s') \<Longrightarrow> \<not> connected_bit s \<Longrightarrow> b \<longleftrightarrow> GOT_IP \<in> set es"
proof (induction es arbitrary: s b)
  case (Cons e es)
  obtain b1 where d: "deliver api es (wifi_event_handler api e s) = (b1, s')"
    using Cons.prems(1) by (auto simp: Let_def split: prod.splits)
  then have b: "b \<longleftrightarrow> connected_bit (wifi_event_handler api e s) \<or> b1"
    using Cons.prems(1) by (simp add: Let_def)
  show ?case
  proof (cases e)
    case GOT_IP
    then show ?thesis using b by simp
  next
    case (STA_DISCONNECTED r)
    then have "\<not> connected_bit (wifi_event_handler api e s)" by (simp add: Let_def)
    then show ?thesis using Cons.IH [OF d] b STA_DISCONNECTED by simp
  qed (use Cons.IH [OF d] b Cons.prems(2) in simp_all)
qed simp

lemma wait_connected_frame:
  assumes "wait_connected api t s = (b, s')"
  shows "tried s' = tried s" and "bits_ok s \<Longrightarrow> bits_ok s'"
proof -
  obtain es s1 where o: "on_world (wait_events api t) s = (es, s1)" by fastforce
  note same = on_world_same [OF o]
  show "tried s' = tried s"
    using assms same deliver_tried [of api es s1 b s'] by (auto simp: wait_connected_def o split: if_splits)
  show "bits_ok s'" if "bits_ok s"
    using that assms same deliver_bits [of api es s1 b s']
    by (auto simp: wait_connected_def o bits_ok_def split: if_splits)
qed

section \<open>Sorting and matching\<close>

fun bubble :: "wifi_network_t list \<Rightarrow> wifi_network_t list" where
  "bubble (x # y # zs) =
     (if net_rssi x < net_rssi y then y # bubble (x # zs) else x # bubble (y # zs))"
| "bubble xs = xs"

lemma length_bubble [simp]: "length (bubble xs) = length xs"
  by (induction xs rule: bubble.induct) auto

lemma mset_bubble [simp]: "mset (bubble xs) = mset xs"
  by (induction xs rule: bubble.induct) auto

lemma filter_bubble: "filter (\<lambda>x. net_rssi x = k) (bubble xs) = filter (\<lambda>x. net_rssi x = k) xs"
  by (induction xs rule: bubble.induct) auto

lemma last_bubble: "z \<in> set xs \<Longrightarrow> net_rssi (last (bubble xs)) \<le> net_rssi z"
proof (induction xs arbitrary: z rule: bubble.induct)
  case (1 x y zs)
  have ne: "bubble (a # zs) \<noteq> []" for a
    by (metis length_0_conv length_bubble list.distinct(1))
  show ?case
  proof (cases "net_rssi x < net_rssi y")
    case True
    then show ?thesis using 1(1) [OF True, of z] 1(1) [OF True, of x] 1(3) ne by fastforce
  next
    case False
    then show ?thesis using 1(2) [OF False, of z] 1(2) [OF False, of y] 1(3) ne by fastforce
  qed
qed auto

lemma swap_step_at:
  "swap_step (length p) (p @ x # y # q) =
     p @ (if net_rssi x < net_rssi y then y # x # q else x # y # q)"
  by (simp add: swap_step_def nth_append list_update_append)

lemma bubble_pass:
  "fold swap_step [length p..<length p + (length xs - 1)] (p @ xs @ ys) = p @ bubble xs @ ys"
proof (induction xs arbitrary: p rule: bubble.induct)
  case (1 x y zs)
  have up: "[length p..<length p + (length (x # y # zs) - 1)]
      = length p # [length (p @ [a])..<length (p @ [a]) + (length (b # zs) - 1)]" for a b :: wifi_network_t
    using upt_conv_Cons [of "length p" "length p + Suc (length zs)"] by simp
  show ?case
  proof (cases "net_rssi x < net_rssi y")
    case True
    then show ?thesis
      using 1(1) [OF True, of "p @ [y]"] swap_step_at [of p x y "zs @ ys"]
      unfolding up [of y x] by simp
  next
    case False
    then show ?thesis
      using 1(2) [OF False, of "p @ [x]"] swap_step_at [of p x y "zs @ ys"]
      unfolding up [of x y] by simp
  qed
qed auto

abbreviation weaker :: "wifi_network_t \<Rightarrow> int" where "weaker n \<equiv> - net_rssi n"

lemma sort_loop:
  assumes "length xs = n" and "k \<le> n - 1"
  shows "\<exists>p q. fold (\<lambda>i ns. fold swap_step [0..<n - i - 1] ns) [0..<k] (xs @ ys) = p @ q @ ys \<and>
    length q = k \<and> length p = n - k \<and> mset (p @ q) = mset xs \<and>
    (\<forall>v. filter (\<lambda>x. net_rssi x = v) (p @ q) = filter (\<lambda>x. net_rssi x = v) xs) \<and>
    sorted (map weaker q) \<and> (\<forall>a \<in> set p. \<forall>b \<in> set q. weaker a \<le> weaker b)"
  using assms(2)
proof (induction k)
  case 0
  show ?case using assms(1) by (intro exI [of _ xs] exI [of _ "[]"]) simp
next
  case (Suc k)
  then obtain p q where IH: "fold (\<lambda>i ns. fold swap_step [0..<n - i - 1] ns) [0..<k] (xs @ ys) = p @ q @ ys"
    "length q = k" "length p = n - k" "mset (p @ q) = mset xs"
    "\<forall>v. filter (\<lambda>x. net_rssi x = v) (p @ q) = filter (\<lambda>x. net_rssi x = v) xs"
    "sorted (map weaker q)" "\<forall>a \<in> set p. \<forall>b \<in> set q. weaker a \<le> weaker b" by auto
  have "length (bubble p) > 0" using IH(3) Suc.prems by simp
  then have ne: "bubble p \<noteq> []" by (rule length_greater_0_conv [THEN iffD1])
  define p' where "p' = butlast (bubble p)"
  define m where "m = last (bubble p)"
  have split: "bubble p = p' @ [m]" using ne by (simp add: p'_def m_def)
  have pass: "fold swap_step [0..<n - k - 1] (p @ q @ ys) = p' @ (m # q) @ ys"
    using bubble_pass [of "[]" p "q @ ys"] IH(3) split by simp
  have set: "set (p' @ [m]) = set p" using split mset_bubble by (metis mset_eq_setD)
  have min: "\<forall>a \<in> set p. weaker a \<le> weaker m" using last_bubble m_def by simp
  show ?case
  proof (rule exI [of _ p'], rule exI [of _ "m # q"], intro conjI)
    show "fold (\<lambda>i ns. fold swap_step [0..<n - i - 1] ns) [0..<Suc k] (xs @ ys) = p' @ (m # q) @ ys"
      using IH(1) pass by simp
    show "length (m # q) = Suc k" using IH(2) by simp
    show "length p' = n - Suc k" using IH(3) by (simp add: p'_def)
    have "mset p = mset (p' @ [m])" using split mset_bubble [of p] by metis
    then show "mset (p' @ m # q) = mset xs" using IH(4) by simp
    show "\<forall>v. filter (\<lambda>x. net_rssi x = v) (p' @ m # q) = filter (\<lambda>x. net_rssi x = v) xs"
      using IH(5) filter_bubble [of _ p] unfolding split
      by (metis (no_types, lifting) append.assoc append_Cons append_Nil filter_append)
    show "sorted (map weaker (m # q))" using IH(6,7) set by auto
    show "\<forall>a \<in> set p'. \<forall>b \<in> set (m # q). weaker a \<le> weaker b" using IH(7) min set by auto
  qed
qed

lemma sort_networks_sort_key:
  assumes "n \<le> length ns"
  shows "sort_networks n ns = sort_key weaker (take n ns) @ drop n ns"
proof -
  let ?xs = "take n ns"
  have l: "length ?xs = n" using assms by simp
  obtain p q where pq: "sort_networks n ns = p @ q @ drop n ns" "length p = n - (n - 1)"
    "mset (p @ q) = mset ?xs" "\<forall>v. filter (\<lambda>x. net_rssi x = v) (p @ q) = filter (\<lambda>x. net_rssi x = v) ?xs"
    "sorted (map weaker q)" "\<forall>a \<in> set p. \<forall>b \<in> set q. weaker a \<le> weaker b"
    using sort_loop [OF l le_refl, of "drop n ns"] unfolding sort_networks_def append_take_drop_id by blast
  have "length p \<le> 1" using pq(2) by simp
  then have "sorted (map weaker p)" by (cases p) auto
  then have "sorted (map weaker (p @ q))" using pq(5,6) by (auto simp: sorted_append)
  moreover have "filter (\<lambda>x. weaker k = weaker x) (p @ q) = filter (\<lambda>x. weaker k = weaker x) ?xs" for k
    using pq(4) [rule_format, of "net_rssi k"] by (simp add: eq_commute [of "net_rssi k"])
  ultimately have "sort_key weaker ?xs = p @ q" using pq(3) by (intro properties_for_sort_key)
  then show ?thesis using pq(1) by simp
qed

lemma fold_update_map:
  "c \<le> length ns \<Longrightarrow> fold (\<lambda>j ns. ns[j := f (ns ! j)]) [0..<c] ns = map f (take c ns) @ drop c ns"
proof (induction c)
  case (Suc c)
  then have "drop c ns = ns ! c # drop (Suc c) ns" by (simp add: Cons_nth_drop_Suc)
  then show ?case
    using Suc by (simp add: nth_append list_update_append take_Suc_conv_app_nth)
qed simp

text \<open>What a scan makes of a saved network: the signal of the last access point with its name,
  or -100.\<close>

definition scan_rssi :: "ap_record list \<Rightarrow> wifi_network_t \<Rightarrow> int" where
  "scan_rssi aps n =
     (case filter (\<lambda>ap. strcmp_eq (ap_ssid ap) (net_ssid n)) aps of
        [] \<Rightarrow> - 100
      | ms \<Rightarrow> ap_rssi (last ms))"

definition match_one :: "ap_record \<Rightarrow> wifi_network_t \<Rightarrow> wifi_network_t" where
  "match_one ap n = (if strcmp_eq (ap_ssid ap) (net_ssid n) then set_rssi (ap_rssi ap) n else n)"

lemma match_ap_map: "c \<le> length ns \<Longrightarrow> match_ap c ap ns = map (match_one ap) (take c ns) @ drop c ns"
proof -
  assume c: "c \<le> length ns"
  have "(\<lambda>j ns. if strcmp_eq (ap_ssid ap) (net_ssid (ns ! j)) then ns[j := set_rssi (ap_rssi ap) (ns ! j)] else ns)
      = (\<lambda>j ns. ns[j := match_one ap (ns ! j)])"
    by (intro ext) (simp add: match_one_def)
  then show ?thesis using fold_update_map [OF c] by (simp add: match_ap_def)
qed

lemma match_aps_map:
  "c \<le> length ns \<Longrightarrow> fold (match_ap c) aps ns = map (\<lambda>n. fold match_one aps n) (take c ns) @ drop c ns"
  by (induction aps arbitrary: ns) (simp_all add: match_ap_map)

lemma match_one_ssid [simp]: "net_ssid (match_one ap n) = net_ssid n"
  by (simp add: match_one_def set_rssi_def)

lemma fold_match_one:
  "fold match_one aps (set_rssi (- 100) n) = set_rssi (scan_rssi aps n) n"
proof (induction aps rule: rev_induct)
  case Nil
  show ?case by (simp add: scan_rssi_def)
next
  case (snoc ap aps)
  show ?case
  proof (cases "strcmp_eq (ap_ssid ap) (net_ssid n)")
    case True
    have "scan_rssi (aps @ [ap]) n = ap_rssi ap" using True by (auto simp: scan_rssi_def split: list.splits dest: arg_cong [where f = last])
    then show ?thesis using snoc True by (simp add: match_one_def set_rssi_def)
  next
    case False
    then have "scan_rssi (aps @ [ap]) n = scan_rssi aps n" by (simp add: scan_rssi_def)
    then show ?thesis using snoc False by (simp add: match_one_def set_rssi_def)
  qed
qed

lemma scan_and_match_ok:
  assumes "initialized hn" "net_count hn \<le> length (networks hn)"
    and "on_world (esp_wifi_scan_start api) s = (ESP_OK, s1)"
    and "on_world (esp_wifi_scan_get_ap_records api WIFI_SCAN_MAX_AP) s1 = ((ESP_OK, aps), s2)"
  shows "wifi_creds_scan_and_match api hn s = (ESP_OK, hn\<lparr>networks :=
     sort_key weaker (map (\<lambda>n. set_rssi (scan_rssi aps n) n) (take (net_count hn) (networks hn)))
       @ drop (net_count hn) (networks hn)\<rparr>, s2)"
proof -
  let ?c = "net_count hn" and ?ns = "networks hn"
  have r: "fold (\<lambda>i ns. ns[i := set_rssi (- 100) (ns ! i)]) [0..<?c] ?ns
      = map (set_rssi (- 100)) (take ?c ?ns) @ drop ?c ?ns"
    using fold_update_map [OF assms(2)] by simp
  have "fold (match_ap ?c) aps (map (set_rssi (- 100)) (take ?c ?ns) @ drop ?c ?ns)
      = map (\<lambda>n. set_rssi (scan_rssi aps n) n) (take ?c ?ns) @ drop ?c ?ns"
    using assms(2) by (subst match_aps_map) (simp_all add: fold_match_one)
  then show ?thesis
    using assms by (simp add: wifi_creds_scan_and_match_def Let_def r sort_networks_sort_key)
qed

section \<open>The connection loop\<close>

abbreviation eligible :: "wifi_network_t \<Rightarrow> bool" where "eligible n \<equiv> net_rssi n > - 100"

lemma try_network_tried:
  assumes "try_network api t n s = (ok, s')"
  shows "tried s' = (if eligible n then tried s @ [n] else tried s)"
    and "\<not> eligible n \<Longrightarrow> \<not> ok" and "bits_ok s \<Longrightarrow> bits_ok s'"
proof -
  obtain e1 s1 where 1: "on_world (esp_wifi_disconnect api) (s\<lparr>tried := tried s @ [n]\<rparr>) = (e1, s1)" by fastforce
  obtain e2 s2 where 2: "on_world (esp_wifi_set_config api (sta_ssid n) (sta_password n)) s1 = (e2, s2)" by fastforce
  obtain e3 s3 where 3: "on_world (esp_wifi_connect api) s2 = (e3, s3)" by fastforce
  obtain e4 s4 where 4: "on_world (wifi_setup api SET_PS_NONE) s3 = (e4, s4)" by fastforce
  obtain e5 s5 where 5: "on_world (wifi_setup api SET_BW_HT40) s4 = (e5, s5)" by fastforce
  note sm = on_world_same [OF 1] on_world_same [OF 2] on_world_same [OF 3] on_world_same [OF 4] on_world_same [OF 5]
  obtain b s6 where 6: "wait_connected api t (s5\<lparr>connected_bit := False\<rparr>) = (b, s6)" by fastforce
  note w = wait_connected_frame [OF 6]
  have r: "(ok, s') = (if \<not> eligible n then (False, s) else if e2 \<noteq> ESP_OK then (False, s2)
      else if e3 \<noteq> ESP_OK then (False, s3) else (b, s6))"
    using assms unfolding try_network_def Let_def by (auto simp: 1 2 3 4 5 6 split: if_splits)
  show "tried s' = (if eligible n then tried s @ [n] else tried s)"
    using r w(1) sm by (auto split: if_splits)
  show "\<not> eligible n \<Longrightarrow> \<not> ok" using r by auto
  show "bits_ok s'" if "bits_ok s"
    using r w(2) sm that by (auto simp: bits_ok_def split: if_splits)
qed

text \<open>The state after the networks \<open>ns\<close> were tried in turn, none of which connected.\<close>

fun failed_attempts :: "'w wifi_api \<Rightarrow> nat \<Rightarrow> wifi_network_t list \<Rightarrow> 'w wifi_st \<Rightarrow> 'w wifi_st option" where
  "failed_attempts api t [] s = Some s"
| "failed_attempts api t (n # ns) s =
     (case try_network api t n s of (ok, s1) \<Rightarrow> if ok then None else failed_attempts api t ns s1)"

text \<open>A network connects when the driver reports an address during the wait.\<close>

lemma try_network_address:
  assumes "try_network api t n s = (True, s')"
  shows "\<exists>w. GOT_IP \<in> set (fst (wait_events api t w))"
proof -
  obtain u where u: "wait_connected api t u = (True, s')" "\<not> connected_bit u"
    using assms by (auto simp: try_network_def Let_def split: prod.splits if_splits)
  obtain es u1 where o: "on_world (wait_events api t) u = (es, u1)" by fastforce
  have "deliver api es u1 = (True, s')" using u o by (simp add: wait_connected_def)
  then have "GOT_IP \<in> set es" using deliver_seen on_world_same [OF o] u(2) by blast
  moreover have "es = fst (wait_events api t (ww u))" using o by (auto simp: on_world_def split: prod.splits)
  ultimately show ?thesis by blast
qed

lemma try_networks_tried:
  assumes "try_networks api t ns s = (ok, s')"
  shows "\<exists>p q. filter eligible ns = p @ q \<and> tried s' = tried s @ p \<and> (bits_ok s \<longrightarrow> bits_ok s') \<and>
     (if ok then \<exists>p0 n s1. p = p0 @ [n] \<and> failed_attempts api t p0 s = Some s1 \<and> try_network api t n s1 = (True, s')
      else q = [] \<and> failed_attempts api t p s = Some s')"
  using assms
proof (induction ns arbitrary: s)
  case (Cons n ns)
  obtain b s1 where 1: "try_network api t n s = (b, s1)" by fastforce
  note t = try_network_tried [OF 1]
  show ?case
  proof (cases b)
    case True
    then have "eligible n" "s' = s1" "ok" using t(2) Cons.prems 1 by auto
    then show ?thesis using t 1 True by (intro exI [of _ "[n]"] exI [of _ "filter eligible ns"]) simp
  next
    case False
    then have "try_networks api t ns s1 = (ok, s')" using Cons.prems 1 by simp
    from Cons.IH [OF this] obtain p q where pq: "filter eligible ns = p @ q" "tried s' = tried s1 @ p"
      "bits_ok s1 \<longrightarrow> bits_ok s'"
      "if ok then \<exists>p0 m s2. p = p0 @ [m] \<and> failed_attempts api t p0 s1 = Some s2 \<and> try_network api t m s2 = (True, s')
       else q = [] \<and> failed_attempts api t p s1 = Some s'" by blast
    have same: "\<not> eligible n \<Longrightarrow> s1 = s" using 1 by (simp add: try_network_def)
    let ?p = "if eligible n then n # p else p"
    have step: "failed_attempts api t (if eligible n then n # r else r) s = failed_attempts api t r s1" for r
      using 1 False same by simp
    have "if ok then \<exists>p0 m s2. ?p = p0 @ [m] \<and> failed_attempts api t p0 s = Some s2 \<and> try_network api t m s2 = (True, s')
       else q = [] \<and> failed_attempts api t ?p s = Some s'"
    proof (cases ok)
      case True
      then obtain p0 m s2 where "p = p0 @ [m]" "failed_attempts api t p0 s1 = Some s2" "try_network api t m s2 = (True, s')"
        using pq(4) by auto
      moreover from this have "?p = (if eligible n then n # p0 else p0) @ [m]" by simp
      ultimately show ?thesis using True step [of p0] by metis
    next
      case False
      then show ?thesis using pq(4) step [of p] by simp
    qed
    moreover have "filter eligible (n # ns) = ?p @ q" "tried s' = tried s @ ?p" "bits_ok s \<longrightarrow> bits_ok s'"
      using pq(1-3) t by simp_all
    ultimately show ?thesis by blast
  qed
qed simp

lemma blind_first_some:
  assumes "0 < c" "c \<le> length ns"
  shows "\<exists>n \<in> set (take c (blind_first c ns)). eligible n"
proof (cases "\<exists>n \<in> set (take c ns). eligible n")
  case False
  then have b: "blind_first c ns = ns[0 := set_rssi (- 99) (ns ! 0)]" using assms by (simp add: blind_first_def)
  have "take c (blind_first c ns) ! 0 = set_rssi (- 99) (ns ! 0)" using assms b by (cases ns) simp_all
  moreover have "0 < length (take c (blind_first c ns))" using assms b by simp
  ultimately have "set_rssi (- 99) (ns ! 0) \<in> set (take c (blind_first c ns))" by (metis nth_mem)
  then show ?thesis by (rule bexI [rotated]) (simp add: set_rssi_def)
qed (auto simp: blind_first_def)

lemma length_blind_first [simp]: "length (blind_first c ns) = length ns"
  by (simp add: blind_first_def)

lemma sorted_blind_first:
  assumes "c \<le> length ns" "sorted (map weaker (take c ns))"
  shows "sorted (map weaker (take c (blind_first c ns)))"
proof (cases "\<exists>n \<in> set (take c ns). eligible n")
  case False
  show ?thesis
  proof (cases "take c ns")
    case Nil
    then show ?thesis by (auto simp: blind_first_def)
  next
    case (Cons n ms)
    then have c: "0 < c" and n: "ns ! 0 = n" by (cases c; cases ns; auto)+
    have "take c (blind_first c ns) = set_rssi (- 99) n # ms"
      using False c n Cons by (simp add: blind_first_def take_update_swap)
    then show ?thesis using assms(2) Cons False by (auto simp: set_rssi_def)
  qed
qed (use assms in \<open>auto simp: blind_first_def\<close>)

lemma scan_and_match_frame:
  assumes "wifi_creds_scan_and_match api hn s = (e, hn', s')" "initialized hn" "net_count hn \<le> length (networks hn)"
  shows "length (networks hn') = length (networks hn)" "net_count hn' = net_count hn"
    "initialized hn'" "tried s' = tried s" "bits_ok s \<Longrightarrow> bits_ok s'"
    "sorted (map weaker (take (net_count hn') (networks hn')))"
proof -
  let ?c = "net_count hn" and ?ns = "networks hn"
  let ?ns1 = "map (set_rssi (- 100)) (take ?c ?ns) @ drop ?c ?ns"
  have r: "fold (\<lambda>i ns. ns[i := set_rssi (- 100) (ns ! i)]) [0..<?c] ?ns = ?ns1"
    using fold_update_map [OF assms(3)] by simp
  obtain e1 s1 where 1: "on_world (esp_wifi_scan_start api) s = (e1, s1)" by fastforce
  obtain e2 aps s2 where 2: "on_world (esp_wifi_scan_get_ap_records api WIFI_SCAN_MAX_AP) s1 = ((e2, aps), s2)"
    by (metis prod.exhaust)
  note sm = on_world_same [OF 1] on_world_same [OF 2]
  have flat: "sorted (map weaker (map (set_rssi (- 100)) xs))" for xs
    by (induction xs) (auto simp: set_rssi_def)
  consider (fail) "e1 \<noteq> ESP_OK \<or> e2 \<noteq> ESP_OK" | (ok) "e1 = ESP_OK" "e2 = ESP_OK" by blast
  then have "length (networks hn') = length (networks hn) \<and> net_count hn' = net_count hn \<and>
    initialized hn' \<and> tried s' = tried s \<and> (bits_ok s \<longrightarrow> bits_ok s') \<and>
    sorted (map weaker (take (net_count hn') (networks hn')))"
  proof cases
    case fail
    then have "hn' = hn\<lparr>networks := ?ns1\<rparr> \<and> (s' = s1 \<or> s' = s2)"
      using assms(1,2) by (auto simp: wifi_creds_scan_and_match_def Let_def 1 2 r split: if_splits)
    then show ?thesis using assms(2,3) sm flat by (auto simp: bits_ok_def)
  next
    case ok
    then have "wifi_creds_scan_and_match api hn s = (ESP_OK, hn\<lparr>networks :=
       sort_key weaker (map (\<lambda>n. set_rssi (scan_rssi aps n) n) (take ?c ?ns)) @ drop ?c ?ns\<rparr>, s2)"
      using scan_and_match_ok [OF assms(2,3)] 1 2 by simp
    then show ?thesis using assms sm by (auto simp: bits_ok_def)
  qed
  then show "length (networks hn') = length (networks hn)" "net_count hn' = net_count hn"
    "initialized hn'" "tried s' = tried s" "bits_ok s \<Longrightarrow> bits_ok s'"
    "sorted (map weaker (take (net_count hn') (networks hn')))" by auto
qed

section \<open>Loading\<close>

definition handle_ok :: "wifi_creds_handle_t \<Rightarrow> bool" where
  "handle_ok hn \<longleftrightarrow> length (networks hn) = WIFI_MAX_NETWORKS \<and> net_count hn \<le> WIFI_MAX_NETWORKS \<and>
     (\<forall>n \<in> set (networks hn). length (net_ssid n) = WIFI_SSID_MAX_LEN \<and> length (net_password n) = WIFI_PASS_MAX_LEN)"

definition creds :: "wifi_network_t \<Rightarrow> string \<times> string" where
  "creds n = (cstr (net_ssid n), cstr (net_password n))"

text \<open>The saved entry \<open>i\<close> of a namespace, when both strings are there and fit their buffers.\<close>

fun saved_cred :: "(string \<Rightarrow> nvs_value option) \<Rightarrow> nat \<Rightarrow> (string \<times> string) option" where
  "saved_cred v i =
     (case (v (ssid_key i), v (pass_key i)) of
        (Some (NvsStr s), Some (NvsStr p)) \<Rightarrow>
          if no_nul s \<and> no_nul p \<and> length s < WIFI_SSID_MAX_LEN \<and> length p < WIFI_PASS_MAX_LEN
          then Some (s, p) else None
      | _ \<Rightarrow> None)"

declare saved_cred.simps [simp del]

definition loaded :: "wifi_creds_handle_t \<Rightarrow> (string \<times> string) list" where
  "loaded hn = map creds (take (net_count hn) (networks hn))"

lemma load_store_slot:
  assumes "handle_ok hn" "net_count hn < WIFI_MAX_NETWORKS" "length s = WIFI_SSID_MAX_LEN" "length p = WIFI_PASS_MAX_LEN"
  shows "handle_ok (hn\<lparr>networks := (networks hn)[net_count hn := \<lparr>net_ssid = s, net_password = p, net_rssi = r\<rparr>]\<rparr>)"
    "handle_ok (hn\<lparr>networks := (networks hn)[net_count hn := \<lparr>net_ssid = s, net_password = p, net_rssi = r\<rparr>],
       net_count := Suc (net_count hn)\<rparr>)"
    "loaded (hn\<lparr>networks := (networks hn)[net_count hn := \<lparr>net_ssid = s, net_password = p, net_rssi = r\<rparr>]\<rparr>) = loaded hn"
    "loaded (hn\<lparr>networks := (networks hn)[net_count hn := \<lparr>net_ssid = s, net_password = p, net_rssi = r\<rparr>],
       net_count := Suc (net_count hn)\<rparr>) = loaded hn @ [(cstr s, cstr p)]"
  using assms
  by (auto simp: handle_ok_def loaded_def creds_def take_Suc_conv_app_nth dest!: set_update_subset_insert [THEN subsetD])

context nvs_store
begin

lemma load_one_step:
  assumes ns: "ns w h = Some n" and ok: "handle_ok hn" and lt: "net_count hn < WIFI_MAX_NETWORKS"
  shows "handle_ok (load_one api h w i hn) \<and> net_count (load_one api h w i hn) \<le> Suc (net_count hn) \<and>
    initialized (load_one api h w i hn) = initialized hn \<and>
    loaded (load_one api h w i hn) = loaded hn @ (case saved_cred (val w n) i of None \<Rightarrow> [] | Some c \<Rightarrow> [c])"
proof -
  let ?c = "net_count hn"
  obtain s0 p0 r0 where slot: "networks hn ! ?c = \<lparr>net_ssid = s0, net_password = p0, net_rssi = r0\<rparr>"
    by (cases "networks hn ! ?c") auto
  have "networks hn ! ?c \<in> set (networks hn)" using ok lt by (simp add: handle_ok_def)
  then have l0: "length s0 = WIFI_SSID_MAX_LEN" "length p0 = WIFI_PASS_MAX_LEN"
    using ok slot by (auto simp: handle_ok_def)
  obtain e1 s1 where 1: "nvs_get_str api h (ssid_key i) WIFI_SSID_MAX_LEN w = (e1, s1)" by fastforce
  obtain e2 s2 where 2: "nvs_get_str api h (pass_key i) WIFI_PASS_MAX_LEN w = (e2, s2)" by fastforce
  show ?thesis
  proof (cases "e1 = ESP_OK")
    case False
    have "saved_cred (val w n) i = None"
      using False 1 get_str_complete [OF ns]
      by (auto simp: saved_cred.simps split: option.splits nvs_value.splits)
    then show ?thesis using False 1 ok by (simp add: load_one_def Let_def)
  next
    case True
    then have v1: "val w n (ssid_key i) = Some (NvsStr s1)" "length s1 < WIFI_SSID_MAX_LEN" "no_nul s1"
      using get_str_ok [OF ns] 1 by blast+
    have l1: "length (put_cstr s0 s1) = WIFI_SSID_MAX_LEN" using v1(2) l0(1) by simp
    show ?thesis
    proof (cases "e2 = ESP_OK")
      case False
      have "saved_cred (val w n) i = None"
        using False 2 get_str_complete [OF ns]
        by (auto simp: saved_cred.simps split: option.splits nvs_value.splits)
      moreover have "load_one api h w i hn = hn\<lparr>networks := (networks hn)
          [?c := \<lparr>net_ssid = put_cstr s0 s1, net_password = p0, net_rssi = r0\<rparr>]\<rparr>"
        using True False 1 2 slot by (simp add: load_one_def Let_def)
      ultimately show ?thesis using load_store_slot [OF ok lt l1 l0(2)] by simp
    next
      case e2: True
      then have v2: "val w n (pass_key i) = Some (NvsStr s2)" "length s2 < WIFI_PASS_MAX_LEN" "no_nul s2"
        using get_str_ok [OF ns] 2 by blast+
      have l2: "length (put_cstr p0 s2) = WIFI_PASS_MAX_LEN" using v2(2) l0(2) by simp
      have "saved_cred (val w n) i = Some (s1, s2)" using v1 v2 by (simp add: saved_cred.simps)
      moreover have "load_one api h w i hn = hn\<lparr>networks := (networks hn)
          [?c := \<lparr>net_ssid = put_cstr s0 s1, net_password = put_cstr p0 s2, net_rssi = - 100\<rparr>], net_count := Suc ?c\<rparr>"
        using True e2 1 2 slot by (simp add: load_one_def Let_def)
      ultimately show ?thesis using load_store_slot [OF ok lt l1 l2] v1(3) v2(3) by simp
    qed
  qed
qed

lemma load_loop:
  assumes "ns w h = Some n" "handle_ok hn" "net_count hn = 0" "k \<le> WIFI_MAX_NETWORKS"
  shows "handle_ok (fold (load_one api h w) [0..<k] hn) \<and> net_count (fold (load_one api h w) [0..<k] hn) \<le> k \<and>
    initialized (fold (load_one api h w) [0..<k] hn) = initialized hn \<and>
    loaded (fold (load_one api h w) [0..<k] hn) = List.map_filter (saved_cred (val w n)) [0..<k]"
  using assms(4)
proof (induction k)
  case 0
  then show ?case using assms(2,3) by (simp add: loaded_def List.map_filter_def)
next
  case (Suc k)
  let ?h = "fold (load_one api h w) [0..<k] hn"
  have IH: "handle_ok ?h" "net_count ?h \<le> k" "initialized ?h = initialized hn"
    "loaded ?h = List.map_filter (saved_cred (val w n)) [0..<k]" using Suc by auto
  have "net_count ?h < WIFI_MAX_NETWORKS" using IH(2) Suc.prems by simp
  from load_one_step [OF assms(1) IH(1) this, of k] IH show ?case
    by (auto simp: List.map_filter_def split: option.splits)
qed

end

section \<open>Properties\<close>

lemma cstr_sta_ssid: "strlen (net_ssid n) \<le> 32 \<Longrightarrow> cstr (sta_ssid n) = cstr (net_ssid n)"
  by (simp add: sta_ssid_def strncpy_def strlen_def zero_buf_def)

lemma cstr_sta_password: "strlen (net_password n) \<le> 64 \<Longrightarrow> cstr (sta_password n) = cstr (net_password n)"
  by (simp add: sta_password_def strncpy_def strlen_def zero_buf_def)

lemma saved_cred_len: "saved_cred v i = Some c \<Longrightarrow> length (fst c) \<le> 32 \<and> length (snd c) \<le> 64"
  by (auto simp: saved_cred.simps wifi_consts split: option.splits nvs_value.splits if_splits)

lemma map_filter_saved:
  assumes "c \<in> set (List.map_filter (saved_cred v) is)"
  shows "length (fst c) \<le> 32 \<and> length (snd c) \<le> 64"
proof -
  obtain i where "saved_cred v i = Some c" using assms by (auto simp: List.map_filter_def)
  then show ?thesis by (rule saved_cred_len)
qed

text \<open>C33. Loading the saved networks returns, in their order, exactly the entries of the
  namespace \<^verbatim>\<open>wifi_creds\<close> among the first \<^verbatim>\<open>count\<close> (at most five) whose SSID and password are
  both stored and fit their buffers; the buffers stay within their arrays; and each loaded
  network's SSID and password reach the driver's fixed-size fields uncut, an SSID of the maximal
  32 bytes included.\<close>

theorem load_saved_networks:
  assumes "nvs_store nvs ns val" and "initialized hn" and "handle_ok hn"
    and "on_world (nvs_open nvs CREDS_NAMESPACE NVS_READONLY) s = ((ESP_OK, h), s1)"
    and "nvs_get_u8 nvs h NVS_KEY_COUNT (ww s1) = (ESP_OK, cnt)" and "cnt \<noteq> 0"
    and "wifi_creds_load nvs hn s = (ret, hn', s')"
  shows "ret = ESP_OK \<and> handle_ok hn' \<and>
    loaded hn' = List.map_filter (saved_cred (val (ww s1) CREDS_NAMESPACE)) [0..<min (unat cnt) WIFI_MAX_NETWORKS] \<and>
    map (\<lambda>n. (cstr (sta_ssid n), cstr (sta_password n))) (take (net_count hn') (networks hn')) = loaded hn'"
proof -
  have o: "nvs_open nvs CREDS_NAMESPACE NVS_READONLY (ww s) = ((ESP_OK, h), ww s1)"
    using assms(4) by (auto simp: on_world_def split: prod.splits)
  have ns: "ns (ww s1) h = Some CREDS_NAMESPACE" using nvs_store.open_handle [OF assms(1) o] by simp
  have ok: "handle_ok (hn\<lparr>net_count := 0\<rparr>)" using assms(3) by (simp add: handle_ok_def)
  have r: "ret = ESP_OK" "hn' = fold (load_one nvs h (ww s1)) [0..<min (unat cnt) WIFI_MAX_NETWORKS] (hn\<lparr>net_count := 0\<rparr>)"
    using assms(2,4-7) by (simp_all add: wifi_creds_load_def)
  note l = nvs_store.load_loop [OF assms(1) ns ok, of "min (unat cnt) WIFI_MAX_NETWORKS", simplified, folded r(2)]
  have "(cstr (sta_ssid n), cstr (sta_password n)) = creds n" if "n \<in> set (take (net_count hn') (networks hn'))" for n
  proof -
    have "creds n \<in> set (loaded hn')" using that by (auto simp: loaded_def)
    then have "length (fst (creds n)) \<le> 32 \<and> length (snd (creds n)) \<le> 64"
      using l map_filter_saved by metis
    then show ?thesis by (simp add: creds_def cstr_sta_ssid cstr_sta_password strlen_def)
  qed
  then have "map (\<lambda>n. (cstr (sta_ssid n), cstr (sta_password n))) (take (net_count hn') (networks hn')) = loaded hn'"
    unfolding loaded_def by (intro map_cong) simp_all
  then show ?thesis using r(1) l by simp
qed

text \<open>C16. A successful scan gives every saved network the signal of the last access point that
  carries its name (or -100) and orders the networks exactly as the stable sort by descending
  signal does; no credential is lost or duplicated, and the slots beyond \<^verbatim>\<open>count\<close> keep their
  contents.\<close>

theorem scan_sorts_networks:
  assumes "initialized hn" and "net_count hn \<le> length (networks hn)"
    and "on_world (esp_wifi_scan_start api) s = (ESP_OK, s1)"
    and "on_world (esp_wifi_scan_get_ap_records api WIFI_SCAN_MAX_AP) s1 = ((ESP_OK, aps), s2)"
    and "wifi_creds_scan_and_match api hn s = (ret, hn', s')"
  shows "ret = ESP_OK \<and> net_count hn' = net_count hn \<and>
    take (net_count hn) (networks hn') = sort_key (\<lambda>n. - net_rssi n)
      (map (\<lambda>n. n\<lparr>net_rssi := scan_rssi aps n\<rparr>) (take (net_count hn) (networks hn))) \<and>
    drop (net_count hn) (networks hn') = drop (net_count hn) (networks hn) \<and>
    mset (loaded hn') = mset (loaded hn)"
proof -
  have h: "hn' = hn\<lparr>networks :=
     sort_key weaker (map (\<lambda>n. set_rssi (scan_rssi aps n) n) (take (net_count hn) (networks hn)))
       @ drop (net_count hn) (networks hn)\<rparr>" and ret: "ret = ESP_OK"
    using scan_and_match_ok [OF assms(1-4)] assms(5) by simp_all
  have "creds (set_rssi r n) = creds n" for r n by (simp add: creds_def set_rssi_def)
  then have "mset (loaded hn') = mset (loaded hn)"
    unfolding h loaded_def using assms(2) by (simp add: mset_map image_mset.compositionality o_def)
  then show ?thesis using h ret assms(2) by (simp add: set_rssi_def)
qed

text \<open>C34. After its scan \<^verbatim>\<open>wifi_creds_connect_best\<close> hands networks to the driver strongest first, each
  eligible one at most once, and stops at the first that gets an address: when it succeeds, the
  driver reported an address, the last network it tried connected, every one before it failed, and
  nothing was done after that. It makes at least one attempt (the first saved network, blindly, when the scan saw none), fails only after
  all eligible networks failed, and leaves the reconnection flag down whatever the outcome.\<close>

theorem connect_best_order:
  assumes "initialized hn" and "0 < net_count hn" and "net_count hn \<le> length (networks hn)"
    and "wifi_creds_scan_and_match api hn s = (e, hn1, s1)"
    and "wifi_creds_connect_best api timeout_ms hn s = (ret, hn', s')"
  shows "\<exists>p q s2. filter eligible (take (net_count hn) (networks hn')) = p @ q \<and>
    tried s' = tried s @ p \<and> p \<noteq> [] \<and> sorted (map (\<lambda>n. - net_rssi n) p) \<and>
    s' = s2\<lparr>s_is_connecting := False\<rparr> \<and>
    (if ret = ESP_OK
     then (\<exists>w. GOT_IP \<in> set (fst (wait_events api (timeout_ms div net_count hn) w))) \<and> (\<exists>p0 n sa. p = p0 @ [n] \<and>
       failed_attempts api (timeout_ms div net_count hn) p0 (s1\<lparr>s_is_connecting := True\<rparr>) = Some sa \<and>
       try_network api (timeout_ms div net_count hn) n sa = (True, s2))
     else ret = ESP_FAIL \<and> q = [] \<and>
       failed_attempts api (timeout_ms div net_count hn) p (s1\<lparr>s_is_connecting := True\<rparr>) = Some s2)"
proof -
  note 1 = assms(4)
  note f = scan_and_match_frame [OF 1 assms(1,3)]
  define ns where "ns = blind_first (net_count hn1) (networks hn1)"
  let ?l = "take (net_count hn) ns"
  obtain ok s3 where 3: "try_networks api (timeout_ms div net_count hn) ?l (s1\<lparr>s_is_connecting := True\<rparr>) = (ok, s3)"
    by fastforce
  have r: "ret = (if ok then ESP_OK else ESP_FAIL)" "networks hn' = ns" "s' = s3\<lparr>s_is_connecting := False\<rparr>"
    using assms(1,2,5) 1 3 f(2) by (auto simp: wifi_creds_connect_best_def Let_def ns_def)
  obtain p q where pq: "filter eligible ?l = p @ q" "tried s3 = tried s1 @ p"
    "if ok then \<exists>p0 n sa. p = p0 @ [n] \<and>
         failed_attempts api (timeout_ms div net_count hn) p0 (s1\<lparr>s_is_connecting := True\<rparr>) = Some sa \<and>
         try_network api (timeout_ms div net_count hn) n sa = (True, s3)
     else q = [] \<and> failed_attempts api (timeout_ms div net_count hn) p (s1\<lparr>s_is_connecting := True\<rparr>) = Some s3"
    using try_networks_tried [OF 3] by auto
  have "\<exists>n \<in> set ?l. eligible n" using blind_first_some [of "net_count hn1" "networks hn1"] assms(2,3) f(1,2)
    by (simp add: ns_def)
  then have "filter eligible ?l \<noteq> []" by (auto simp: filter_empty_conv)
  then have ne: "p \<noteq> []" using pq by (auto split: if_splits)
  have "sorted (map weaker ?l)"
    using sorted_blind_first [of "net_count hn1" "networks hn1"] f assms(3) by (simp add: ns_def)
  then have "sorted (map weaker (filter eligible ?l))" by (rule sorted_filter)
  then have "sorted (map weaker p)" using pq(1) by (simp add: sorted_append)
  moreover have "ok \<Longrightarrow> \<exists>w. GOT_IP \<in> set (fst (wait_events api (timeout_ms div net_count hn) w))"
    using pq(3) try_network_address by auto
  moreover have "ESP_FAIL \<noteq> ESP_OK" by (simp add: esp_err_defs)
  ultimately show ?thesis using r pq ne f(4) by (intro exI [of _ p] exI [of _ q] exI [of _ s3]) auto
qed

text \<open>Waiting for a connection when none is up: the call succeeds exactly when the driver
  reports an address during the wait, times out otherwise, and in both cases no longer asks for
  reconnection.\<close>

theorem wait_for_connection_outcome:
  assumes "fst (esp_wifi_sta_get_ap_info api (ww s)) \<noteq> ESP_OK" and "\<not> connected_bit s"
    and "on_world (esp_wifi_connect api) (s\<lparr>s_is_connecting := True\<rparr>) = (e, s1)"
    and "on_world (wait_events api timeout_ms) s1 = (es, s2)"
    and "wifi_creds_wait_for_connection api timeout_ms s = (ret, s')"
  shows "ret = (if GOT_IP \<in> set es then ESP_OK else ESP_ERR_TIMEOUT) \<and> \<not> s_is_connecting s'"
proof -
  have c: "\<not> connected_bit s1" "\<not> connected_bit s2"
    using on_world_same [OF assms(3)] on_world_same [OF assms(4)] assms(2) by auto
  obtain b s3 where d: "deliver api es s2 = (b, s3)" by fastforce
  show ?thesis
    using assms(1,3-5) c d deliver_seen [OF d c(2)]
    by (auto simp: wifi_creds_wait_for_connection_def wait_connected_def Let_def)
qed

subsection \<open>Witnesses\<close>

definition demo_wifi :: "ap_record list \<Rightarrow> wifi_event list \<Rightarrow> 'w wifi_api" where
  "demo_wifi aps es = \<lparr>wifi_setup = (\<lambda>_ w. (ESP_OK, w)), esp_wifi_connect = (\<lambda>w. (ESP_OK, w)),
     esp_wifi_disconnect = (\<lambda>w. (ESP_OK, w)), esp_wifi_set_config = (\<lambda>_ _ w. (ESP_OK, w)),
     esp_wifi_scan_start = (\<lambda>w. (ESP_OK, w)),
     esp_wifi_scan_get_ap_records = (\<lambda>n w. ((ESP_OK, take n aps), w)),
     esp_wifi_sta_get_ap_info = (\<lambda>w. (ESP_FAIL, \<lparr>ap_ssid = [], ap_rssi = 0, ap_primary = 0\<rparr>)),
     wait_events = (\<lambda>_ w. (es, w))\<rparr>"

abbreviation idle_wifi :: "'w \<Rightarrow> 'w wifi_st" where
  "idle_wifi w \<equiv> \<lparr>connected_bit = False, disconnected_bit = False, s_wifi_initialized = True,
     s_is_connecting = False, tried = [], ww = w\<rparr>"

definition creds_mem :: mem_nvs where
  "creds_mem = \<lparr>mem_vals = [(CREDS_NAMESPACE, NVS_KEY_COUNT) \<mapsto> NvsU8 2,
       (CREDS_NAMESPACE, ssid_key 0) \<mapsto> NvsStr ''home'',
       (CREDS_NAMESPACE, ssid_key 1) \<mapsto> NvsStr ''cafe'', (CREDS_NAMESPACE, pass_key 1) \<mapsto> NvsStr ''latte''],
     mem_open = (\<lambda>_. None), mem_next = 0, mem_faults = [], mem_inits = []\<rparr>"

definition demo_handle :: wifi_creds_handle_t where
  "demo_handle = \<lparr>networks = [\<lparr>net_ssid = ''home'', net_password = ''p'', net_rssi = 0\<rparr>,
     \<lparr>net_ssid = ''cafe'', net_password = ''q'', net_rssi = 0\<rparr>], net_count = 2, initialized = True\<rparr>"

abbreviation demo_aps :: "ap_record list" where
  "demo_aps \<equiv> [\<lparr>ap_ssid = ''cafe'', ap_rssi = - 40, ap_primary = 1\<rparr>]"

lemma zero_handle_ok: "handle_ok (zero_handle\<lparr>initialized := True\<rparr>)"
  by (simp add: handle_ok_def zero_handle_def zero_network_def)

lemma load_saved_networks_witness:
  "\<exists>hn' s'. wifi_creds_load mem_api (zero_handle\<lparr>initialized := True\<rparr>) (idle_wifi creds_mem) = (ESP_OK, hn', s')
     \<and> loaded hn' = [(''cafe'', ''latte'')]"
proof -
  let ?hn = "zero_handle\<lparr>initialized := True\<rparr>"
  obtain ret hn' s' where l: "wifi_creds_load mem_api ?hn (idle_wifi creds_mem) = (ret, hn', s')"
    by (metis prod_cases3)
  obtain s1 where o: "on_world (nvs_open mem_api CREDS_NAMESPACE NVS_READONLY) (idle_wifi creds_mem) = ((ESP_OK, 1), s1)"
    and v: "mem_vals (ww s1) = mem_vals creds_mem" and h: "mem_open (ww s1) 1 = Some CREDS_NAMESPACE"
    by (simp add: on_world_def mem_api_def mem_nvs_open_def creds_mem_def)
  have c: "nvs_get_u8 mem_api 1 NVS_KEY_COUNT (ww s1) = (ESP_OK, 2)"
    by (simp add: mem_api_def mem_get_def h v) (simp add: creds_mem_def NVS_KEY_COUNT_def cred_key_def)
  have "saved_cred (\<lambda>k. mem_vals creds_mem (CREDS_NAMESPACE, k)) 0 = None"
    "saved_cred (\<lambda>k. mem_vals creds_mem (CREDS_NAMESPACE, k)) 1 = Some (''cafe'', ''latte'')"
    by (simp_all add: saved_cred.simps creds_mem_def NVS_KEY_COUNT_def cred_key_def no_nul_def wifi_consts char_of_def)
  then have m: "List.map_filter (saved_cred (\<lambda>k. mem_vals creds_mem (CREDS_NAMESPACE, k))) [0, 1] = [(''cafe'', ''latte'')]"
    by (simp add: List.map_filter_def)
  have u: "[0..<min (unat (2 :: u8)) WIFI_MAX_NETWORKS] = [0, 1]" by (simp add: wifi_consts upt_rec)
  show ?thesis
    using load_saved_networks [OF mem.nvs_store_axioms _ zero_handle_ok o c _ l] l m unfolding u v by simp
qed

lemma scan_sorts_networks_witness:
  "\<exists>hn' s'. wifi_creds_scan_and_match (demo_wifi demo_aps []) demo_handle (idle_wifi ()) = (ESP_OK, hn', s') \<and>
     map net_ssid (take 2 (networks hn')) = [''cafe'', ''home'']"
proof -
  obtain ret hn' s' where l: "wifi_creds_scan_and_match (demo_wifi demo_aps []) demo_handle (idle_wifi ()) = (ret, hn', s')"
    by (metis prod_cases3)
  have i: "initialized demo_handle" "net_count demo_handle \<le> length (networks demo_handle)"
    by (simp_all add: demo_handle_def)
  have o: "on_world (esp_wifi_scan_start (demo_wifi demo_aps [])) (idle_wifi ()) = (ESP_OK, idle_wifi ())"
    "on_world (esp_wifi_scan_get_ap_records (demo_wifi demo_aps []) WIFI_SCAN_MAX_AP) (idle_wifi ())
       = ((ESP_OK, demo_aps), idle_wifi ())"
    by (simp_all add: on_world_def demo_wifi_def wifi_consts)
  note t = scan_sorts_networks [OF i o l]
  have "take 2 (networks hn') = [\<lparr>net_ssid = ''cafe'', net_password = ''q'', net_rssi = - 40\<rparr>,
      \<lparr>net_ssid = ''home'', net_password = ''p'', net_rssi = - 100\<rparr>]"
    using t by (simp add: demo_handle_def scan_rssi_def strcmp_eq_def cstr_def)
  then show ?thesis using l t by auto
qed

lemma connect_best_order_witness:
  "\<exists>ret hn' s'. wifi_creds_connect_best (demo_wifi demo_aps [GOT_IP]) 20000 demo_handle (idle_wifi ()) = (ret, hn', s')
     \<and> tried s' \<noteq> [] \<and> (ret = ESP_OK \<or> ret = ESP_FAIL)"
proof -
  obtain ret hn' s' where l: "wifi_creds_connect_best (demo_wifi demo_aps [GOT_IP]) 20000 demo_handle (idle_wifi ()) = (ret, hn', s')"
    by (metis prod_cases3)
  obtain e hn1 s1 where sc: "wifi_creds_scan_and_match (demo_wifi demo_aps [GOT_IP]) demo_handle (idle_wifi ()) = (e, hn1, s1)"
    by (metis prod_cases3)
  have "tried s' \<noteq> [] \<and> (ret = ESP_OK \<or> ret = ESP_FAIL)"
    using connect_best_order [OF _ _ _ sc l] by (auto simp: demo_handle_def split: if_splits)
  then show ?thesis using l by blast
qed

lemma wait_for_connection_outcome_witness:
  "fst (wifi_creds_wait_for_connection (demo_wifi [] [STA_CONNECTED]) 10000 (idle_wifi ())) = ESP_ERR_TIMEOUT"
proof -
  obtain ret s' where l: "wifi_creds_wait_for_connection (demo_wifi [] [STA_CONNECTED]) 10000 (idle_wifi ()) = (ret, s')"
    by fastforce
  show ?thesis
    using wait_for_connection_outcome [OF _ _ _ _ l] by (simp add: l) (simp add: demo_wifi_def on_world_def)
qed

end
