(* ===== verification/PingPong.thy ===== *)
theory PingPong
  imports Prelude
begin

text \<open>
  The double-buffered transfer loop of \<^verbatim>\<open>src/src/simibox_download.cpp\<close>: the network task (the
  loop of \<^verbatim>\<open>download_file_standalone\<close>) fills one PSRAM buffer from the HTTP connection while
  the SD writer task (\<^verbatim>\<open>sd_writer_task\<close>) drains the other one to the file, the two
  synchronised by two binary semaphores and the job record \<^verbatim>\<open>s_sd_job\<close>.

  Both tasks are step functions on one shared state. Each access to a buffer, each semaphore
  operation and each library call is a step of its own; only the fields of the job record are
  stored or loaded several at a time (\<open>NetKick\<close>, \<open>SdStart\<close>, \<open>SdPost\<close>) or
  with the semaphore that hands it over (\<open>NetWait\<close>, \<open>NetFinal\<close>), which hides no interleaving: the record changes hands with a semaphore, so that the other task touches
  it neither between two such stores nor between two such loads. A run interleaves the steps in
  any order. The sequential definition \<open>seq_loop\<close> is what the loop computes when every write is
  done at once. The theorems: no reachable state lets the two tasks touch the same buffer, every
  run ends, no run deadlocks, and every run ends with the result of the sequential loop, whose
  file is the byte stream received.

  The HTTP body and the results of the \<^verbatim>\<open>fwrite\<close> calls are parameters (scripts): any finite
  behaviour of the connection and of the card is one of them.
\<close>

section \<open>Library calls\<close>

text \<open>What the next calls of \<^verbatim>\<open>esp_http_client_read\<close> find: data (of which one call returns at
  most the bytes asked for) or a read error. When the script is used up the call returns 0.
  The result \<open>None\<close> is a negative return value.\<close>

datatype http_rd = RdData "byte list" | RdErr

fun http_client_read :: "nat \<Rightarrow> http_rd list \<Rightarrow> byte list option \<times> http_rd list" where
  "http_client_read len [] = (Some [], [])"
| "http_client_read len (RdErr # r) = (None, r)"
| "http_client_read len (RdData bs # r) =
     (Some (take len bs), if length bs \<le> len then r else RdData (drop len bs) # r)"

fun rd_size :: "http_rd list \<Rightarrow> nat" where
  "rd_size [] = 0"
| "rd_size (RdErr # r) = Suc (rd_size r)"
| "rd_size (RdData bs # r) = Suc (length bs + rd_size r)"

lemma http_client_read_size:
  "http_client_read len r = (Some (b # bs), r') \<Longrightarrow> rd_size r' < rd_size r"
  by (cases "(len, r)" rule: http_client_read.cases; cases len) (auto split: if_splits)

lemma http_client_read_len: "http_client_read len r = (Some bs, r') \<Longrightarrow> length bs \<le> len"
  by (cases "(len, r)" rule: http_client_read.cases) (auto split: if_splits)

text \<open>How many bytes the next calls of \<^verbatim>\<open>fwrite\<close> accept; all of them when the script is used
  up.\<close>

fun fwrite_n :: "nat list \<Rightarrow> nat \<Rightarrow> nat \<times> nat list" where
  "fwrite_n [] n = (n, [])"
| "fwrite_n (k # ks) n = (min k n, ks)"

lemma fwrite_n_le: "fwrite_n ks n = (m, ks') \<Longrightarrow> m \<le> n"
  by (cases ks) auto

text \<open>Writing bytes into a buffer at an offset.\<close>

definition mem_write :: "byte list \<Rightarrow> nat \<Rightarrow> byte list \<Rightarrow> byte list" where
  "mem_write b off bs = take off b @ bs @ drop (off + length bs) b"

lemma length_mem_write [simp]:
  "off + length bs \<le> length b \<Longrightarrow> length (mem_write b off bs) = length b"
  by (simp add: mem_write_def)

lemma take_mem_write [simp]:
  "off + length bs \<le> length b \<Longrightarrow> take (off + length bs) (mem_write b off bs) = take off b @ bs"
  by (simp add: mem_write_def)

section \<open>State\<close>

text \<open>\<^verbatim>\<open>sizeof(dram_bounce)\<close>\<close>

definition BOUNCE_SIZE :: nat where "BOUNCE_SIZE = 32768"

lemma BOUNCE_SIZE_pos [simp]: "0 < BOUNCE_SIZE"
  by (simp add: BOUNCE_SIZE_def)

datatype net_pc = NetRead | NetFilled | NetWait | NetKick | NetGive | NetSwap | NetFinal | NetDone

text \<open>The writer's program counter carries its locals: the data pointer (a buffer index),
  \<^verbatim>\<open>remaining\<close>, \<^verbatim>\<open>offset\<close>, the bounce buffer, and the first \<^verbatim>\<open>fwrite\<close>'s count.\<close>

datatype sd_pc =
    SdTake
  | SdStart
  | SdLoop nat nat nat
  | SdFwrite nat nat nat "byte list"
  | SdFwrite2 nat nat nat "byte list" nat
  | SdPost bool
  | SdGive
  | SdExit

record 'x pp =
  s_buf :: "byte list list"
  job_data :: nat
  job_len :: nat
  job_sd_error :: bool
  job_done :: bool
  job_stop :: bool
  sem_job_ready :: bool
  sem_job_done :: bool
  npc :: net_pc
  cur :: nat
  buf_filled :: nat
  total :: u32
  net_error :: bool
  sd_error :: bool
  sd_write_pending :: bool
  rd :: "http_rd list"
  progress :: 'x
  spc :: sd_pc
  wfile :: "byte list"
  wr :: "nat list"

section \<open>The two tasks\<close>

text \<open>The network task. \<open>tick n\<close> is what the loop does after each read of \<open>n\<close> bytes besides the
  transfer itself (the progress counter and the LED); \<open>None\<close>: blocked on a semaphore, or done.\<close>

definition net_step :: "(nat \<Rightarrow> 'x \<Rightarrow> 'x) \<Rightarrow> nat \<Rightarrow> 'x pp \<Rightarrow> 'x pp option" where
  "net_step tick s_buf_capacity s =
    (case npc s of
       NetRead \<Rightarrow>
         if buf_filled s < s_buf_capacity then
           (case http_client_read (s_buf_capacity - buf_filled s) (rd s) of (n, rd') \<Rightarrow>
             (case n of
                None \<Rightarrow> Some (s\<lparr>rd := rd', net_error := True, npc := NetFilled\<rparr>)
              | Some bs \<Rightarrow>
                  if bs = [] then Some (s\<lparr>rd := rd', npc := NetFilled\<rparr>)
                  else Some (s\<lparr>rd := rd',
                    s_buf := (s_buf s)[cur s := mem_write (s_buf s ! cur s) (buf_filled s) bs],
                    buf_filled := buf_filled s + length bs,
                    total := total s + of_nat (length bs),
                    progress := tick (length bs) (progress s)\<rparr>)))
         else Some (s\<lparr>npc := NetFilled\<rparr>)
     | NetFilled \<Rightarrow>
         if net_error s \<or> buf_filled s = 0 then Some (s\<lparr>npc := NetFinal\<rparr>)
         else if sd_write_pending s then Some (s\<lparr>npc := NetWait\<rparr>)
         else Some (s\<lparr>npc := NetKick\<rparr>)
     | NetWait \<Rightarrow>
         if sem_job_done s then
           (let s1 = s\<lparr>sem_job_done := False, sd_write_pending := False\<rparr> in
            if job_sd_error s1 then Some (s1\<lparr>sd_error := True, npc := NetFinal\<rparr>)
            else Some (s1\<lparr>npc := NetKick\<rparr>))
         else None
     | NetKick \<Rightarrow>
         Some (s\<lparr>job_data := cur s, job_len := buf_filled s, job_sd_error := False,
                 job_done := False, sd_write_pending := True, npc := NetGive\<rparr>)
     | NetGive \<Rightarrow> Some (s\<lparr>sem_job_ready := True, npc := NetSwap\<rparr>)
     | NetSwap \<Rightarrow>
         (let s1 = s\<lparr>cur := 1 - cur s\<rparr> in
          if buf_filled s1 < s_buf_capacity then Some (s1\<lparr>npc := NetFinal\<rparr>)
          else Some (s1\<lparr>buf_filled := 0, npc := NetRead\<rparr>))
     | NetFinal \<Rightarrow>
         if sd_write_pending s then
           (if sem_job_done s then
              (let s1 = s\<lparr>sem_job_done := False, sd_write_pending := False\<rparr> in
               Some (s1\<lparr>sd_error := sd_error s1 \<or> job_sd_error s1, npc := NetDone\<rparr>))
            else None)
         else Some (s\<lparr>npc := NetDone\<rparr>)
     | NetDone \<Rightarrow> None)"

text \<open>The SD writer task.\<close>

definition sd_step :: "'x pp \<Rightarrow> 'x pp option" where
  "sd_step s =
    (case spc s of
       SdTake \<Rightarrow> if sem_job_ready s then Some (s\<lparr>sem_job_ready := False, spc := SdStart\<rparr>) else None
     | SdStart \<Rightarrow>
         if job_stop s then Some (s\<lparr>spc := SdExit\<rparr>)
         else Some (s\<lparr>spc := SdLoop (job_data s) (job_len s) 0\<rparr>)
     | SdLoop data remaining offset \<Rightarrow>
         if offset < remaining then
           (let chunk = (if remaining - offset > BOUNCE_SIZE then BOUNCE_SIZE else remaining - offset) in
            Some (s\<lparr>spc := SdFwrite data remaining offset (take chunk (drop offset (s_buf s ! data)))\<rparr>))
         else Some (s\<lparr>spc := SdPost False\<rparr>)
     | SdFwrite data remaining offset bounce \<Rightarrow>
         (case fwrite_n (wr s) (length bounce) of (written, wr') \<Rightarrow>
           (let s1 = s\<lparr>wr := wr', wfile := wfile s @ take written bounce\<rparr> in
            if written \<noteq> length bounce
            then Some (s1\<lparr>spc := SdFwrite2 data remaining offset bounce written\<rparr>)
            else Some (s1\<lparr>spc := SdLoop data remaining (offset + length bounce)\<rparr>)))
     | SdFwrite2 data remaining offset bounce written \<Rightarrow>
         (case fwrite_n (wr s) (length bounce - written) of (w2, wr') \<Rightarrow>
           (let s1 = s\<lparr>wr := wr', wfile := wfile s @ take w2 (drop written bounce)\<rparr> in
            if written + w2 \<noteq> length bounce then Some (s1\<lparr>spc := SdPost True\<rparr>)
            else Some (s1\<lparr>spc := SdLoop data remaining (offset + length bounce)\<rparr>)))
     | SdPost error \<Rightarrow> Some (s\<lparr>job_sd_error := error, job_done := True, spc := SdGive\<rparr>)
     | SdGive \<Rightarrow> Some (s\<lparr>sem_job_done := True, spc := SdTake\<rparr>)
     | SdExit \<Rightarrow> None)"

inductive pp_step :: "(nat \<Rightarrow> 'x \<Rightarrow> 'x) \<Rightarrow> nat \<Rightarrow> 'x pp \<Rightarrow> 'x pp \<Rightarrow> bool" for tick cap where
  net: "net_step tick cap s = Some t \<Longrightarrow> pp_step tick cap s t"
| sd: "sd_step s = Some t \<Longrightarrow> pp_step tick cap s t"

inductive pp_reach :: "(nat \<Rightarrow> 'x \<Rightarrow> 'x) \<Rightarrow> nat \<Rightarrow> 'x pp \<Rightarrow> 'x pp \<Rightarrow> bool" for tick cap s0 where
  start: "pp_reach tick cap s0 s0"
| step: "pp_reach tick cap s0 s \<Longrightarrow> pp_step tick cap s t \<Longrightarrow> pp_reach tick cap s0 t"

text \<open>The state in which the loop of \<^verbatim>\<open>download_file_standalone\<close> starts: the writer is waiting
  for its first job, the file is empty.\<close>

definition pp_start :: "byte list \<Rightarrow> byte list \<Rightarrow> http_rd list \<Rightarrow> nat list \<Rightarrow> 'x \<Rightarrow> 'x pp" where
  "pp_start b0 b1 r w x = \<lparr>s_buf = [b0, b1], job_data = 0, job_len = 0, job_sd_error = False,
     job_done = True, job_stop = False, sem_job_ready = False, sem_job_done = False,
     npc = NetRead, cur = 0, buf_filled = 0, total = 0, net_error = False, sd_error = False,
     sd_write_pending = False, rd = r, progress = x, spc = SdTake, wfile = [], wr = w\<rparr>"

section \<open>The sequential loop\<close>

text \<open>Phase 1: fill the buffer from the network.\<close>

function fill_buf ::
  "(nat \<Rightarrow> 'x \<Rightarrow> 'x) \<Rightarrow> nat \<Rightarrow> http_rd list \<Rightarrow> byte list \<Rightarrow> u32 \<Rightarrow> 'x \<Rightarrow>
     http_rd list \<times> byte list \<times> u32 \<times> 'x \<times> bool" where
  "fill_buf tick cap r acc tot x =
     (if length acc < cap then
        (case http_client_read (cap - length acc) r of (n, r') \<Rightarrow>
          (case n of
             None \<Rightarrow> (r', acc, tot, x, True)
           | Some bs \<Rightarrow>
               if bs = [] then (r', acc, tot, x, False)
               else fill_buf tick cap r' (acc @ bs) (tot + of_nat (length bs)) (tick (length bs) x)))
      else (r, acc, tot, x, False))"
  by pat_completeness auto
termination
  by (relation "measure (\<lambda>(tick, cap, r, acc, tot, x). rd_size r)")
     (auto simp: neq_Nil_conv dest: http_client_read_size [OF sym])

declare fill_buf.simps [simp del]

text \<open>Phase 2: write one buffer to the file through the bounce buffer, with one retry per
  short write.\<close>

lemma sd_write_measure:
  "off < n \<Longrightarrow> n - (off + min BOUNCE_SIZE (n - off)) < n - (off :: nat)"
  using BOUNCE_SIZE_pos by linarith

function sd_write :: "byte list \<Rightarrow> nat \<Rightarrow> nat list \<Rightarrow> byte list \<Rightarrow> byte list \<times> nat list \<times> bool" where
  "sd_write data offset w f =
     (if offset < length data then
        (let chunk = min BOUNCE_SIZE (length data - offset);
             bounce = take chunk (drop offset data) in
         (case fwrite_n w chunk of (written, w1) \<Rightarrow>
            (let f1 = f @ take written bounce in
             if written \<noteq> chunk then
               (case fwrite_n w1 (chunk - written) of (w2, w3) \<Rightarrow>
                  (let f2 = f1 @ take w2 (drop written bounce) in
                   if written + w2 \<noteq> chunk then (f2, w3, True)
                   else sd_write data (offset + chunk) w3 f2))
             else sd_write data (offset + chunk) w1 f1)))
      else (f, w, False))"
  by pat_completeness auto
termination
  by (relation "measure (\<lambda>(data, offset, w, f). length data - offset)")
     (simp_all only: wf_measure in_measure prod.case sd_write_measure)

declare sd_write.simps [simp del]

text \<open>The result of the loop: the file, the rest of the write script, the byte count, the two
  error flags, the rest of the body and the progress state.\<close>

record 'x pp_result =
  res_file :: "byte list"
  res_wr :: "nat list"
  res_total :: u32
  res_net_error :: bool
  res_sd_error :: bool
  res_rd :: "http_rd list"
  res_progress :: 'x

lemma fill_buf_size:
  "fill_buf tick cap r acc tot x = (r', acc', tot', x', ne) \<Longrightarrow>
     rd_size r' \<le> rd_size r \<and> length acc \<le> length acc' \<and>
     (length acc < length acc' \<longrightarrow> rd_size r' < rd_size r)"
proof (induction tick cap r acc tot x rule: fill_buf.induct)
  case (1 tick cap r acc tot x)
  show ?case
  proof (cases "length acc < cap")
    case False
    then show ?thesis using 1(2) by (simp add: fill_buf.simps [of tick cap r])
  next
    case True
    obtain n r1 where h: "http_client_read (cap - length acc) r = (n, r1)" by fastforce
    show ?thesis
    proof (cases "n = None \<or> n = Some []")
      case True
      have "rd_size r1 \<le> rd_size r"
        using h True by (cases "(cap - length acc, r)" rule: http_client_read.cases)
          (auto split: if_splits)
      then show ?thesis
        using 1(2) True \<open>length acc < cap\<close> h
        by (auto simp: fill_buf.simps [of tick cap r])
    next
      case False
      then obtain b bs where n: "n = Some (b # bs)" by (cases n) (auto simp: neq_Nil_conv)
      have "fill_buf tick cap r1 (acc @ b # bs) (tot + of_nat (length (b # bs)))
              (tick (length (b # bs)) x) = (r', acc', tot', x', ne)"
        using 1(2) \<open>length acc < cap\<close> h n by (simp add: fill_buf.simps [of tick cap r])
      with 1(1) [OF \<open>length acc < cap\<close> h [symmetric] n]
      have "rd_size r' \<le> rd_size r1 \<and> length (acc @ b # bs) \<le> length acc'" by simp
      moreover have "rd_size r1 < rd_size r" using http_client_read_size h n by blast
      ultimately show ?thesis by simp
    qed
  qed
qed

function seq_loop ::
  "(nat \<Rightarrow> 'x \<Rightarrow> 'x) \<Rightarrow> nat \<Rightarrow> http_rd list \<Rightarrow> byte list \<Rightarrow> nat list \<Rightarrow> bool \<Rightarrow> u32 \<Rightarrow> 'x \<Rightarrow> 'x pp_result" where
  "seq_loop tick cap r f w jerr tot x =
     (case fill_buf tick cap r [] tot x of (r', acc, tot', x', nerr) \<Rightarrow>
        if nerr \<or> acc = [] then
          \<lparr>res_file = f, res_wr = w, res_total = tot', res_net_error = nerr, res_sd_error = jerr,
           res_rd = r', res_progress = x'\<rparr>
        else if jerr then
          \<lparr>res_file = f, res_wr = w, res_total = tot', res_net_error = False, res_sd_error = True,
           res_rd = r', res_progress = x'\<rparr>
        else
          (case sd_write acc 0 w f of (f', w', jerr') \<Rightarrow>
             if length acc < cap then
               \<lparr>res_file = f', res_wr = w', res_total = tot', res_net_error = False,
                res_sd_error = jerr', res_rd = r', res_progress = x'\<rparr>
             else seq_loop tick cap r' f' w' jerr' tot' x'))"
  by pat_completeness auto
termination
  by (relation "measure (\<lambda>(tick, cap, r, f, w, jerr, tot, x). rd_size r)")
     (auto dest!: fill_buf_size [OF sym])

declare seq_loop.simps [simp del]

section \<open>Invariant\<close>

text \<open>The chunk the writer takes at an offset.\<close>

abbreviation sd_chunk :: "nat \<Rightarrow> nat \<Rightarrow> nat" where
  "sd_chunk remaining offset \<equiv> min BOUNCE_SIZE (remaining - offset)"

lemma sd_chunk_eq:
  "(if remaining - offset > BOUNCE_SIZE then BOUNCE_SIZE else remaining - offset)
     = sd_chunk remaining offset"
  by (simp add: min_def)

fun sd_wf :: "byte list list \<Rightarrow> nat \<Rightarrow> nat \<Rightarrow> sd_pc \<Rightarrow> bool" where
  "sd_wf bs jd jl (SdLoop d r off) = (d = jd \<and> r = jl \<and> off \<le> r)"
| "sd_wf bs jd jl (SdFwrite d r off b) = (d = jd \<and> r = jl \<and> off < r \<and>
     b = take (sd_chunk r off) (drop off (bs ! d)))"
| "sd_wf bs jd jl (SdFwrite2 d r off b n) = (d = jd \<and> r = jl \<and> off < r \<and>
     b = take (sd_chunk r off) (drop off (bs ! d)) \<and> n < length b)"
| "sd_wf bs jd jl SdExit = False"
| "sd_wf bs jd jl _ = True"

text \<open>A pending write is in exactly one place: not yet given, waiting in \<^verbatim>\<open>sem_job_ready\<close>, in the
  writer's hands, or waiting in \<^verbatim>\<open>sem_job_done\<close>; without a pending write both semaphores are
  down and the writer waits.\<close>

definition hand_over :: "'x pp \<Rightarrow> bool" where
  "hand_over s \<longleftrightarrow>
     (if sd_write_pending s \<and> npc s \<noteq> NetGive
      then (spc s = SdTake \<longleftrightarrow> sem_job_ready s \<or> sem_job_done s) \<and> \<not> (sem_job_ready s \<and> sem_job_done s)
      else \<not> sem_job_ready s \<and> \<not> sem_job_done s \<and> spc s = SdTake)"

definition bufs_ok :: "nat \<Rightarrow> byte list list \<Rightarrow> bool" where
  "bufs_ok cap bs \<longleftrightarrow> length bs = 2 \<and> (\<forall>b \<in> set bs. length b = cap)"

text \<open>What the network task knows at each program point: which error flags can be set, whether a
  write is pending, and which buffer it owns.\<close>

definition net_ok :: "'x pp \<Rightarrow> bool" where
  "net_ok s \<longleftrightarrow>
     (case npc s of
        NetRead \<Rightarrow> \<not> net_error s \<and> \<not> sd_error s \<and> (sd_write_pending s \<longrightarrow> job_data s \<noteq> cur s)
      | NetFilled \<Rightarrow> \<not> sd_error s \<and> (sd_write_pending s \<longrightarrow> job_data s \<noteq> cur s)
      | NetWait \<Rightarrow> \<not> net_error s \<and> \<not> sd_error s \<and> sd_write_pending s \<and> job_data s \<noteq> cur s \<and>
                   0 < buf_filled s
      | NetKick \<Rightarrow> \<not> net_error s \<and> \<not> sd_error s \<and> \<not> sd_write_pending s \<and> 0 < buf_filled s
      | NetGive \<Rightarrow> \<not> net_error s \<and> \<not> sd_error s \<and> sd_write_pending s \<and> job_data s = cur s \<and>
                   job_len s = buf_filled s
      | NetSwap \<Rightarrow> \<not> net_error s \<and> \<not> sd_error s \<and> sd_write_pending s \<and> job_data s = cur s \<and>
                   job_len s = buf_filled s
      | NetFinal \<Rightarrow> sd_write_pending s \<longrightarrow> \<not> sd_error s \<and> job_data s \<noteq> cur s
      | NetDone \<Rightarrow> \<not> sd_write_pending s)"

definition pp_inv :: "nat \<Rightarrow> 'x pp \<Rightarrow> bool" where
  "pp_inv cap s \<longleftrightarrow>
     bufs_ok cap (s_buf s) \<and> cur s < 2 \<and> job_data s < 2 \<and> buf_filled s \<le> cap \<and> job_len s \<le> cap \<and>
     \<not> job_stop s \<and> net_ok s \<and> hand_over s \<and> sd_wf (s_buf s) (job_data s) (job_len s) (spc s)"

lemmas pp_inv_defs = pp_inv_def hand_over_def net_ok_def

lemma bufs_ok_nth: "bufs_ok cap bs \<Longrightarrow> i < 2 \<Longrightarrow> length (bs ! i) = cap"
  by (simp add: bufs_ok_def)

lemma bufs_ok_update: "bufs_ok cap bs \<Longrightarrow> length b = cap \<Longrightarrow> bufs_ok cap (bs[i := b])"
  by (auto simp: bufs_ok_def dest: set_update_subset_insert [THEN subsetD])

lemma swap_neq: "1 - (n :: nat) \<noteq> n"
  by arith

lemma sd_wf_buf_other: "d \<noteq> jd \<Longrightarrow> sd_wf bs jd jl pc \<Longrightarrow> sd_wf (bs[d := b]) jd jl pc"
  by (cases pc) auto

lemma pp_inv_start:
  "length b0 = cap \<Longrightarrow> length b1 = cap \<Longrightarrow> pp_inv cap (pp_start b0 b1 r w x)"
  by (simp add: pp_inv_defs pp_start_def bufs_ok_def)

lemma pp_inv_cur: "pp_inv cap s \<Longrightarrow> length (s_buf s ! cur s) = cap"
  by (simp add: pp_inv_def bufs_ok_nth)

lemma net_store_inv:
  assumes "pp_inv cap s" and "npc s = NetRead" and "buf_filled s + length bs \<le> cap"
  shows "pp_inv cap (s\<lparr>rd := r, s_buf := (s_buf s)[cur s := mem_write (s_buf s ! cur s) (buf_filled s) bs],
           buf_filled := buf_filled s + length bs, total := n, progress := x\<rparr>)"
proof -
  let ?b = "mem_write (s_buf s ! cur s) (buf_filled s) bs"
  have l: "length ?b = cap" using pp_inv_cur [OF assms(1)] assms(3) by simp
  have "sd_wf ((s_buf s)[cur s := ?b]) (job_data s) (job_len s) (spc s)"
  proof (cases "spc s = SdTake")
    case False
    then have "sd_write_pending s"
      using assms(1) unfolding pp_inv_def hand_over_def by presburger
    then have "cur s \<noteq> job_data s" using assms(1,2) by (simp add: pp_inv_def net_ok_def)
    then show ?thesis using assms(1) by (intro sd_wf_buf_other) (simp_all add: pp_inv_def)
  qed simp
  then show ?thesis
    using assms bufs_ok_update [OF _ l] by (simp add: pp_inv_defs)
qed

lemma pp_inv_done:
  "pp_inv cap s \<Longrightarrow> sem_job_done s \<Longrightarrow> sd_write_pending s \<and> \<not> sem_job_ready s \<and> spc s = SdTake"
  by (auto simp: pp_inv_def hand_over_def split: if_splits)

text \<open>The successor of the network task at each program point.\<close>

lemma net_step_read:
  assumes "npc s = NetRead" and "net_step tick cap s = Some t"
  obtains (full) "\<not> buf_filled s < cap" "t = s\<lparr>npc := NetFilled\<rparr>"
  | (err) r where "buf_filled s < cap" "http_client_read (cap - buf_filled s) (rd s) = (None, r)"
      "t = s\<lparr>rd := r, net_error := True, npc := NetFilled\<rparr>"
  | (eof) r where "buf_filled s < cap" "http_client_read (cap - buf_filled s) (rd s) = (Some [], r)"
      "t = s\<lparr>rd := r, npc := NetFilled\<rparr>"
  | (data) bs r where "buf_filled s < cap"
      "http_client_read (cap - buf_filled s) (rd s) = (Some bs, r)" "bs \<noteq> []"
      "buf_filled s + length bs \<le> cap"
      "t = s\<lparr>rd := r, s_buf := (s_buf s)[cur s := mem_write (s_buf s ! cur s) (buf_filled s) bs],
             buf_filled := buf_filled s + length bs, total := total s + of_nat (length bs),
             progress := tick (length bs) (progress s)\<rparr>"
proof (cases "buf_filled s < cap")
  case False
  then show thesis using full assms by (simp add: net_step_def)
next
  case True
  obtain n r where h: "http_client_read (cap - buf_filled s) (rd s) = (n, r)" by fastforce
  show thesis
  proof (cases n)
    case None
    then show thesis using err True h assms by (simp add: net_step_def)
  next
    case (Some bs)
    show thesis
    proof (cases "bs = []")
      case True
      then show thesis using eof \<open>buf_filled s < cap\<close> Some h assms by (simp add: net_step_def)
    next
      case False
      have "buf_filled s + length bs \<le> cap" using http_client_read_len h Some True by fastforce
      then show thesis using data [of bs r] True False Some h assms by (simp add: net_step_def)
    qed
  qed
qed

lemma net_step_filled: "npc s = NetFilled \<Longrightarrow> net_step tick cap s = Some t \<Longrightarrow>
    t = s\<lparr>npc := if net_error s \<or> buf_filled s = 0 then NetFinal
                 else if sd_write_pending s then NetWait else NetKick\<rparr>"
  by (auto simp: net_step_def split: if_splits)

lemma net_step_wait: "npc s = NetWait \<Longrightarrow> net_step tick cap s = Some t \<Longrightarrow>
    sem_job_done s \<and>
    t = (if job_sd_error s
         then s\<lparr>sem_job_done := False, sd_write_pending := False, sd_error := True, npc := NetFinal\<rparr>
         else s\<lparr>sem_job_done := False, sd_write_pending := False, npc := NetKick\<rparr>)"
  by (simp add: net_step_def Let_def split: if_splits)

lemma net_step_kick: "npc s = NetKick \<Longrightarrow> net_step tick cap s = Some t \<Longrightarrow>
    t = s\<lparr>job_data := cur s, job_len := buf_filled s, job_sd_error := False,
          job_done := False, sd_write_pending := True, npc := NetGive\<rparr>"
  by (simp add: net_step_def)

lemma net_step_give: "npc s = NetGive \<Longrightarrow> net_step tick cap s = Some t \<Longrightarrow>
    t = s\<lparr>sem_job_ready := True, npc := NetSwap\<rparr>"
  by (simp add: net_step_def)

lemma net_step_swap: "npc s = NetSwap \<Longrightarrow> net_step tick cap s = Some t \<Longrightarrow>
    t = (if buf_filled s < cap then s\<lparr>cur := 1 - cur s, npc := NetFinal\<rparr>
         else s\<lparr>cur := 1 - cur s, buf_filled := 0, npc := NetRead\<rparr>)"
  by (simp add: net_step_def Let_def split: if_splits)

lemma net_step_final: "npc s = NetFinal \<Longrightarrow> net_step tick cap s = Some t \<Longrightarrow>
    (sd_write_pending s \<longrightarrow> sem_job_done s) \<and>
    t = (if sd_write_pending s
         then s\<lparr>sem_job_done := False, sd_write_pending := False,
                sd_error := sd_error s \<or> job_sd_error s, npc := NetDone\<rparr>
         else s\<lparr>npc := NetDone\<rparr>)"
  by (simp add: net_step_def Let_def split: if_splits)

lemma net_step_done: "npc s = NetDone \<Longrightarrow> net_step tick cap s = None"
  by (simp add: net_step_def)

lemmas net_step_forms = net_step_filled net_step_wait net_step_kick net_step_give net_step_swap
  net_step_final

lemma net_step_inv:
  assumes "pp_inv cap s" and "net_step tick cap s = Some t"
  shows "pp_inv cap t"
proof (cases "npc s")
  case NetRead
  from NetRead assms(2) show ?thesis
  proof (cases rule: net_step_read)
    case full
    then show ?thesis using NetRead assms(1) by (simp add: pp_inv_defs)
  next
    case err
    then show ?thesis using NetRead assms(1) by (simp add: pp_inv_defs)
  next
    case eof
    then show ?thesis using NetRead assms(1) by (simp add: pp_inv_defs)
  next
    case data
    then show ?thesis using net_store_inv [OF assms(1) NetRead] by simp
  qed
next
  case NetSwap
  have "cur s \<noteq> 1 - cur s" and "1 - cur s < 2" by arith+
  moreover have "job_data s = cur s" "job_len s = buf_filled s"
    "sd_wf (s_buf s) (cur s) (buf_filled s) (spc s)"
    using assms(1) NetSwap by (auto simp: pp_inv_def net_ok_def)
  ultimately show ?thesis
    using assms(1) NetSwap net_step_swap [OF NetSwap assms(2)]
    by (cases "buf_filled s < cap") (simp_all add: pp_inv_defs)
next
  case NetFilled
  then show ?thesis
    using assms(1) net_step_filled [OF NetFilled assms(2)]
    by (cases "net_error s \<or> buf_filled s = 0"; cases "sd_write_pending s")
       (simp_all add: pp_inv_defs)
next
  case NetWait
  then have "sem_job_done s" using net_step_wait [OF NetWait assms(2)] by simp
  note fin = this pp_inv_done [OF assms(1) this]
  with NetWait show ?thesis
    using assms(1) net_step_wait [OF NetWait assms(2)]
    by (cases "job_sd_error s") (simp_all add: pp_inv_defs)
next
  case NetKick
  then show ?thesis using assms(1) net_step_kick [OF NetKick assms(2)] by (simp add: pp_inv_defs)
next
  case NetGive
  then show ?thesis using assms(1) net_step_give [OF NetGive assms(2)] by (simp add: pp_inv_defs)
next
  case NetFinal
  then show ?thesis
    using assms(1) net_step_final [OF NetFinal assms(2)] pp_inv_done [OF assms(1)]
    by (cases "sd_write_pending s") (simp_all add: pp_inv_defs)
next
  case NetDone
  with assms show ?thesis by (simp add: net_step_def)
qed

lemma sd_busy:
  assumes "pp_inv cap s" and "spc s \<noteq> SdTake"
  shows "sd_write_pending s" and "npc s \<noteq> NetGive" and "\<not> sem_job_ready s" and "\<not> sem_job_done s"
    and "sd_wf (s_buf s) (job_data s) (job_len s) (spc s)" and "spc s \<noteq> SdExit" and "\<not> job_stop s" and "job_len s \<le> cap"
    and "length (s_buf s ! job_data s) = cap"
  using assms by (auto simp: pp_inv_defs bufs_ok_nth split: if_splits)

lemma sd_step_shape:
  assumes "sd_step s = Some t"
  shows "\<exists>wr' f e d rdy dn pc. t = s\<lparr>wr := wr', wfile := f, job_sd_error := e, job_done := d,
           sem_job_ready := rdy, sem_job_done := dn, spc := pc\<rparr>"
proof -
  have "t = s\<lparr>wr := wr t, wfile := wfile t, job_sd_error := job_sd_error t, job_done := job_done t,
           sem_job_ready := sem_job_ready t, sem_job_done := sem_job_done t, spc := spc t\<rparr>"
  proof (cases "spc s")
    case (SdFwrite d r off b)
    then show ?thesis
      using assms by (cases "fwrite_n (wr s) (length b)") (simp add: sd_step_def Let_def split: if_splits, auto)
  next
    case (SdFwrite2 d r off b n)
    then show ?thesis
      using assms by (cases "fwrite_n (wr s) (length b - n)") (simp add: sd_step_def Let_def split: if_splits, auto)
  qed (use assms in \<open>auto simp: sd_step_def Let_def split: if_splits\<close>)
  then show ?thesis by blast
qed

lemma sd_step_frame:
  assumes "sd_step s = Some t"
  shows "npc t = npc s" "cur t = cur s" "buf_filled t = buf_filled s" "total t = total s"
    "net_error t = net_error s" "sd_error t = sd_error s" "sd_write_pending t = sd_write_pending s"
    "rd t = rd s" "progress t = progress s" "s_buf t = s_buf s" "job_data t = job_data s"
    "job_len t = job_len s" "job_stop t = job_stop s"
proof -
  obtain wr' f e d rdy dn pc where
    "t = s\<lparr>wr := wr', wfile := f, job_sd_error := e, job_done := d, sem_job_ready := rdy,
           sem_job_done := dn, spc := pc\<rparr>"
    using sd_step_shape [OF assms] by blast
  then show "npc t = npc s" "cur t = cur s" "buf_filled t = buf_filled s" "total t = total s"
    "net_error t = net_error s" "sd_error t = sd_error s" "sd_write_pending t = sd_write_pending s"
    "rd t = rd s" "progress t = progress s" "s_buf t = s_buf s" "job_data t = job_data s"
    "job_len t = job_len s" "job_stop t = job_stop s" by simp_all
qed

lemma sd_step_sync:
  assumes "sd_step s = Some t" and "pp_inv cap s"
  shows "hand_over t" and "sd_wf (s_buf s) (job_data s) (job_len s) (spc t)"
proof -
  have "hand_over t \<and> sd_wf (s_buf s) (job_data s) (job_len s) (spc t)"
  proof (cases "spc s = SdTake")
    case True
    then show ?thesis
      using assms by (auto simp: sd_step_def pp_inv_def hand_over_def split: if_splits)
  next
    case False
    note busy = sd_busy [OF assms(2) False]
    show ?thesis
    proof (cases "spc s")
      case (SdLoop d r off)
      then have wf: "d = job_data s" "r = job_len s" "off \<le> job_len s" using busy(5) by simp_all
      have "t = (if off < r
            then s\<lparr>spc := SdFwrite d r off (take (sd_chunk r off) (drop off (s_buf s ! d)))\<rparr>
            else s\<lparr>spc := SdPost False\<rparr>)"
        using assms(1) SdLoop by (simp add: sd_step_def Let_def sd_chunk_eq split: if_splits)
      then show ?thesis using wf busy(1-4) by (simp add: hand_over_def)
    next
      case (SdFwrite d r off b)
      then have wf: "d = job_data s" "r = job_len s" "off < job_len s"
        "b = take (sd_chunk (job_len s) off) (drop off (s_buf s ! job_data s))"
        using busy(5) by simp_all
      have le: "off + length b \<le> job_len s" using wf(3,4) by auto
      obtain n w where fw: "fwrite_n (wr s) (length b) = (n, w)" by fastforce
      show ?thesis
      proof (cases "n = length b")
        case True
        then have "t = s\<lparr>wr := w, wfile := wfile s @ take n b, spc := SdLoop d r (off + length b)\<rparr>"
          using assms(1) SdFwrite fw by (simp add: sd_step_def)
        then show ?thesis using le wf(1,2) busy(1-4) by (simp add: hand_over_def)
      next
        case False
        then have "t = s\<lparr>wr := w, wfile := wfile s @ take n b, spc := SdFwrite2 d r off b n\<rparr>"
          using assms(1) SdFwrite fw by (simp add: sd_step_def)
        moreover have "n < length b" using False fwrite_n_le [OF fw] by simp
        ultimately show ?thesis using wf busy(1-4) by (simp add: hand_over_def)
      qed
    next
      case (SdFwrite2 d r off b n)
      then have wf: "d = job_data s" "r = job_len s" "off < job_len s"
        "b = take (sd_chunk (job_len s) off) (drop off (s_buf s ! job_data s))"
        using busy(5) by simp_all
      have le: "off + length b \<le> job_len s" using wf(3,4) by auto
      obtain w2 w where fw: "fwrite_n (wr s) (length b - n) = (w2, w)" by fastforce
      have "t = s\<lparr>wr := w, wfile := wfile s @ take w2 (drop n b), spc := SdPost True\<rparr>
          \<or> t = s\<lparr>wr := w, wfile := wfile s @ take w2 (drop n b), spc := SdLoop d r (off + length b)\<rparr>"
        using assms(1) SdFwrite2 fw by (simp add: sd_step_def Let_def split: if_splits)
      then show ?thesis using le wf(1,2) busy(1-4) by (elim disjE) (simp_all add: hand_over_def)
    qed (use assms(1) busy False in \<open>auto simp: sd_step_def hand_over_def\<close>)
  qed
  then show "hand_over t" and "sd_wf (s_buf s) (job_data s) (job_len s) (spc t)" by auto
qed

lemma sd_step_inv:
  assumes "pp_inv cap s" and "sd_step s = Some t"
  shows "pp_inv cap t"
proof -
  have "net_ok t"
    using assms(1) sd_step_frame [OF assms(2)]
    by (cases "npc s") (simp_all add: pp_inv_def net_ok_def)
  then show ?thesis
    using assms(1) sd_step_frame [OF assms(2)] sd_step_sync [OF assms(2,1)]
    by (simp add: pp_inv_def)
qed

lemma pp_step_inv: "pp_step tick cap s t \<Longrightarrow> pp_inv cap s \<Longrightarrow> pp_inv cap t"
  by (auto elim!: pp_step.cases intro: net_step_inv sd_step_inv)

lemma pp_reach_inv: "pp_reach tick cap s0 s \<Longrightarrow> pp_inv cap s0 \<Longrightarrow> pp_inv cap s"
  by (induction rule: pp_reach.induct) (auto intro: pp_step_inv)

section \<open>Every interleaving computes the sequential result\<close>

abbreviation mk_res ::
  "byte list \<Rightarrow> nat list \<Rightarrow> u32 \<Rightarrow> bool \<Rightarrow> bool \<Rightarrow> http_rd list \<Rightarrow> 'x \<Rightarrow> 'x pp_result" where
  "mk_res f w tot ne se r x \<equiv> \<lparr>res_file = f, res_wr = w, res_total = tot, res_net_error = ne,
     res_sd_error = se, res_rd = r, res_progress = x\<rparr>"

text \<open>The rest of the sequential loop after the hand-over, from the hand-over, and from the end
  of a filled buffer.\<close>

definition seq_next where
  "seq_next tick cap n r f w jerr tot x =
     (if n < cap then mk_res f w tot False jerr r x else seq_loop tick cap r f w jerr tot x)"

definition seq_kick where
  "seq_kick tick cap acc r f w tot x =
     (case sd_write acc 0 w f of (f', w', jerr) \<Rightarrow> seq_next tick cap (length acc) r f' w' jerr tot x)"

definition seq_ready where
  "seq_ready tick cap acc jerr r f w tot x =
     (if jerr then mk_res f w tot False True r x else seq_kick tick cap acc r f w tot x)"

definition seq_after where
  "seq_after tick cap nerr acc jerr r f w tot x =
     (if nerr \<or> acc = [] then mk_res f w tot nerr jerr r x
      else seq_ready tick cap acc jerr r f w tot x)"

lemma seq_loop_unfold:
  "seq_loop tick cap r f w jerr tot x =
     (case fill_buf tick cap r [] tot x of (r', acc, tot', x', nerr) \<Rightarrow>
        seq_after tick cap nerr acc jerr r' f w tot' x')"
  by (subst seq_loop.simps)
     (simp add: seq_after_def seq_ready_def seq_kick_def seq_next_def split: prod.splits)

text \<open>What the file, the write script and the job's error flag will be once the writer has
  finished the job it has (or is about to get).\<close>

definition sd_fin :: "'x pp \<Rightarrow> byte list \<times> nat list \<times> bool" where
  "sd_fin s =
     (let data = take (job_len s) (s_buf s ! job_data s) in
      case spc s of
        SdTake \<Rightarrow> if sem_job_ready s \<or> npc s = NetGive then sd_write data 0 (wr s) (wfile s)
                  else (wfile s, wr s, job_sd_error s)
      | SdStart \<Rightarrow> sd_write data 0 (wr s) (wfile s)
      | SdLoop d r off \<Rightarrow> sd_write data off (wr s) (wfile s)
      | SdFwrite d r off b \<Rightarrow> sd_write data off (wr s) (wfile s)
      | SdFwrite2 d r off b n \<Rightarrow>
          (case fwrite_n (wr s) (length b - n) of (w2, w3) \<Rightarrow>
             (let f2 = wfile s @ take w2 (drop n b) in
              if n + w2 \<noteq> length b then (f2, w3, True)
              else sd_write data (off + length b) w3 f2))
      | SdPost e \<Rightarrow> (wfile s, wr s, e)
      | SdGive \<Rightarrow> (wfile s, wr s, job_sd_error s)
      | SdExit \<Rightarrow> (wfile s, wr s, job_sd_error s))"

text \<open>The result the whole loop is going to have, as seen from any state on the way.\<close>

definition pp_out :: "(nat \<Rightarrow> 'x \<Rightarrow> 'x) \<Rightarrow> nat \<Rightarrow> 'x pp \<Rightarrow> 'x pp_result" where
  "pp_out tick cap s =
     (case sd_fin s of (f, w, je) \<Rightarrow>
        (let acc = take (buf_filled s) (s_buf s ! cur s); j = (sd_write_pending s \<and> je) in
         case npc s of
           NetRead \<Rightarrow>
             (case fill_buf tick cap (rd s) acc (total s) (progress s) of (r', acc', tot', x', ne) \<Rightarrow>
                seq_after tick cap ne acc' j r' f w tot' x')
         | NetFilled \<Rightarrow> seq_after tick cap (net_error s) acc j (rd s) f w (total s) (progress s)
         | NetWait \<Rightarrow> seq_ready tick cap acc j (rd s) f w (total s) (progress s)
         | NetKick \<Rightarrow> seq_kick tick cap acc (rd s) f w (total s) (progress s)
         | NetGive \<Rightarrow> seq_next tick cap (buf_filled s) (rd s) f w je (total s) (progress s)
         | NetSwap \<Rightarrow> seq_next tick cap (buf_filled s) (rd s) f w je (total s) (progress s)
         | NetFinal \<Rightarrow> mk_res f w (total s) (net_error s) (sd_error s \<or> j) (rd s) (progress s)
         | NetDone \<Rightarrow> mk_res f w (total s) (net_error s) (sd_error s) (rd s) (progress s)))"

lemma sd_write_done: "length data \<le> off \<Longrightarrow> sd_write data off w f = (f, w, False)"
  by (subst sd_write.simps) simp

lemma sd_chunk_job:
  assumes "job_len s \<le> cap" and "length (s_buf s ! job_data s) = cap" and "off < job_len s"
  shows "take (sd_chunk (job_len s) off) (drop off (take (job_len s) (s_buf s ! job_data s)))
           = take (sd_chunk (job_len s) off) (drop off (s_buf s ! job_data s))"
    and "length (take (sd_chunk (job_len s) off) (drop off (s_buf s ! job_data s)))
           = sd_chunk (job_len s) off"
    and "length (take (job_len s) (s_buf s ! job_data s)) = job_len s"
  using assms by (simp_all add: drop_take min.absorb1)

lemma sd_step_fin:
  assumes "pp_inv cap s" and "sd_step s = Some t"
  shows "sd_fin t = sd_fin s"
proof (cases "spc s = SdTake")
  case True
  then show ?thesis
    using assms by (auto simp: sd_step_def sd_fin_def pp_inv_def hand_over_def split: if_splits)
next
  case False
  note busy = sd_busy [OF assms(1) False] and frame = sd_step_frame [OF assms(2)]
  let ?data = "take (job_len s) (s_buf s ! job_data s)"
  show ?thesis
  proof (cases "spc s")
    case (SdLoop d r off)
    show ?thesis
    proof (cases "off < r")
      case True
      then obtain b where "t = s\<lparr>spc := SdFwrite d r off b\<rparr>"
        using assms(2) SdLoop by (auto simp: sd_step_def Let_def)
      then show ?thesis using SdLoop by (simp add: sd_fin_def)
    next
      case False
      then have "t = s\<lparr>spc := SdPost False\<rparr>" using assms(2) SdLoop by (simp add: sd_step_def)
      moreover have "length ?data \<le> off" using False busy(5) SdLoop by simp
      ultimately show ?thesis using SdLoop sd_write_done by (simp add: sd_fin_def)
    qed
  next
    case (SdFwrite d r off b)
    then have wf: "d = job_data s" "r = job_len s" "off < job_len s"
      "b = take (sd_chunk (job_len s) off) (drop off (s_buf s ! job_data s))"
      using busy(5) by simp_all
    note ch = sd_chunk_job [OF busy(8,9) wf(3)]
    obtain n w where fw: "fwrite_n (wr s) (sd_chunk (job_len s) off) = (n, w)" by fastforce
    have lb: "length b = sd_chunk (job_len s) off" using wf(4) ch(2) by simp
    have fin: "sd_fin s = sd_write ?data off (wr s) (wfile s)" using SdFwrite by (simp add: sd_fin_def)
    have unf: "sd_write ?data off (wr s) (wfile s) =
        (if n \<noteq> length b then
           (case fwrite_n w (length b - n) of (w2, w3) \<Rightarrow>
              if n + w2 \<noteq> length b then (wfile s @ take n b @ take w2 (drop n b), w3, True)
              else sd_write ?data (off + length b) w3 (wfile s @ take n b @ take w2 (drop n b)))
         else sd_write ?data (off + length b) w (wfile s @ take n b))"
      unfolding sd_write.simps [of ?data off] ch(3) Let_def ch(1) fw wf(4) [symmetric] lb
      using wf(3) by (simp split: prod.splits)
    show ?thesis
    proof (cases "n = length b")
      case True
      then have "t = s\<lparr>wr := w, wfile := wfile s @ take n b, spc := SdLoop d r (off + length b)\<rparr>"
        using assms(2) SdFwrite fw lb by (simp add: sd_step_def)
      then show ?thesis unfolding fin unf using True by (simp add: sd_fin_def)
    next
      case False
      then have "t = s\<lparr>wr := w, wfile := wfile s @ take n b, spc := SdFwrite2 d r off b n\<rparr>"
        using assms(2) SdFwrite fw lb by (simp add: sd_step_def)
      then show ?thesis unfolding fin unf using False by (simp add: sd_fin_def Let_def)
    qed
  next
    case (SdFwrite2 d r off b n)
    obtain w2 w where fw: "fwrite_n (wr s) (length b - n) = (w2, w)" by fastforce
    have t: "t = (if n + w2 \<noteq> length b
          then s\<lparr>wr := w, wfile := wfile s @ take w2 (drop n b), spc := SdPost True\<rparr>
          else s\<lparr>wr := w, wfile := wfile s @ take w2 (drop n b), spc := SdLoop d r (off + length b)\<rparr>)"
      using assms(2) SdFwrite2 fw by (simp add: sd_step_def Let_def split: if_splits)
    show ?thesis
      by (cases "n + w2 = length b") (simp_all add: t SdFwrite2 fw sd_fin_def)
  next
    case SdStart
    then have "t = s\<lparr>spc := SdLoop (job_data s) (job_len s) 0\<rparr>"
      using assms(2) busy(7) by (simp add: sd_step_def)
    then show ?thesis using SdStart by (simp add: sd_fin_def)
  next
    case (SdPost e)
    then have "t = s\<lparr>job_sd_error := e, job_done := True, spc := SdGive\<rparr>"
      using assms(2) by (simp add: sd_step_def)
    then show ?thesis using SdPost by (simp add: sd_fin_def)
  next
    case SdGive
    then have "t = s\<lparr>sem_job_done := True, spc := SdTake\<rparr>"
      using assms(2) by (simp add: sd_step_def)
    then show ?thesis using SdGive busy(2,3) by (simp add: sd_fin_def)
  qed (use False busy in simp_all)
qed

lemma sd_step_out:
  assumes "pp_inv cap s" and "sd_step s = Some t"
  shows "pp_out tick cap t = pp_out tick cap s"
  unfolding pp_out_def sd_step_fin [OF assms] sd_step_frame [OF assms(2)] ..

lemma sd_fin_idle:
  "spc s = SdTake \<Longrightarrow> \<not> sem_job_ready s \<Longrightarrow> npc s \<noteq> NetGive \<Longrightarrow> sd_fin s = (wfile s, wr s, job_sd_error s)"
  by (simp add: sd_fin_def)

lemma sd_fin_cong:
  assumes "spc t = spc s" "wr t = wr s" "wfile t = wfile s" "job_len t = job_len s"
    "job_data t = job_data s" "job_sd_error t = job_sd_error s"
    "sem_job_ready t \<or> npc t = NetGive \<longleftrightarrow> sem_job_ready s \<or> npc s = NetGive"
    "s_buf t ! job_data s = s_buf s ! job_data s"
  shows "sd_fin t = sd_fin s"
  unfolding sd_fin_def assms ..

lemma idle_or_pending:
  assumes "pp_inv cap s" and "npc s \<noteq> NetGive"
  obtains (idle) "spc s = SdTake" "\<not> sem_job_ready s" "\<not> sem_job_done s" "\<not> sd_write_pending s"
  | (pending) "sd_write_pending s"
  using assms by (cases "sd_write_pending s") (auto simp: pp_inv_def hand_over_def)

lemma fill_buf_full: "cap \<le> length acc \<Longrightarrow> fill_buf tick cap r acc tot x = (r, acc, tot, x, False)"
  by (subst fill_buf.simps) simp

lemma fill_buf_step:
  assumes "length acc < cap" "http_client_read (cap - length acc) r = (n, r')"
  shows "n = None \<Longrightarrow> fill_buf tick cap r acc tot x = (r', acc, tot, x, True)"
    and "n = Some [] \<Longrightarrow> fill_buf tick cap r acc tot x = (r', acc, tot, x, False)"
    and "n = Some bs \<Longrightarrow> bs \<noteq> [] \<Longrightarrow> fill_buf tick cap r acc tot x =
           fill_buf tick cap r' (acc @ bs) (tot + of_nat (length bs)) (tick (length bs) x)"
  using assms by (subst fill_buf.simps, simp)+

lemma net_read_out:
  assumes inv: "pp_inv cap s" and pc: "npc s = NetRead" and st: "net_step tick cap s = Some t"
  shows "pp_out tick cap t = pp_out tick cap s"
proof -
  have len: "length (take (buf_filled s) (s_buf s ! cur s)) = buf_filled s"
    using inv pp_inv_cur [OF inv] by (simp add: pp_inv_def)
  have ne: "\<not> net_error s" using inv pc by (simp add: pp_inv_def net_ok_def)
  from pc st show ?thesis
  proof (cases rule: net_step_read)
    case full
    have "sd_fin t = sd_fin s" by (rule sd_fin_cong) (simp_all add: full pc)
    then show ?thesis using full len pc ne by (simp add: pp_out_def fill_buf_full)
  next
    case (err r)
    have "sd_fin t = sd_fin s" by (rule sd_fin_cong) (simp_all add: err pc)
    then show ?thesis using err len pc by (simp add: pp_out_def fill_buf_step)
  next
    case (eof r)
    have "sd_fin t = sd_fin s" by (rule sd_fin_cong) (simp_all add: eof pc)
    then show ?thesis using eof len pc ne by (simp add: pp_out_def fill_buf_step)
  next
    case (data bs r)
    have npc: "npc s \<noteq> NetGive" using pc by simp
    have fin: "sd_fin t = sd_fin s"
    proof (cases rule: idle_or_pending [OF inv npc])
      case 1
      then show ?thesis using data(5) pc by (simp add: sd_fin_idle)
    next
      case 2
      then have "cur s \<noteq> job_data s" using inv pc by (simp add: pp_inv_def net_ok_def)
      then show ?thesis by (intro sd_fin_cong) (simp_all add: data(5) pc)
    qed
    have "cur s < length (s_buf s)" "buf_filled s + length bs \<le> length (s_buf s ! cur s)"
      using inv data(4) pp_inv_cur [OF inv] by (simp_all add: pp_inv_def bufs_ok_def)
    then have "take (buf_filled t) (s_buf t ! cur t) = take (buf_filled s) (s_buf s ! cur s) @ bs"
      using data(5) by simp
    then show ?thesis
      using fin data len pc fill_buf_step(3) [of "take (buf_filled s) (s_buf s ! cur s)" cap "rd s" "Some bs" r bs tick]
      by (simp add: pp_out_def)
  qed
qed

lemma net_step_out:
  assumes inv: "pp_inv cap s" and st: "net_step tick cap s = Some t"
  shows "pp_out tick cap t = pp_out tick cap s"
proof (cases "npc s")
  case NetRead
  then show ?thesis using net_read_out [OF inv _ st] by simp
next
  case NetFilled
  note t = net_step_filled [OF NetFilled st]
  have len: "length (take (buf_filled s) (s_buf s ! cur s)) = buf_filled s"
    using inv pp_inv_cur [OF inv] by (simp add: pp_inv_def)
  have "sd_fin t = sd_fin s" by (rule sd_fin_cong) (simp_all add: t NetFilled)
  moreover have "\<not> sd_error s" using inv NetFilled by (simp add: pp_inv_def net_ok_def)
  moreover have "take (buf_filled s) (s_buf s ! cur s) = [] \<longleftrightarrow> buf_filled s = 0"
    using len by (metis length_0_conv)
  ultimately show ?thesis
    using t NetFilled
    by (cases "net_error s \<or> buf_filled s = 0"; cases "sd_write_pending s")
       (simp_all add: pp_out_def seq_after_def seq_ready_def split: prod.splits)
next
  case NetWait
  note t = net_step_wait [OF NetWait st]
  then have "sd_fin s = (wfile s, wr s, job_sd_error s)" "sd_fin t = (wfile s, wr s, job_sd_error s)"
    using pp_inv_done [OF inv] NetWait by (simp_all add: sd_fin_idle)
  then show ?thesis
    using t NetWait inv pp_inv_done [OF inv]
    by (cases "job_sd_error s") (simp_all add: pp_out_def seq_ready_def pp_inv_def net_ok_def)
next
  case NetKick
  note t = net_step_kick [OF NetKick st]
  have idle: "spc s = SdTake" "\<not> sem_job_ready s"
    using inv NetKick by (simp_all add: pp_inv_defs)
  have len: "min (length (s_buf s ! cur s)) (buf_filled s) = buf_filled s"
    using inv pp_inv_cur [OF inv] by (simp add: pp_inv_def)
  show ?thesis
    using t NetKick idle len by (simp add: pp_out_def seq_kick_def sd_fin_def split: prod.splits)
next
  case NetGive
  note t = net_step_give [OF NetGive st]
  have "sd_fin t = sd_fin s" by (rule sd_fin_cong) (simp_all add: t NetGive)
  then show ?thesis using t NetGive by (simp add: pp_out_def)
next
  case NetSwap
  note t = net_step_swap [OF NetSwap st]
  have "sd_fin t = sd_fin s" by (rule sd_fin_cong) (simp_all add: t NetSwap)
  moreover have "sd_write_pending s" "\<not> sd_error s" "\<not> net_error s"
    using inv NetSwap by (simp_all add: pp_inv_def net_ok_def)
  ultimately show ?thesis
    using t NetSwap
    by (cases "buf_filled s < cap")
       (simp_all add: pp_out_def seq_next_def seq_loop_unfold split: prod.splits)
next
  case NetFinal
  note t = net_step_final [OF NetFinal st]
  show ?thesis
  proof (cases "sd_write_pending s")
    case True
    then have "sd_fin s = (wfile s, wr s, job_sd_error s)" "sd_fin t = (wfile s, wr s, job_sd_error s)"
      using pp_inv_done [OF inv] NetFinal t by (simp_all add: sd_fin_idle)
    then show ?thesis using t NetFinal True by (simp add: pp_out_def)
  next
    case False
    have "sd_fin t = sd_fin s" by (rule sd_fin_cong) (simp_all add: t NetFinal False)
    then show ?thesis using t NetFinal False by (simp add: pp_out_def split: prod.splits)
  qed
next
  case NetDone
  then show ?thesis using st by (simp add: net_step_done)
qed

lemma pp_reach_out:
  "pp_reach tick cap s0 s \<Longrightarrow> pp_inv cap s0 \<Longrightarrow> pp_out tick cap s = pp_out tick cap s0"
proof (induction rule: pp_reach.induct)
  case (step s t)
  then have "pp_inv cap s" by (blast intro: pp_reach_inv)
  with step show ?case by (auto elim!: pp_step.cases simp: net_step_out sd_step_out)
qed simp

text \<open>The loop's results in a state of the two tasks.\<close>

definition pp_result_of :: "'x pp \<Rightarrow> 'x pp_result" where
  "pp_result_of s = \<lparr>res_file = wfile s, res_wr = wr s, res_total = total s,
     res_net_error = net_error s, res_sd_error = sd_error s, res_rd = rd s, res_progress = progress s\<rparr>"

lemma pp_out_start: "pp_out tick cap (pp_start b0 b1 r w x) = seq_loop tick cap r [] w False 0 x"
  by (simp add: pp_out_def pp_start_def sd_fin_def seq_loop_unfold)

lemma pp_out_done:
  assumes "pp_inv cap s" and "npc s = NetDone"
  shows "pp_out tick cap s = pp_result_of s"
proof -
  have "spc s = SdTake" "\<not> sem_job_ready s" using assms by (simp_all add: pp_inv_defs)
  then show ?thesis using assms(2) by (simp add: pp_out_def sd_fin_def pp_result_of_def)
qed

section \<open>What the sequential loop computes\<close>

text \<open>The bytes a body script delivers before it ends or fails, and whether it fails.\<close>

fun body_bytes :: "http_rd list \<Rightarrow> byte list" where
  "body_bytes [] = []"
| "body_bytes (RdErr # r) = []"
| "body_bytes (RdData bs # r) = (if bs = [] then [] else bs @ body_bytes r)"

fun body_fails :: "http_rd list \<Rightarrow> bool" where
  "body_fails [] = False"
| "body_fails (RdErr # r) = True"
| "body_fails (RdData bs # r) = (if bs = [] then False else body_fails r)"

lemma http_client_read_body:
  assumes "http_client_read len r = (n, r')" and "0 < len"
  shows "n = None \<Longrightarrow> body_bytes r = [] \<and> body_fails r"
    and "n = Some [] \<Longrightarrow> body_bytes r = [] \<and> \<not> body_fails r"
    and "n = Some bs \<Longrightarrow> bs \<noteq> [] \<Longrightarrow> body_bytes r = bs @ body_bytes r' \<and> body_fails r = body_fails r'"
  using assms by (cases "(len, r)" rule: http_client_read.cases; auto split: if_splits)+

lemma fill_buf_body:
  assumes "fill_buf tick cap r acc tot x = (r', acc', tot', x', ne)" and "length acc \<le> cap"
  shows "\<exists>bs. acc' = acc @ bs \<and> length acc' \<le> cap \<and> tot' = tot + of_nat (length bs) \<and>
     (if ne then bs = body_bytes r \<and> body_fails r
      else if length acc' < cap then bs = body_bytes r \<and> \<not> body_fails r
      else body_bytes r = bs @ body_bytes r' \<and> body_fails r = body_fails r')"
  using assms
proof (induction tick cap r acc tot x rule: fill_buf.induct)
  case (1 tick cap r acc tot x)
  show ?case
  proof (cases "length acc < cap")
    case False
    then show ?thesis using 1(2,3) by (simp add: fill_buf_full)
  next
    case True
    obtain n r1 where h: "http_client_read (cap - length acc) r = (n, r1)" by fastforce
    note body = http_client_read_body [OF h] and st = fill_buf_step [OF True h]
    consider (err) "n = None" | (eof) "n = Some []" | (more) bs where "n = Some bs" "bs \<noteq> []"
      by (cases n) auto
    then show ?thesis
    proof cases
      case err
      then show ?thesis using body(1) st(1) [of tick tot x] 1(2) True by auto
    next
      case eof
      then show ?thesis using body(2) st(2) [of tick tot x] 1(2) True by auto
    next
      case (more bs)
      have "length (acc @ bs) \<le> cap" using http_client_read_len h more(1) True by fastforce
      moreover have "fill_buf tick cap r1 (acc @ bs) (tot + of_nat (length bs)) (tick (length bs) x)
          = (r', acc', tot', x', ne)" using 1(2) unfolding st(3) [OF more] .
      ultimately obtain cs where cs: "acc' = (acc @ bs) @ cs" "length acc' \<le> cap"
        "tot' = tot + of_nat (length bs) + of_nat (length cs)"
        "if ne then cs = body_bytes r1 \<and> body_fails r1
         else if length acc' < cap then cs = body_bytes r1 \<and> \<not> body_fails r1
         else body_bytes r1 = cs @ body_bytes r' \<and> body_fails r1 = body_fails r'"
        using 1(1) [OF True h [symmetric] more] by blast
      have b: "body_bytes r = bs @ body_bytes r1" "body_fails r = body_fails r1"
        using body(3) [OF _ more] True by simp_all
      show ?thesis
      proof (intro exI [of _ "bs @ cs"] conjI)
        show "acc' = acc @ bs @ cs" "length acc' \<le> cap" using cs(1,2) by simp_all
        show "tot' = tot + of_nat (length (bs @ cs))" using cs(3) by (simp add: add.assoc)
        show "if ne then bs @ cs = body_bytes r \<and> body_fails r
          else if length acc' < cap then bs @ cs = body_bytes r \<and> \<not> body_fails r
          else body_bytes r = (bs @ cs) @ body_bytes r' \<and> body_fails r = body_fails r'"
          unfolding b using cs(4) by (metis append_assoc)
      qed
    qed
  qed
qed

lemma sd_write_file:
  assumes "sd_write data off w f = (f', w', e)" and "off \<le> length data"
  shows "\<exists>p q. drop off data = p @ q \<and> f' = f @ p \<and> (\<not> e \<longrightarrow> q = [])"
  using assms
proof (induction data off w f rule: sd_write.induct)
  case (1 data off w f)
  show ?case
  proof (cases "off < length data")
    case False
    then show ?thesis using 1(3,4) by (simp add: sd_write_done)
  next
    case True
    let ?chunk = "sd_chunk (length data) off"
    define b where "b = take ?chunk (drop off data)"
    obtain n w1 where n: "fwrite_n w ?chunk = (n, w1)" by fastforce
    obtain m w3 where m: "fwrite_n w1 (?chunk - n) = (m, w3)" by fastforce
    have split: "drop off data = b @ drop (off + ?chunk) data"
      unfolding b_def by (metis append_take_drop_id drop_drop add.commute)
    have le: "off + ?chunk \<le> length data" using True by simp
    have lb: "length b = ?chunk" using True by (simp add: b_def)
    have unf: "sd_write data off w f =
        (if n \<noteq> ?chunk then
           if n + m \<noteq> ?chunk then (f @ take (n + m) b, w3, True)
           else sd_write data (off + ?chunk) w3 (f @ b)
         else sd_write data (off + ?chunk) w1 (f @ b))"
      using True n m lb by (subst sd_write.simps) (simp add: Let_def take_add flip: b_def)
    consider (full) "n = ?chunk" | (retry) "n \<noteq> ?chunk" "n + m = ?chunk" | (fail) "n \<noteq> ?chunk" "n + m \<noteq> ?chunk"
      by blast
    then show ?thesis
    proof cases
      case full
      have "f @ take n b = f @ b" using full lb by simp
      then obtain p q where "drop (off + ?chunk) data = p @ q" "f' = (f @ b) @ p" "\<not> e \<longrightarrow> q = []"
        using 1(2) [OF True refl b_def n [symmetric] refl] full 1(3) unf le by auto
      then show ?thesis using split by (intro exI [of _ "b @ p"] exI [of _ q]) simp
    next
      case retry
      have "(f @ take n b) @ take m (drop n b) = f @ b" using retry lb by (simp add: take_add [symmetric])
      then obtain p q where "drop (off + ?chunk) data = p @ q" "f' = (f @ b) @ p" "\<not> e \<longrightarrow> q = []"
        using 1(1) [OF True refl b_def n [symmetric] refl _ m [symmetric] refl] retry 1(3) unf le by auto
      then show ?thesis using split by (intro exI [of _ "b @ p"] exI [of _ q]) simp
    next
      case fail
      then have "f' = f @ take (n + m) b" "e" using 1(3) unf by auto
      moreover have "drop off data = take (n + m) b @ drop (n + m) b @ drop (off + ?chunk) data"
        using split by (metis append_assoc append_take_drop_id)
      ultimately show ?thesis by blast
    qed
  qed
qed

lemma sd_write_no_faults: "sd_write data off [] f = (f @ drop off data, [], False)" if "off \<le> length data"
  using that
proof (induction "length data - off" arbitrary: off f rule: less_induct)
  case less
  show ?case
  proof (cases "off < length data")
    case True
    let ?chunk = "sd_chunk (length data) off"
    have "sd_write data off [] f = sd_write data (off + ?chunk) [] (f @ take ?chunk (drop off data))"
      using True by (subst sd_write.simps) (simp add: Let_def)
    also have "\<dots> = ((f @ take ?chunk (drop off data)) @ drop (off + ?chunk) data, [], False)"
      using True sd_write_measure by (intro less.hyps) auto
    also have "(f @ take ?chunk (drop off data)) @ drop (off + ?chunk) data = f @ drop off data"
      by (metis append_assoc append_take_drop_id drop_drop add.commute)
    finally show ?thesis .
  qed (use less.prems in \<open>simp add: sd_write_done\<close>)
qed

lemma seq_loop_file:
  assumes "0 < cap"
  shows "(\<exists>p q. body_bytes r = p @ q \<and> res_file (seq_loop tick cap r f w jerr tot x) = f @ p) \<and>
    (\<not> res_net_error (seq_loop tick cap r f w jerr tot x) \<and>
     \<not> res_sd_error (seq_loop tick cap r f w jerr tot x) \<longrightarrow>
       res_file (seq_loop tick cap r f w jerr tot x) = f @ body_bytes r \<and> \<not> body_fails r \<and>
       res_total (seq_loop tick cap r f w jerr tot x) = tot + of_nat (length (body_bytes r))) \<and>
    (w = [] \<and> \<not> jerr \<longrightarrow>
       \<not> res_sd_error (seq_loop tick cap r f w jerr tot x) \<and>
       res_net_error (seq_loop tick cap r f w jerr tot x) = body_fails r)"
  using assms
proof (induction tick cap r f w jerr tot x rule: seq_loop.induct)
  case (1 tick cap r f w jerr tot x)
  obtain r' acc tot' x' ne where fb: "fill_buf tick cap r [] tot x = (r', acc, tot', x', ne)"
    by (metis prod_cases5)
  have acc: "length acc \<le> cap" "tot' = tot + of_nat (length acc)"
    "if ne then acc = body_bytes r \<and> body_fails r
     else if length acc < cap then acc = body_bytes r \<and> \<not> body_fails r
     else body_bytes r = acc @ body_bytes r' \<and> body_fails r = body_fails r'"
    using fill_buf_body [OF fb] by auto
  obtain f' w' je where sw: "sd_write acc 0 w f = (f', w', je)" by (metis prod_cases3)
  obtain p q where pq: "acc = p @ q" "f' = f @ p" "\<not> je \<longrightarrow> q = []"
    using sd_write_file [OF sw] by auto
  have w0: "w = [] \<Longrightarrow> f' = f @ acc \<and> w' = [] \<and> \<not> je"
    using sw sd_write_no_faults [of 0 acc f] by auto
  let ?z = "seq_loop tick cap r f w jerr tot x"
  consider (stop) "ne \<or> acc = []" | (sderr) "\<not> ne" "acc \<noteq> []" "jerr"
    | (last) "\<not> ne" "acc \<noteq> []" "\<not> jerr" "length acc < cap"
    | (more) "\<not> ne" "acc \<noteq> []" "\<not> jerr" "\<not> length acc < cap" by blast
  then show ?case
  proof cases
    case stop
    then have z: "?z = mk_res f w tot' ne jerr r' x'" by (subst seq_loop.simps) (simp add: fb)
    have "\<not> ne \<Longrightarrow> length acc < cap" using stop 1(2) by auto
    then have b: "body_bytes r = acc" "body_fails r = ne" using acc(3) by presburger+
    show ?thesis unfolding z b using acc(2) stop by auto
  next
    case sderr
    then have z: "?z = mk_res f w tot' False True r' x'" by (subst seq_loop.simps) (simp add: fb)
    show ?thesis unfolding z using sderr by auto
  next
    case last
    then have z: "?z = mk_res f' w' tot' False je r' x'" by (subst seq_loop.simps) (simp add: fb sw)
    have b: "acc = body_bytes r" "\<not> body_fails r" using last acc(3) by auto
    have "body_bytes r = p @ q" "\<not> je \<longrightarrow> p = acc" using pq b by auto
    then show ?thesis unfolding z using w0 acc(2) b pq(2) by auto
  next
    case more
    then have z: "?z = seq_loop tick cap r' f' w' je tot' x'" by (subst seq_loop.simps) (simp add: fb sw)
    let ?y = "seq_loop tick cap r' f' w' je tot' x'"
    have b: "body_bytes r = acc @ body_bytes r'" "body_fails r = body_fails r'" using more acc(3) by auto
    have IH: "(\<exists>p q. body_bytes r' = p @ q \<and> res_file ?y = f' @ p)"
      "\<not> res_net_error ?y \<Longrightarrow> \<not> res_sd_error ?y \<Longrightarrow>
         res_file ?y = f' @ body_bytes r' \<and> \<not> body_fails r' \<and> res_total ?y = tot' + of_nat (length (body_bytes r'))"
      "w' = [] \<Longrightarrow> \<not> je \<Longrightarrow> \<not> res_sd_error ?y \<and> res_net_error ?y = body_fails r'"
      using 1(1) [OF fb [symmetric] refl refl refl _ _ sw [symmetric] refl] more 1(2) by auto
    have je: "res_file ?y = f' \<and> (res_sd_error ?y \<or> res_net_error ?y)" if "je"
      using that by (subst (1 2 3) seq_loop.simps) (auto split: prod.splits)
    show ?thesis unfolding z
    proof (cases je)
      case True
      then show "(\<exists>p q. body_bytes r = p @ q \<and> res_file ?y = f @ p) \<and>
        (\<not> res_net_error ?y \<and> \<not> res_sd_error ?y \<longrightarrow> res_file ?y = f @ body_bytes r \<and> \<not> body_fails r \<and>
          res_total ?y = tot + of_nat (length (body_bytes r))) \<and>
        (w = [] \<and> \<not> jerr \<longrightarrow> \<not> res_sd_error ?y \<and> res_net_error ?y = body_fails r)"
        using je [OF True] w0 pq b by auto
    next
      case False
      then have "f' = f @ acc" using pq by simp
      then show "(\<exists>p q. body_bytes r = p @ q \<and> res_file ?y = f @ p) \<and>
        (\<not> res_net_error ?y \<and> \<not> res_sd_error ?y \<longrightarrow> res_file ?y = f @ body_bytes r \<and> \<not> body_fails r \<and>
          res_total ?y = tot + of_nat (length (body_bytes r))) \<and>
        (w = [] \<and> \<not> jerr \<longrightarrow> \<not> res_sd_error ?y \<and> res_net_error ?y = body_fails r)"
        using IH w0 b acc(2) False by (auto simp: add.assoc)
    qed
  qed
qed

section \<open>Progress\<close>

text \<open>A bound on the steps left. A byte still to be read pays for the job that will carry it;
  a filled buffer pays for its own job; a job in flight counts the writer's remaining steps.\<close>

fun net_rank :: "net_pc \<Rightarrow> nat" where
  "net_rank NetGive = 12"
| "net_rank NetSwap = 11"
| "net_rank NetRead = 10"
| "net_rank NetFilled = 9"
| "net_rank NetWait = 8"
| "net_rank NetKick = 7"
| "net_rank NetFinal = 1"
| "net_rank NetDone = 0"

definition has_token :: "'x pp \<Rightarrow> nat" where
  "has_token s = (if buf_filled s > 0 \<and> npc s \<in> {NetRead, NetFilled, NetWait, NetKick} then 1 else 0)"

definition sd_rank :: "'x pp \<Rightarrow> nat" where
  "sd_rank s =
     (case spc s of
        SdTake \<Rightarrow> if sem_job_ready s \<or> npc s = NetGive then 3 * job_len s + 7 else 0
      | SdStart \<Rightarrow> 3 * job_len s + 6
      | SdLoop d r off \<Rightarrow> 3 * (r - off) + 5
      | SdFwrite d r off b \<Rightarrow> 3 * (r - off) + 4
      | SdFwrite2 d r off b n \<Rightarrow> 3 * (r - off) + 3
      | SdPost e \<Rightarrow> 2
      | SdGive \<Rightarrow> 1
      | SdExit \<Rightarrow> 0)"

definition pp_rank :: "nat \<Rightarrow> 'x pp \<Rightarrow> nat" where
  "pp_rank cap s = (3 * cap + 14) * rd_size (rd s) + (3 * cap + 13) * has_token s
                   + net_rank (npc s) + sd_rank s"

lemma sd_rank_step:
  assumes "pp_inv cap s" and "sd_step s = Some t"
  shows "sd_rank t < sd_rank s"
proof (cases "spc s = SdTake")
  case True
  then show ?thesis using assms(2) by (auto simp: sd_step_def sd_rank_def split: if_splits)
next
  case False
  note busy = sd_busy [OF assms(1) False]
  show ?thesis
  proof (cases "spc s")
    case (SdLoop d r off)
    then show ?thesis
      using assms(2) by (auto simp: sd_step_def sd_rank_def Let_def split: if_splits)
  next
    case (SdFwrite d r off b)
    then have b: "off < job_len s" "length b = sd_chunk (job_len s) off" "r = job_len s"
      using busy(5,8,9) sd_chunk_job(2) [OF busy(8,9), of off] by auto
    then have "job_len s - (off + length b) < job_len s - off" using sd_write_measure by simp
    moreover obtain n w where "fwrite_n (wr s) (length b) = (n, w)" by fastforce
    ultimately show ?thesis
      using assms(2) SdFwrite b(3) by (cases "n = length b") (auto simp: sd_step_def sd_rank_def)
  next
    case (SdFwrite2 d r off b n)
    then have b: "off < job_len s" "length b = sd_chunk (job_len s) off" "r = job_len s"
      using busy(5,8,9) sd_chunk_job(2) [OF busy(8,9), of off] by auto
    then have "job_len s - (off + length b) < job_len s - off" using sd_write_measure by simp
    moreover obtain m w where "fwrite_n (wr s) (length b - n) = (m, w)" by fastforce
    ultimately show ?thesis
      using assms(2) SdFwrite2 b(3) by (cases "n + m = length b") (auto simp: sd_step_def sd_rank_def)
  qed (use assms(2) busy False in \<open>auto simp: sd_step_def sd_rank_def\<close>)
qed

lemma rank_sd:
  assumes "pp_inv cap s" and "sd_step s = Some t"
  shows "pp_rank cap t < pp_rank cap s"
  using sd_rank_step [OF assms] sd_step_frame [OF assms(2)] by (simp add: pp_rank_def has_token_def)

lemma sd_rank_cong:
  assumes "spc t = spc s" "job_len t = job_len s"
    "sem_job_ready t \<or> npc t = NetGive \<longleftrightarrow> sem_job_ready s \<or> npc s = NetGive"
  shows "sd_rank t = sd_rank s"
  unfolding sd_rank_def assms ..

lemma http_client_read_size_le: "http_client_read len r = (n, r') \<Longrightarrow> rd_size r' \<le> rd_size r"
  by (cases "(len, r)" rule: http_client_read.cases) (auto split: if_splits)

lemma rank_net_read:
  assumes "npc s = NetRead" and "net_step tick cap s = Some t"
  shows "pp_rank cap t < pp_rank cap s"
  using assms
proof (cases rule: net_step_read)
  case full
  have "sd_rank t = sd_rank s" by (rule sd_rank_cong) (simp_all add: full assms(1))
  then show ?thesis using full assms(1) by (simp add: pp_rank_def has_token_def)
next
  case (err r)
  have "sd_rank t = sd_rank s" by (rule sd_rank_cong) (simp_all add: err assms(1))
  moreover have "(3 * cap + 14) * rd_size r \<le> (3 * cap + 14) * rd_size (rd s)"
    using http_client_read_size_le [OF err(2)] by simp
  ultimately show ?thesis
    using err(3) assms(1) by (simp add: pp_rank_def has_token_def less_Suc_eq_le)
next
  case (eof r)
  have "sd_rank t = sd_rank s" by (rule sd_rank_cong) (simp_all add: eof assms(1))
  moreover have "(3 * cap + 14) * rd_size r \<le> (3 * cap + 14) * rd_size (rd s)"
    using http_client_read_size_le [OF eof(2)] by simp
  ultimately show ?thesis
    using eof(3) assms(1) by (simp add: pp_rank_def has_token_def less_Suc_eq_le)
next
  case (data bs r)
  have "sd_rank t = sd_rank s" by (rule sd_rank_cong) (simp_all add: data assms(1))
  moreover have lt: "rd_size r < rd_size (rd s)"
    using http_client_read_size data(2,3) by (metis list.exhaust)
  then have "(3 * cap + 14) * Suc (rd_size r) \<le> (3 * cap + 14) * rd_size (rd s)"
    by (intro mult_le_mono2) simp
  ultimately show ?thesis using lt data(3,5) assms(1) by (simp add: pp_rank_def has_token_def)
qed

lemma rank_net:
  assumes inv: "pp_inv cap s" and st: "net_step tick cap s = Some t"
  shows "pp_rank cap t < pp_rank cap s"
proof (cases "npc s")
  case NetRead
  then show ?thesis using rank_net_read st by blast
next
  case NetFilled
  note t = net_step_filled [OF NetFilled st]
  have "sd_rank t = sd_rank s" by (rule sd_rank_cong) (simp_all add: t NetFilled)
  then show ?thesis
    using NetFilled t
    by (cases "net_error s \<or> buf_filled s = 0"; cases "sd_write_pending s")
       (simp_all add: pp_rank_def has_token_def)
next
  case NetWait
  note t = net_step_wait [OF NetWait st]
  have "sd_rank t = sd_rank s"
    by (rule sd_rank_cong; cases "job_sd_error s") (simp_all add: t NetWait)
  then show ?thesis
    using NetWait t by (cases "job_sd_error s") (simp_all add: pp_rank_def has_token_def)
next
  case NetKick
  note t = net_step_kick [OF NetKick st]
  have "spc s = SdTake" "\<not> sem_job_ready s" "buf_filled s \<le> cap"
    using inv NetKick by (simp_all add: pp_inv_defs)
  then have "sd_rank t \<le> 3 * cap + 7" "sd_rank s = 0" "has_token t = 0"
    using t NetKick by (simp_all add: sd_rank_def has_token_def)
  moreover have "has_token s = 1" using inv NetKick by (simp add: pp_inv_def net_ok_def has_token_def)
  ultimately show ?thesis using t NetKick by (simp add: pp_rank_def)
next
  case NetGive
  note t = net_step_give [OF NetGive st]
  have "sd_rank t = sd_rank s" by (rule sd_rank_cong) (simp_all add: t NetGive)
  then show ?thesis using NetGive t by (simp add: pp_rank_def has_token_def)
next
  case NetSwap
  note t = net_step_swap [OF NetSwap st]
  have "sd_rank t = sd_rank s" by (rule sd_rank_cong) (simp_all add: t NetSwap)
  then show ?thesis
    using NetSwap t by (cases "buf_filled s < cap") (simp_all add: pp_rank_def has_token_def)
next
  case NetFinal
  note t = net_step_final [OF NetFinal st]
  have "sd_rank t = sd_rank s" by (rule sd_rank_cong) (simp_all add: t NetFinal)
  then show ?thesis
    using NetFinal t by (cases "sd_write_pending s") (simp_all add: pp_rank_def has_token_def)
next
  case NetDone
  then show ?thesis using st by (simp add: net_step_done)
qed

lemma rank_step: "pp_inv cap s \<Longrightarrow> pp_step tick cap s t \<Longrightarrow> pp_rank cap t < pp_rank cap s"
  by (auto elim!: pp_step.cases intro: rank_net rank_sd)

lemma pp_rank_start: "pp_rank cap (pp_start b0 b1 r w x) = (3 * cap + 14) * rd_size r + 10"
  by (simp add: pp_rank_def pp_start_def has_token_def sd_rank_def)

lemma pp_steps_rank:
  "(pp_step tick cap ^^ n) s t \<Longrightarrow> pp_inv cap s \<Longrightarrow> n + pp_rank cap t \<le> pp_rank cap s \<and> pp_inv cap t"
proof (induction n arbitrary: t)
  case (Suc n)
  then obtain u where u: "(pp_step tick cap ^^ n) s u" "pp_step tick cap u t" by auto
  with Suc have "n + pp_rank cap u \<le> pp_rank cap s" "pp_inv cap u" by auto
  then show ?case using rank_step [of cap u tick t] pp_step_inv [of tick cap u t] u(2) by simp
qed simp

lemma pp_not_stuck:
  assumes inv: "pp_inv cap s" and "npc s \<noteq> NetDone"
  shows "\<exists>t. pp_step tick cap s t"
proof (cases "net_step tick cap s")
  case (Some t)
  then show ?thesis using pp_step.net by blast
next
  case None
  have "npc s = NetWait \<or> npc s = NetFinal"
    using None assms(2)
    by (cases "npc s") (simp_all add: net_step_def Let_def split: if_splits prod.splits option.splits)
  then have "sd_write_pending s \<and> \<not> sem_job_done s"
    using None inv by (elim disjE) (simp_all add: net_step_def Let_def pp_inv_def net_ok_def split: if_splits)
  then have "(spc s = SdTake \<longleftrightarrow> sem_job_ready s)"
    using inv \<open>npc s = NetWait \<or> npc s = NetFinal\<close> by (auto simp: pp_inv_def hand_over_def)
  moreover have "spc s \<noteq> SdExit" using inv by (auto simp: pp_inv_def)
  ultimately have "sd_step s \<noteq> None"
    by (cases "spc s") (simp_all add: sd_step_def Let_def split: prod.splits)
  then show ?thesis using pp_step.sd by blast
qed

text \<open>A schedule of the two tasks (\<open>True\<close>: the network task moves), to run the model.\<close>

fun pp_run :: "(nat \<Rightarrow> 'x \<Rightarrow> 'x) \<Rightarrow> nat \<Rightarrow> bool list \<Rightarrow> 'x pp \<Rightarrow> 'x pp option" where
  "pp_run tick cap [] s = Some s"
| "pp_run tick cap (b # bs) s =
     (case (if b then net_step tick cap s else sd_step s) of
        None \<Rightarrow> None
      | Some t \<Rightarrow> pp_run tick cap bs t)"

lemma pp_run_reach_from:
  "pp_run tick cap bs s = Some t \<Longrightarrow> pp_reach tick cap s0 s \<Longrightarrow> pp_reach tick cap s0 t"
  by (induction bs arbitrary: s)
     (auto split: option.splits if_splits intro: pp_reach.step pp_step.intros)

lemma pp_run_reach: "pp_run tick cap bs s = Some t \<Longrightarrow> pp_reach tick cap s t"
  by (rule pp_run_reach_from [OF _ pp_reach.start])

lemma pp_run_steps: "pp_run tick cap bs s = Some t \<Longrightarrow> (pp_step tick cap ^^ length bs) s t"
  by (induction bs arbitrary: s)
     (auto simp del: relpowp.simps(2) split: option.splits if_splits
        intro: relpowp_Suc_I2 pp_step.intros)

section \<open>Properties\<close>

text \<open>C21. No data race: whenever the network task may store received bytes into its buffer while
  the SD writer is copying from one, the two buffers differ, and the bytes the writer copies lie
  within the buffer it was given.\<close>

theorem pp_no_data_race:
  assumes "length b0 = cap" "length b1 = cap"
    and "pp_reach tick cap (pp_start b0 b1 r w x) s"
    and "npc s = NetRead" and "spc s = SdLoop d n off"
  shows "d \<noteq> cur s \<and> d < 2 \<and> cur s < 2 \<and> off \<le> n \<and> n \<le> length (s_buf s ! d) \<and>
         buf_filled s \<le> length (s_buf s ! cur s)"
proof -
  have inv: "pp_inv cap s" using pp_reach_inv [OF assms(3) pp_inv_start [OF assms(1,2)]] .
  have "spc s \<noteq> SdTake" using assms(5) by simp
  note busy = sd_busy [OF inv this]
  have "d = job_data s" "n = job_len s" "off \<le> n" using busy(5) assms(5) by simp_all
  then show ?thesis
    using inv busy(1,8,9) assms(4) pp_inv_cur [OF inv] by (auto simp: pp_inv_def net_ok_def)
qed

text \<open>C5. Refinement: whatever the interleaving of the network task and the SD writer, the run
  ends with the file, the byte count, the error flags and the progress of the sequential loop
  that writes each buffer at once.\<close>

theorem pp_refines_sequential:
  assumes "length b0 = cap" "length b1 = cap"
    and "pp_reach tick cap (pp_start b0 b1 r w x) s" and "npc s = NetDone"
  shows "pp_result_of s = seq_loop tick cap r [] w False 0 x"
proof -
  note start = pp_inv_start [OF assms(1,2)]
  show ?thesis
    using pp_reach_out [OF assms(3) start] pp_out_start
      pp_out_done [OF pp_reach_inv [OF assms(3) start] assms(4)]
    by metis
qed

text \<open>C19. What the loop writes: the file is always a prefix of the received body; without a
  network or card error it is the whole body and the byte count is its length (modulo
  \<^verbatim>\<open>2^32\<close>); and a run with no failing \<^verbatim>\<open>fwrite\<close> reports no card error and a network error
  exactly when the body failed.\<close>

theorem seq_loop_writes_body:
  assumes "0 < cap" and "seq_loop tick cap r [] w False 0 x = z"
  shows "take (length (res_file z)) (body_bytes r) = res_file z \<and>
    (\<not> res_net_error z \<and> \<not> res_sd_error z \<longrightarrow>
       res_file z = body_bytes r \<and> \<not> body_fails r \<and> res_total z = of_nat (length (body_bytes r))) \<and>
    (w = [] \<longrightarrow> \<not> res_sd_error z \<and> res_net_error z = body_fails r)"
  using seq_loop_file [OF assms(1), of r tick "[]" w False 0 x] unfolding assms(2) by auto

text \<open>C22. Deadlock freedom: until the network task has left the loop, one of the tasks can
  move.\<close>

theorem pp_deadlock_free:
  assumes "length b0 = cap" "length b1 = cap"
    and "pp_reach tick cap (pp_start b0 b1 r w x) s" and "npc s \<noteq> NetDone"
  shows "\<exists>t. pp_step tick cap s t"
  using pp_not_stuck [OF pp_reach_inv [OF assms(3) pp_inv_start [OF assms(1,2)]] assms(4)] .

text \<open>C23. Termination: no run of the two tasks, under any schedule, has more steps than a bound
  linear in the size of the body script.\<close>

theorem pp_terminates:
  assumes "length b0 = cap" "length b1 = cap"
    and "(pp_step tick cap ^^ n) (pp_start b0 b1 r w x) s"
  shows "n \<le> (3 * cap + 14) * rd_size r + 10"
  using pp_steps_rank [OF assms(3) pp_inv_start [OF assms(1,2)]] by (simp add: pp_rank_start)

subsection \<open>Witnesses\<close>

text \<open>A body of two buffers of one byte; the writer drains the first while the second is filled.\<close>

abbreviation pp_demo :: "unit pp" where
  "pp_demo \<equiv> pp_start [0] [0] [RdData [7, 9]] [] ()"

abbreviation demo_tick :: "nat \<Rightarrow> unit \<Rightarrow> unit" where "demo_tick \<equiv> \<lambda>_ x. x"

abbreviation pp_demo_racy :: "bool list" where
  "pp_demo_racy \<equiv> [True, True, True, True, True, True, False, False]"

abbreviation pp_demo_sched :: "bool list" where
  "pp_demo_sched \<equiv> pp_demo_racy @ [True, False, False, True, True, False, False, False,
     True, True, True, True, True, True, False, False, False, False, False, False, False, True]"

lemmas pp_exec = pp_start_def net_step_def sd_step_def Let_def BOUNCE_SIZE_def mem_write_def

lemma pp_demo_overlap:
  "\<exists>s. pp_run demo_tick 1 pp_demo_racy pp_demo = Some s \<and> npc s = NetRead \<and> spc s = SdLoop 0 1 0"
  by (simp add: pp_exec)

lemma pp_demo_done:
  "\<exists>s. pp_run demo_tick 1 pp_demo_sched pp_demo = Some s \<and> npc s = NetDone \<and> wfile s = [7, 9]"
  by (simp add: pp_exec)

lemma pp_no_data_race_witness:
  "\<exists>s. pp_reach demo_tick 1 pp_demo s \<and> npc s = NetRead \<and> spc s = SdLoop 0 1 0 \<and> (0 :: nat) \<noteq> cur s"
proof -
  obtain s where s: "pp_run demo_tick 1 pp_demo_racy pp_demo = Some s" "npc s = NetRead" "spc s = SdLoop 0 1 0"
    using pp_demo_overlap by blast
  note reach = pp_run_reach [OF s(1)]
  have "(0 :: nat) \<noteq> cur s" using pp_no_data_race [OF _ _ reach s(2,3)] by simp
  then show ?thesis using reach s(2,3) by blast
qed

lemma pp_refines_sequential_witness:
  "\<exists>s. pp_reach demo_tick 1 pp_demo s \<and> npc s = NetDone \<and> wfile s = [7, 9] \<and>
       pp_result_of s = seq_loop demo_tick 1 [RdData [7, 9]] [] [] False 0 ()"
proof -
  obtain s where s: "pp_run demo_tick 1 pp_demo_sched pp_demo = Some s" "npc s = NetDone" "wfile s = [7, 9]"
    using pp_demo_done by blast
  note reach = pp_run_reach [OF s(1)]
  have "pp_result_of s = seq_loop demo_tick 1 [RdData [7, 9]] [] [] False 0 ()"
    using pp_refines_sequential [OF _ _ reach s(2)] by simp
  then show ?thesis using reach s(2,3) by blast
qed

lemma seq_loop_writes_body_witness:
  "\<not> res_sd_error (seq_loop demo_tick 1 [RdData [7, 9]] [] [] False 0 ()) \<and>
   res_file (seq_loop demo_tick 1 [RdData [7, 9]] [] [] False 0 ()) = [7, 9]"
  using seq_loop_writes_body [of 1 demo_tick "[RdData [7, 9]]" "[]" "()", OF _ refl] by simp

lemma pp_deadlock_free_witness:
  "\<exists>s t. pp_reach demo_tick 1 pp_demo s \<and> npc s \<noteq> NetDone \<and> pp_step demo_tick 1 s t"
proof -
  obtain s where s: "pp_run demo_tick 1 pp_demo_racy pp_demo = Some s" "npc s = NetRead"
    using pp_demo_overlap by blast
  then have n: "npc s \<noteq> NetDone" by simp
  note reach = pp_run_reach [OF s(1)]
  have "\<exists>t. pp_step demo_tick 1 s t" using pp_deadlock_free [OF _ _ reach n] by simp
  then show ?thesis using reach n by blast
qed

lemma pp_terminates_witness:
  "\<exists>s. (pp_step demo_tick 1 ^^ length pp_demo_sched) pp_demo s \<and> length pp_demo_sched \<le> 61"
proof -
  obtain s where s: "pp_run demo_tick 1 pp_demo_sched pp_demo = Some s" using pp_demo_done by blast
  have "length pp_demo_sched \<le> (3 * 1 + 14) * rd_size [RdData [7, 9]] + 10"
    by (rule pp_terminates [OF _ _ pp_run_steps [OF s]]) simp_all
  then show ?thesis using pp_run_steps [OF s] by (intro exI [of _ s] conjI) simp_all
qed

end
