(* ===== verification/HttpPool.thy ===== *)
theory HttpPool
  imports PingPong
begin

text \<open>
  The HTTP connection pool of \<^verbatim>\<open>src/src/simibox_download.cpp\<close>: one client handle kept for the last
  host, handed out again while the host stays the same, and the connection attempt with one
  retry on a stale connection. The HTTP client is a parameter: what its calls answer comes from
  the scripts \<open>inits\<close> and \<open>sessions\<close>. Each handle initialised is listed in \<open>live\<close> until it is
  cleaned up; every call on a handle that is not live (open, fetching the headers, the status,
  reading, a whole request, close, cleanup) sets \<open>misuse\<close>, so that use after free, double
  free and leaks are visible.
\<close>

section \<open>Client library\<close>

text \<open>What one \<^verbatim>\<open>esp_http_client_open\<close> leads to: its error code, the content length and status that
  the headers carry, and the body.\<close>

record http_session =
  ses_err :: esp_err
  ses_clen :: int
  ses_status :: int
  ses_body :: "http_rd list"

record http_st =
  s_http_client :: "nat option"
  s_http_base_host :: string
  live :: "nat list"
  next_handle :: nat
  misuse :: bool
  urls :: "(nat \<times> string) list"
  requests :: "string list"
  inits :: "bool list"
  sessions :: "http_session list"

definition client_init :: "string \<Rightarrow> http_st \<Rightarrow> nat option \<times> http_st" where
  "client_init url s =
     (case inits s of
        False # r \<Rightarrow> (None, s\<lparr>inits := r\<rparr>)
      | rs \<Rightarrow> (Some (next_handle s), s\<lparr>inits := drop 1 rs, next_handle := Suc (next_handle s),
                 live := next_handle s # live s, urls := (next_handle s, url) # urls s\<rparr>))"

definition client_use :: "nat \<Rightarrow> http_st \<Rightarrow> http_st" where
  "client_use h s = (if h \<in> set (live s) then s else s\<lparr>misuse := True\<rparr>)"

definition client_set_url :: "nat \<Rightarrow> string \<Rightarrow> http_st \<Rightarrow> http_st" where
  "client_set_url h url s = (client_use h s)\<lparr>urls := (h, url) # urls s\<rparr>"

definition client_close :: "nat \<Rightarrow> http_st \<Rightarrow> http_st" where
  "client_close h s = client_use h s"

definition client_cleanup :: "nat \<Rightarrow> http_st \<Rightarrow> http_st" where
  "client_cleanup h s = (client_use h s)\<lparr>live := remove1 h (live s)\<rparr>"

definition no_session :: http_session where
  "no_session = \<lparr>ses_err = ESP_FAIL, ses_clen = 0, ses_status = 0, ses_body = []\<rparr>"

definition client_open :: "nat \<Rightarrow> http_st \<Rightarrow> http_session \<times> http_st" where
  "client_open h s =
     (let s1 = (client_use h s)\<lparr>requests := requests s @ (case map_of (urls s) h of None \<Rightarrow> [] | Some u \<Rightarrow> [u])\<rparr> in
      case sessions s of [] \<Rightarrow> (no_session, s1) | x # r \<Rightarrow> (x, s1\<lparr>sessions := r\<rparr>))"

text \<open>The other calls on a handle: what they answer is part of the session, that they are made on a
  live handle is checked here. \<open>client_perform\<close> is a whole request in one call.\<close>

definition client_fetch_headers :: "nat \<Rightarrow> http_st \<Rightarrow> http_st" where
  "client_fetch_headers h s = client_use h s"

definition client_get_status_code :: "nat \<Rightarrow> http_st \<Rightarrow> http_st" where
  "client_get_status_code h s = client_use h s"

definition client_read :: "nat \<Rightarrow> http_st \<Rightarrow> http_st" where
  "client_read h s = client_use h s"

definition client_perform :: "nat \<Rightarrow> http_st \<Rightarrow> http_st" where
  "client_perform h s =
     (client_use h s)\<lparr>requests := requests s @ (case map_of (urls s) h of None \<Rightarrow> [] | Some u \<Rightarrow> [u])\<rparr>"

lemmas client_calls = client_fetch_headers_def client_get_status_code_def client_read_def

lemma client_use_live: "h \<in> set (live s) \<Longrightarrow> client_use h s = s"
  by (simp add: client_use_def)

section \<open>The pool\<close>

text \<open>\<^verbatim>\<open>std::string::find\<close> of a text: the position of its first occurrence.\<close>

fun find_sub :: "string \<Rightarrow> string \<Rightarrow> nat option" where
  "find_sub pat [] = (if pat = [] then Some 0 else None)"
| "find_sub pat (c # cs) =
     (if take (length pat) (c # cs) = pat then Some 0 else map_option Suc (find_sub pat cs))"

definition extract_host :: "string \<Rightarrow> string" where
  "extract_host url =
     (case find_sub ''://'' url of
        None \<Rightarrow> ''''
      | Some start \<Rightarrow> takeWhile (\<lambda>c. c \<noteq> CHR ''/'') (drop (start + 3) url))"

definition get_http_client :: "string \<Rightarrow> http_st \<Rightarrow> nat option \<times> http_st" where
  "get_http_client url s =
     (let host = extract_host url in
      case (if s_http_base_host s = host then s_http_client s else None) of
        Some h \<Rightarrow> (Some h, client_set_url h url s)
      | None \<Rightarrow>
          (let s1 = (case s_http_client s of None \<Rightarrow> s
                     | Some h \<Rightarrow> (client_cleanup h s)\<lparr>s_http_client := None\<rparr>);
               (client, s2) = client_init url s1
           in (client, s2\<lparr>s_http_client := client, s_http_base_host := host\<rparr>)))"

definition release_http_client :: "nat \<Rightarrow> bool \<Rightarrow> http_st \<Rightarrow> http_st" where
  "release_http_client client force_cleanup s =
     (if \<not> force_cleanup \<and> s_http_client s = Some client then s
      else
        (let s1 = client_cleanup client (client_close client s) in
         if s_http_client s1 = Some client then s1\<lparr>s_http_client := None, s_http_base_host := ''''\<rparr>
         else s1))"

definition cleanup_http_pool :: "http_st \<Rightarrow> http_st" where
  "cleanup_http_pool s =
     (case s_http_client s of
        None \<Rightarrow> s
      | Some h \<Rightarrow> (client_cleanup h s)\<lparr>s_http_client := None, s_http_base_host := ''''\<rparr>)"

text \<open>The connection loop of \<^verbatim>\<open>download_file_standalone\<close>: attempt 0 may be repeated once; \<open>None\<close> is
  \<^verbatim>\<open>DlResult::NET_FAILED\<close>.\<close>

definition http_attempt ::
  "nat \<Rightarrow> string \<Rightarrow> http_st \<Rightarrow> (nat \<times> http_session) option \<times> bool \<times> http_st" where
  "http_attempt attempt url s =
     (case get_http_client url s of
        (None, s1) \<Rightarrow> (None, False, s1)
      | (Some client, s1) \<Rightarrow>
          (case client_open client s1 of (x, s2) \<Rightarrow>
             if ses_err x \<noteq> ESP_OK then (None, attempt = 0, release_http_client client True s2)
             else
               (let s3 = client_get_status_code client (client_fetch_headers client s2) in
                if ses_status x = 200 then (Some (client, x), False, s3)
                else (None, ses_status x \<le> 0 \<and> attempt = 0, release_http_client client True s3))))"

definition http_connect :: "string \<Rightarrow> http_st \<Rightarrow> (nat \<times> http_session) option \<times> http_st" where
  "http_connect url s =
     (case http_attempt 0 url s of (r, again, s1) \<Rightarrow>
        if again then (case http_attempt 1 url s1 of (r2, _, s2) \<Rightarrow> (r2, s2)) else (r, s1))"

section \<open>Invariant\<close>

text \<open>The only live handle is the pooled one, and no call was ever made on a dead handle.\<close>

definition pool_ok :: "http_st \<Rightarrow> bool" where
  "pool_ok s \<longleftrightarrow> live s = (case s_http_client s of None \<Rightarrow> [] | Some h \<Rightarrow> [h]) \<and> \<not> misuse s"

definition http_boot :: "bool list \<Rightarrow> http_session list \<Rightarrow> http_st" where
  "http_boot is xs = \<lparr>s_http_client = None, s_http_base_host = '''', live = [], next_handle = 0,
     misuse = False, urls = [], requests = [], inits = is, sessions = xs\<rparr>"

lemma pool_ok_boot: "pool_ok (http_boot is xs)"
  by (simp add: pool_ok_def http_boot_def)

lemma client_init_cases:
  assumes "client_init url s = (c, t)"
  shows "misuse t = misuse s \<and> s_http_client t = s_http_client s \<and> requests t = requests s \<and> sessions t = sessions s \<and>
    (case c of None \<Rightarrow> live t = live s | Some h \<Rightarrow> live t = h # live s \<and> map_of (urls t) h = Some url)"
  using assms by (auto simp: client_init_def split: list.splits bool.splits)

lemma get_http_client_ok:
  assumes "pool_ok s" and "get_http_client url s = (c, t)"
  shows "pool_ok t \<and> s_http_client t = c \<and> requests t = requests s \<and> sessions t = sessions s \<and>
    (case c of None \<Rightarrow> True | Some h \<Rightarrow> map_of (urls t) h = Some url)"
proof (cases "if s_http_base_host s = extract_host url then s_http_client s else None")
  case (Some h)
  then have h: "s_http_client s = Some h" by (auto split: if_splits)
  then have "live s = [h]" "\<not> misuse s" using assms(1) by (simp_all add: pool_ok_def)
  moreover have "c = Some h" "t = client_set_url h url s"
    using assms(2) unfolding get_http_client_def Let_def Some by simp_all
  ultimately show ?thesis using h by (simp add: client_set_url_def client_use_def pool_ok_def)
next
  case None
  define s1 where "s1 = (case s_http_client s of None \<Rightarrow> s | Some h \<Rightarrow> (client_cleanup h s)\<lparr>s_http_client := None\<rparr>)"
  have s1: "live s1 = []" "\<not> misuse s1" "s_http_client s1 = None" "requests s1 = requests s" "sessions s1 = sessions s"
    using assms(1)
    by (auto simp: s1_def pool_ok_def client_cleanup_def client_use_def split: option.splits)
  obtain c' s2 where i: "client_init url s1 = (c', s2)" by fastforce
  have t: "c = c'" "t = s2\<lparr>s_http_client := c', s_http_base_host := extract_host url\<rparr>"
    using assms(2) unfolding get_http_client_def Let_def None option.case s1_def [symmetric] i by auto
  show ?thesis
    using client_init_cases [OF i] s1 t by (auto simp: pool_ok_def split: option.splits)
qed

lemma release_ok:
  assumes "pool_ok s" and "s_http_client s = Some h"
  shows "pool_ok (release_http_client h force s)"
    and "requests (release_http_client h force s) = requests s"
    and "sessions (release_http_client h force s) = sessions s"
  using assms
  by (auto simp: release_http_client_def Let_def client_cleanup_def client_close_def client_use_def pool_ok_def)

lemma client_open_ok:
  assumes "pool_ok s" and "s_http_client s = Some h" and "client_open h s = (x, t)"
  shows "pool_ok t" "s_http_client t = Some h"
    and "map_of (urls s) h = Some u \<Longrightarrow> requests t = requests s @ [u]"
    and "x = (case sessions s of [] \<Rightarrow> no_session | y # r \<Rightarrow> y)"
  using assms
  by (auto simp: client_open_def Let_def client_use_def pool_ok_def split: list.splits)

lemma http_attempt_ok:
  assumes "pool_ok s" and "http_attempt n url s = (r, again, t)"
  shows "pool_ok t"
    and "requests t = requests s \<or> requests t = requests s @ [url]"
    and "r = Some (h, x) \<Longrightarrow> s_http_client t = Some h \<and> ses_status x = 200 \<and> ses_err x = ESP_OK \<and>
       requests t = requests s @ [url] \<and> \<not> again"
    and "0 < n \<Longrightarrow> \<not> again"
proof -
  obtain c s1 where g: "get_http_client url s = (c, s1)" by fastforce
  note gok = get_http_client_ok [OF assms(1) g]
  have "pool_ok t \<and> (requests t = requests s \<or> requests t = requests s @ [url]) \<and>
    (r = Some (h, x) \<longrightarrow> s_http_client t = Some h \<and> ses_status x = 200 \<and> ses_err x = ESP_OK \<and>
       requests t = requests s @ [url] \<and> \<not> again) \<and> (0 < n \<longrightarrow> \<not> again)"
  proof (cases c)
    case None
    then show ?thesis using assms(2) g gok by (auto simp: http_attempt_def)
  next
    case (Some k)
    obtain y s2 where o: "client_open k s1 = (y, s2)" by fastforce
    have p1: "pool_ok s1" "s_http_client s1 = Some k" "map_of (urls s1) k = Some url" "requests s1 = requests s"
      using gok Some by auto
    note op = client_open_ok [OF p1(1,2) o]
    have rq: "requests s2 = requests s @ [url]" using op(3) [OF p1(3)] p1(4) by simp
    note rel = release_ok [OF op(1,2), of True]
    have u: "client_use k s2 = s2" using op(1,2) by (simp add: client_use_live pool_ok_def)
    show ?thesis
      using assms(2) g Some o op rel rq by (auto simp: http_attempt_def client_calls Let_def u split: if_splits)
  qed
  then show "pool_ok t" "requests t = requests s \<or> requests t = requests s @ [url]"
    "r = Some (h, x) \<Longrightarrow> s_http_client t = Some h \<and> ses_status x = 200 \<and> ses_err x = ESP_OK \<and>
       requests t = requests s @ [url] \<and> \<not> again" "0 < n \<Longrightarrow> \<not> again" by auto
qed

lemma http_connect_ok:
  assumes "pool_ok s" and "http_connect url s = (r, t)"
  shows "pool_ok t" and "r = Some (h, x) \<Longrightarrow> s_http_client t = Some h \<and> ses_status x = 200 \<and> ses_err x = ESP_OK"
    and "\<exists>n \<le> 2. requests t = requests s @ replicate n url"
proof -
  obtain r1 again s1 where a: "http_attempt 0 url s = (r1, again, s1)" by (metis prod_cases3)
  note a1 = http_attempt_ok [OF assms(1) a]
  obtain r2 ag2 s2 where b: "http_attempt 1 url s1 = (r2, ag2, s2)" by (metis prod_cases3)
  note b1 = http_attempt_ok [OF a1(1) b]
  have rt: "(r, t) = (if again then (r2, s2) else (r1, s1))"
    using assms(2) unfolding http_connect_def a prod.case b by simp
  show "pool_ok t" using rt a1(1) b1(1) by (auto split: if_splits)
  show "s_http_client t = Some h \<and> ses_status x = 200 \<and> ses_err x = ESP_OK" if "r = Some (h, x)"
    using rt that a1(3) [of h x] b1(3) [of h x] by (auto split: if_splits)
  show "\<exists>n \<le> 2. requests t = requests s @ replicate n url"
  proof (cases again)
    case True
    then show ?thesis using rt a1(2) b1(2)
      by (elim disjE) (auto intro: exI [of _ 0] exI [of _ 1] exI [of _ 2] simp: numeral_2_eq_2)
  next
    case False
    then show ?thesis using rt a1(2) by (elim disjE) (auto intro: exI [of _ 0] exI [of _ 1])
  qed
qed

lemma cleanup_pool_ok:
  "pool_ok s \<Longrightarrow> pool_ok (cleanup_http_pool s) \<and> live (cleanup_http_pool s) = [] \<and>
     s_http_client (cleanup_http_pool s) = None"
  by (auto simp: pool_ok_def cleanup_http_pool_def client_cleanup_def client_use_def split: option.splits)

section \<open>Properties\<close>

text \<open>The life of the pool during a download: connection attempts, releases of the handle just
  obtained (kept or given up), and the final cleanup.\<close>

inductive pool_reach :: "http_st \<Rightarrow> http_st \<Rightarrow> bool" for s0 where
  start: "pool_reach s0 s0"
| connect: "pool_reach s0 s \<Longrightarrow> http_connect url s = (r, t) \<Longrightarrow> pool_reach s0 t"
| release: "pool_reach s0 s \<Longrightarrow> s_http_client s = Some h \<Longrightarrow> pool_reach s0 (release_http_client h force s)"
| cleanup: "pool_reach s0 s \<Longrightarrow> pool_reach s0 (cleanup_http_pool s)"

lemma pool_reach_ok: "pool_reach s0 s \<Longrightarrow> pool_ok s0 \<Longrightarrow> pool_ok s"
  by (induction rule: pool_reach.induct) (auto dest: http_connect_ok(1) release_ok(1) cleanup_pool_ok)

text \<open>C35. Handles of the HTTP client are never used after they were cleaned up, never cleaned up
  twice and never leaked: at any moment at most the pooled handle is live, and after the final
  cleanup none is.\<close>

theorem pool_no_leak:
  assumes "pool_reach (http_boot is xs) s"
  shows "\<not> misuse s \<and> live s = (case s_http_client s of None \<Rightarrow> [] | Some h \<Rightarrow> [h]) \<and>
    live (cleanup_http_pool s) = [] \<and> \<not> misuse (cleanup_http_pool s)"
  using pool_reach_ok [OF assms pool_ok_boot] cleanup_pool_ok [of s] by (auto simp: pool_ok_def)

lemma find_sub_first:
  "CHR '':'' \<notin> set a \<Longrightarrow> find_sub ''://'' (a @ ''://'' @ b) = Some (length a)"
  by (induction a) auto

text \<open>The host of a URL is what stands between the first \<^verbatim>\<open>://\<close> and the next slash.\<close>

theorem extract_host_url:
  assumes "CHR '':'' \<notin> set scheme" and "CHR ''/'' \<notin> set host" and "rest = [] \<or> hd rest = CHR ''/''"
  shows "extract_host (scheme @ ''://'' @ host @ rest) = host"
proof -
  have "takeWhile (\<lambda>c. c \<noteq> CHR ''/'') (host @ rest) = host"
    using assms(2,3) by (cases rest) (auto simp: takeWhile_tail)
  then show ?thesis
    using find_sub_first [OF assms(1), of "host @ rest"] by (simp add: extract_host_def)
qed

subsection \<open>Witnesses\<close>

lemma pool_no_leak_witness: "live (cleanup_http_pool (snd (http_connect ''https://a/b'' (http_boot [] [])))) = []"
proof -
  obtain r t where c: "http_connect ''https://a/b'' (http_boot [] []) = (r, t)" by fastforce
  then have "pool_reach (http_boot [] []) t" using pool_reach.connect pool_reach.start by blast
  then show ?thesis using pool_no_leak [of "[]" "[]" t] c by simp
qed

lemma extract_host_url_witness: "extract_host (''https'' @ ''://'' @ ''ex.org'' @ ''/a'') = ''ex.org''"
  by (rule extract_host_url) simp_all

end
