(* ===== verification/FileSys.thy ===== *)
theory FileSys
  imports Prelude "HOL-Library.Sublist"
begin

text \<open>
  The file operations of \<^verbatim>\<open>src/src/simibox_download.cpp\<close> on the SD card: a volume is a list of
  paths with their contents; every call that can fail consumes one answer of the fault script
  \<open>io\<close>, so any pattern of failing calls is one script. On it the helpers \<^verbatim>\<open>read_text_file\<close>,
  \<^verbatim>\<open>file_size_bytes\<close> and \<^verbatim>\<open>delete_tree\<close> are the code's. Whether \<^verbatim>\<open>rename\<close> may replace an
  existing file is a field of the volume, since the file systems behind the call differ there.

  \<^verbatim>\<open>delete_tree\<close> recurses into the directories it finds; the definition carries a bound on the depth
  and returns \<open>None\<close> beyond it. The length of the longest path is always enough.
\<close>

section \<open>Volumes\<close>

type_synonym path = string

datatype node = FileN "byte list" | DirN

text \<open>An answer: the call works, or it fails, in which case a flush still stored that many
  bytes.\<close>

datatype io = IoOk | IoFail nat

record fs =
  fs_nodes :: "(path \<times> node) list"
  fs_io :: "io list"
  fs_replace :: bool

definition next_io :: "fs \<Rightarrow> io \<times> fs" where
  "next_io s = (case fs_io s of [] \<Rightarrow> (IoOk, s) | a # as \<Rightarrow> (a, s\<lparr>fs_io := as\<rparr>))"

definition lookup :: "fs \<Rightarrow> path \<Rightarrow> node option" where
  "lookup s p = map_of (fs_nodes s) p"

definition remove_node :: "path \<Rightarrow> fs \<Rightarrow> fs" where
  "remove_node p s = s\<lparr>fs_nodes := filter (\<lambda>(q, _). q \<noteq> p) (fs_nodes s)\<rparr>"

definition put_node :: "path \<Rightarrow> node \<Rightarrow> fs \<Rightarrow> fs" where
  "put_node p n s = s\<lparr>fs_nodes := (p, n) # filter (\<lambda>(q, _). q \<noteq> p) (fs_nodes s)\<rparr>"

text \<open>The directory part of a path, and the paths inside a directory.\<close>

definition parent :: "path \<Rightarrow> path" where
  "parent p = rev (drop 1 (dropWhile (\<lambda>c. c \<noteq> CHR ''/'') (rev p)))"

text \<open>No entry can be created under the names \<^verbatim>\<open>.\<close> and \<^verbatim>\<open>..\<close>.\<close>

definition valid_name :: "path \<Rightarrow> bool" where
  "valid_name p = (rev (takeWhile (\<lambda>c. c \<noteq> CHR ''/'') (rev p)) \<notin> {''.'', ''..''})"

definition inside :: "path \<Rightarrow> path \<Rightarrow> bool" where
  "inside d p = prefix (d @ ''/'') p"

definition under :: "path \<Rightarrow> path \<Rightarrow> bool" where
  "under d p = (p = d \<or> inside d p)"

text \<open>The names \<^verbatim>\<open>readdir\<close> returns for an open directory.\<close>

definition dir_names :: "path \<Rightarrow> fs \<Rightarrow> string list" where
  "dir_names d s =
     map (\<lambda>(p, _). drop (Suc (length d)) p)
       (filter (\<lambda>(p, _). inside d p \<and> CHR ''/'' \<notin> set (drop (Suc (length d)) p)) (fs_nodes s))"

section \<open>Calls\<close>

text \<open>Each call returns whether it succeeded.\<close>

definition fs_stat :: "path \<Rightarrow> fs \<Rightarrow> node option \<times> fs" where
  "fs_stat p s = (case next_io s of (a, s1) \<Rightarrow> if a = IoOk then (lookup s1 p, s1) else (None, s1))"

definition fs_mkdir :: "path \<Rightarrow> fs \<Rightarrow> bool \<times> fs" where
  "fs_mkdir p s =
     (case next_io s of (a, s1) \<Rightarrow>
        if a = IoOk \<and> valid_name p \<and> lookup s1 p = None \<and> lookup s1 (parent p) = Some DirN
        then (True, put_node p DirN s1) else (False, s1))"

definition fs_unlink :: "path \<Rightarrow> fs \<Rightarrow> bool \<times> fs" where
  "fs_unlink p s =
     (case next_io s of (a, s1) \<Rightarrow>
        (case lookup s1 p of
           Some (FileN _) \<Rightarrow> if a = IoOk then (True, remove_node p s1) else (False, s1)
         | _ \<Rightarrow> (False, s1)))"

definition fs_rmdir :: "path \<Rightarrow> fs \<Rightarrow> bool \<times> fs" where
  "fs_rmdir p s =
     (case next_io s of (a, s1) \<Rightarrow>
        if a = IoOk \<and> lookup s1 p = Some DirN \<and> \<not> (\<exists>(q, _) \<in> set (fs_nodes s1). inside p q)
        then (True, remove_node p s1) else (False, s1))"

text \<open>An open directory is the list of the names that \<^verbatim>\<open>readdir\<close> will return: all of them, or those
  before the call that fails (which the loop cannot tell from the end of the directory).
  \<^verbatim>\<open>closedir\<close> has no effect on the volume and the code ignores its result.\<close>

definition fs_readdir :: "path \<Rightarrow> fs \<Rightarrow> string list \<times> fs" where
  "fs_readdir p s =
     (case next_io s of (b, s1) \<Rightarrow>
        (case b of IoOk \<Rightarrow> dir_names p s1 | IoFail k \<Rightarrow> take k (dir_names p s1), s1))"

definition fs_opendir :: "path \<Rightarrow> fs \<Rightarrow> string list option \<times> fs" where
  "fs_opendir p s =
     (case next_io s of (a, s1) \<Rightarrow>
        if a = IoOk \<and> lookup s1 p = Some DirN
        then (case fs_readdir p s1 of (names, s2) \<Rightarrow> (Some names, s2)) else (None, s1))"

text \<open>\<^verbatim>\<open>rename\<close> moves a node and, for a directory, everything inside it.\<close>

definition move_path :: "path \<Rightarrow> path \<Rightarrow> path \<Rightarrow> path" where
  "move_path old new p = (if under old p then new @ drop (length old) p else p)"

definition is_file :: "node option \<Rightarrow> bool" where
  "is_file n = (case n of Some (FileN _) \<Rightarrow> True | _ \<Rightarrow> False)"

lemma is_file_iff: "is_file n \<longleftrightarrow> (\<exists>b. n = Some (FileN b))"
  by (auto simp: is_file_def split: option.splits node.splits)

definition fs_rename :: "path \<Rightarrow> path \<Rightarrow> fs \<Rightarrow> bool \<times> fs" where
  "fs_rename old new s =
     (case next_io s of (a, s1) \<Rightarrow>
        if a = IoOk \<and> old \<noteq> [] \<and> lookup s1 old \<noteq> None \<and> old \<noteq> new \<and> \<not> inside old new \<and>
           valid_name new \<and> lookup s1 (parent new) = Some DirN \<and> parent new \<noteq> old \<and>
           (lookup s1 new = None \<or>
              fs_replace s1 \<and> is_file (lookup s1 old) \<and> is_file (lookup s1 new))
        then (True, s1\<lparr>fs_nodes := map (\<lambda>(p, n). (move_path old new p, n))
                                    (filter (\<lambda>(p, _). p \<noteq> new) (fs_nodes s1))\<rparr>)
        else (False, s1))"

text \<open>Opening a file for writing truncates it; closing it stores what the stream accepted (all of
  it, or what a failing flush left).\<close>

definition fs_fopen_w :: "path \<Rightarrow> fs \<Rightarrow> bool \<times> fs" where
  "fs_fopen_w p s =
     (case next_io s of (a, s1) \<Rightarrow>
        if a = IoOk \<and> valid_name p \<and> lookup s1 (parent p) = Some DirN \<and> lookup s1 p \<noteq> Some DirN
        then (True, put_node p (FileN []) s1) else (False, s1))"

definition fs_fclose :: "path \<Rightarrow> byte list \<Rightarrow> fs \<Rightarrow> fs" where
  "fs_fclose p bs s =
     (case next_io s of (a, s1) \<Rightarrow>
        (case a of
           IoOk \<Rightarrow> put_node p (FileN bs) s1
         | IoFail k \<Rightarrow> put_node p (FileN (take k bs)) s1))"

text \<open>Reading a whole file: \<^verbatim>\<open>fopen(path, "rb")\<close>, the size by \<^verbatim>\<open>fseek\<close> and \<^verbatim>\<open>ftell\<close>, \<^verbatim>\<open>fread\<close>;
  a failing read returns fewer bytes.\<close>

definition read_text_file :: "path \<Rightarrow> fs \<Rightarrow> byte list option \<times> fs" where
  "read_text_file p s =
     (case next_io s of (a, s1) \<Rightarrow>
        if a \<noteq> IoOk then (None, s1)
        else
          (case lookup s1 p of
             Some (FileN bs) \<Rightarrow>
               (case next_io s1 of (b, s2) \<Rightarrow>
                  (let got = (case b of IoOk \<Rightarrow> bs | IoFail k \<Rightarrow> take k bs) in
                   if length got = length bs then (Some got, s2) else (None, s2)))
           | _ \<Rightarrow> (None, s1)))"

text \<open>The size \<^verbatim>\<open>stat\<close> reports: the length of a file, 0 for a directory.\<close>

definition node_size :: "node \<Rightarrow> nat" where
  "node_size n = (case n of FileN bs \<Rightarrow> length bs | DirN \<Rightarrow> 0)"

definition file_size_bytes :: "path \<Rightarrow> fs \<Rightarrow> nat option \<times> fs" where
  "file_size_bytes p s = (case fs_stat p s of (r, s1) \<Rightarrow> (map_option node_size r, s1))"

text \<open>\<open>delete_tree n dir s\<close>: at most \<open>n\<close> levels deep.\<close>

fun delete_tree :: "nat \<Rightarrow> path \<Rightarrow> fs \<Rightarrow> fs option"
and delete_entries :: "nat \<Rightarrow> path \<Rightarrow> string list \<Rightarrow> fs \<Rightarrow> fs option" where
  "delete_tree 0 dir s = None"
| "delete_tree (Suc n) dir s =
     (case fs_opendir dir s of (d, s1) \<Rightarrow>
        (case d of
           None \<Rightarrow> Some s1
         | Some names \<Rightarrow>
             (case delete_entries n dir names s1 of
                None \<Rightarrow> None
              | Some s2 \<Rightarrow> Some (snd (fs_rmdir dir s2)))))"
| "delete_entries n dir [] s = Some s"
| "delete_entries n dir (e # es) s =
     (if e = ''.'' \<or> e = ''..'' then delete_entries n dir es s
      else
        (let path = dir @ ''/'' @ e in
         case fs_stat path s of (st, s1) \<Rightarrow>
           (case (if st = Some DirN then delete_tree n path s1 else Some (snd (fs_unlink path s1))) of
              None \<Rightarrow> None
            | Some s2 \<Rightarrow> delete_entries n dir es s2)))"

definition max_path :: "fs \<Rightarrow> nat" where
  "max_path s = Max (insert 0 ((\<lambda>(p, _). length p) ` set (fs_nodes s)))"

text \<open>With the depth that always suffices.\<close>

definition rm_tree :: "path \<Rightarrow> fs \<Rightarrow> fs" where
  "rm_tree dir s = (case delete_tree (Suc (Suc (max_path s))) dir s of None \<Rightarrow> s | Some t \<Rightarrow> t)"

section \<open>Lookup\<close>

lemma next_io_nodes [simp]:
  "next_io s = (a, t) \<Longrightarrow> fs_nodes t = fs_nodes s" "next_io s = (a, t) \<Longrightarrow> fs_replace t = fs_replace s"
  "next_io s = (a, t) \<Longrightarrow> lookup t p = lookup s p"
  by (auto simp: next_io_def lookup_def split: list.splits)

lemma next_io_quiet [simp]: "fs_io s = [] \<Longrightarrow> next_io s = (IoOk, s)"
  by (simp add: next_io_def)

lemma map_of_filter_key:
  "map_of (filter (\<lambda>(q, _). P q) xs) p = (if P p then map_of xs p else None)"
  by (induction xs) auto

lemma lookup_filter:
  "lookup (s\<lparr>fs_nodes := filter (\<lambda>(q, _). P q) (fs_nodes s)\<rparr>) p = (if P p then lookup s p else None)"
  by (simp add: lookup_def map_of_filter_key)

lemma lookup_remove [simp]: "lookup (remove_node p s) q = (if q = p then None else lookup s q)"
  by (simp add: remove_node_def lookup_filter)

lemma lookup_put [simp]: "lookup (put_node p n s) q = (if q = p then Some n else lookup s q)"
  by (simp add: put_node_def lookup_def map_of_filter_key)

lemma lookup_None: "lookup s p = None \<longleftrightarrow> p \<notin> fst ` set (fs_nodes s)"
  by (simp add: lookup_def map_of_eq_None_iff)

lemma under_refl [simp]: "under d d"
  by (simp add: under_def)

lemma under_child [simp]: "under d (d @ CHR ''/'' # e)"
  by (simp add: under_def inside_def prefix_def)

lemma under_trans: "under a b \<Longrightarrow> under b c \<Longrightarrow> under a c"
  unfolding under_def inside_def
  by (metis append_assoc prefix_def prefix_order.trans)

lemma under_length: "under d p \<Longrightarrow> length d \<le> length p"
  by (auto simp: under_def inside_def dest: prefix_length_le)

text \<open>Calls on one path leave the others alone.\<close>

lemma fopen_w_lookup:
  assumes "fs_fopen_w p s = (ok, t)"
  shows "lookup t q = (if ok \<and> q = p then Some (FileN []) else lookup s q)"
proof -
  obtain a s1 where n: "next_io s = (a, s1)" by fastforce
  show ?thesis using assms n by (auto simp: fs_fopen_w_def split: if_splits)
qed

lemma fclose_lookup: "q \<noteq> p \<Longrightarrow> lookup (fs_fclose p bs s) q = lookup s q"
  by (cases "next_io s") (simp add: fs_fclose_def split: io.splits)

lemma fclose_same: "\<exists>k. lookup (fs_fclose p bs s) p = Some (FileN (take k bs))"
  by (cases "next_io s") (auto simp: fs_fclose_def split: io.splits intro: exI [of _ "length bs"])

lemma fclose_quiet: "fs_io s = [] \<Longrightarrow> lookup (fs_fclose p bs s) p = Some (FileN bs)"
  by (simp add: fs_fclose_def)

lemma unlink_lookup:
  assumes "q \<noteq> p"
  shows "lookup (snd (fs_unlink p s)) q = lookup s q"
proof -
  obtain a s1 where n: "next_io s = (a, s1)" by fastforce
  show ?thesis
  proof (cases "lookup s1 p")
    case None
    then show ?thesis using n by (simp add: fs_unlink_def)
  next
    case (Some nd)
    then show ?thesis using n assms by (cases nd) (simp_all add: fs_unlink_def)
  qed
qed

lemma unlink_true:
  assumes "fs_unlink p s = (True, t)"
  shows "lookup t p = None"
proof -
  obtain a s1 where n: "next_io s = (a, s1)" by fastforce
  show ?thesis
    using assms n by (auto simp: fs_unlink_def split: option.splits node.splits if_splits)
qed

section \<open>Deleting a tree touches nothing else\<close>

definition keeps_outside :: "path \<Rightarrow> fs \<Rightarrow> fs \<Rightarrow> bool" where
  "keeps_outside d s t \<longleftrightarrow> set (fs_nodes t) \<subseteq> set (fs_nodes s) \<and>
     filter (\<lambda>(p, _). \<not> under d p) (fs_nodes t) = filter (\<lambda>(p, _). \<not> under d p) (fs_nodes s) \<and>
     fs_replace t = fs_replace s"

lemma keeps_refl: "fs_nodes t = fs_nodes s \<Longrightarrow> fs_replace t = fs_replace s \<Longrightarrow> keeps_outside d s t"
  by (simp add: keeps_outside_def)

lemma keeps_trans: "keeps_outside d s t \<Longrightarrow> keeps_outside d t u \<Longrightarrow> keeps_outside d s u"
  by (auto simp: keeps_outside_def)

lemma keeps_wider:
  assumes "keeps_outside d s t" and "under e d"
  shows "keeps_outside e s t"
proof -
  have *: "filter (\<lambda>(p, _). \<not> under e p) xs = filter (\<lambda>(p, _). \<not> under e p) (filter (\<lambda>(p, _). \<not> under d p) xs)"
    for xs :: "(path \<times> node) list"
    using under_trans [OF assms(2)] by (induction xs) auto
  show ?thesis
    using assms(1) * [of "fs_nodes s"] * [of "fs_nodes t"] unfolding keeps_outside_def by metis
qed

lemma keeps_remove: "under d p \<Longrightarrow> keeps_outside d s (remove_node p s)"
  by (auto simp: keeps_outside_def remove_node_def intro!: filter_cong)

lemma keeps_stat: "fs_stat p s = (r, t) \<Longrightarrow> keeps_outside d s t"
  by (auto simp: fs_stat_def intro!: keeps_refl split: prod.splits if_splits)

lemma keeps_opendir: "fs_opendir p s = (r, t) \<Longrightarrow> keeps_outside d s t"
  by (auto simp: fs_opendir_def fs_readdir_def intro!: keeps_refl split: prod.splits if_splits)

lemma keeps_removed:
  assumes "next_io s = (a, s1)" and "under d p"
  shows "keeps_outside d s (remove_node p s1)"
  using keeps_trans [OF keeps_refl keeps_remove [OF assms(2), of s1]] assms(1) by simp

lemma keeps_unlink: "under d p \<Longrightarrow> keeps_outside d s (snd (fs_unlink p s))"
  by (auto simp: fs_unlink_def intro!: keeps_refl keeps_removed split: prod.splits option.splits node.splits)

lemma keeps_rmdir: "keeps_outside p s (snd (fs_rmdir p s))"
  by (auto simp: fs_rmdir_def intro!: keeps_refl keeps_removed split: prod.splits)

text \<open>What becomes of one entry, and the loop step over it.\<close>

abbreviation delete_entry :: "nat \<Rightarrow> path \<Rightarrow> node option \<Rightarrow> fs \<Rightarrow> fs option" where
  "delete_entry n p st s \<equiv> (if st = Some DirN then delete_tree n p s else Some (snd (fs_unlink p s)))"

lemma delete_entries_step:
  assumes "\<not> (e = ''.'' \<or> e = ''..'')" and "fs_stat (dir @ ''/'' @ e) s = (st, s1)"
  shows "delete_entries n dir (e # es) s =
    (case delete_entry n (dir @ ''/'' @ e) st s1 of None \<Rightarrow> None | Some s2 \<Rightarrow> delete_entries n dir es s2)"
  using assms by (simp only: delete_entries.simps Let_def if_False prod.case)

lemma delete_tree_keeps:
  "delete_tree n dir s = Some t \<Longrightarrow> keeps_outside dir s t"
  "delete_entries n dir es s = Some t \<Longrightarrow> keeps_outside dir s t"
proof (induction n dir s and n dir es s arbitrary: t and t rule: delete_tree_delete_entries.induct)
  case (2 n dir s)
  obtain d s1 where o: "fs_opendir dir s = (d, s1)" by fastforce
  show ?case
  proof (cases d)
    case None
    then show ?thesis using 2(2) o keeps_opendir by simp
  next
    case (Some names)
    then obtain s2 where s2: "delete_entries n dir names s1 = Some s2" "t = snd (fs_rmdir dir s2)"
      using 2(2) o by (auto split: option.splits)
    then have "keeps_outside dir s1 s2" using 2(1) [OF o [symmetric] Some] by simp
    then show ?thesis using keeps_opendir [OF o] s2(2) keeps_rmdir keeps_trans by metis
  qed
next
  case (3 n dir s)
  then show ?case by (simp add: keeps_refl)
next
  case (4 n dir e es s)
  show ?case
  proof (cases "e = ''.'' \<or> e = ''..''")
    case True
    then show ?thesis using 4(1,4) by auto
  next
    case False
    let ?p = "dir @ ''/'' @ e"
    obtain st s1 where st: "fs_stat ?p s = (st, s1)" by fastforce
    obtain s2 where s2: "delete_entry n ?p st s1 = Some s2" and r: "delete_entries n dir es s2 = Some t"
      using 4(4) unfolding delete_entries_step [OF False st]
      by (cases "delete_entry n ?p st s1") (simp_all only: option.case option.simps)
    have "keeps_outside dir s1 s2"
    proof (cases "st = Some DirN")
      case True
      then have "keeps_outside ?p s1 s2" using 4(2) [OF False refl st [symmetric]] s2 by simp
      then show ?thesis using keeps_wider by simp
    next
      case False
      then have "s2 = snd (fs_unlink ?p s1)" using s2 by simp
      then show ?thesis using keeps_unlink by simp
    qed
    then show ?thesis
      using keeps_stat [OF st] keeps_trans 4(3) [OF False refl st [symmetric] s2 r] by meson
  qed
qed simp

section \<open>The depth suffices\<close>

lemma max_path_ge: "(p, n) \<in> set (fs_nodes s) \<Longrightarrow> length p \<le> max_path s"
  unfolding max_path_def by (rule Max_ge) (auto intro: rev_image_eqI)

lemma max_path_mono: "set (fs_nodes t) \<subseteq> set (fs_nodes s) \<Longrightarrow> max_path t \<le> max_path s"
  unfolding max_path_def by (rule Max_mono) auto

lemma keeps_max: "keeps_outside d s t \<Longrightarrow> max_path t \<le> max_path s"
  by (simp add: keeps_outside_def max_path_mono)

lemma lookup_max: "lookup s p = Some n \<Longrightarrow> length p \<le> max_path s"
  unfolding lookup_def by (blast dest: map_of_SomeD max_path_ge)

lemma delete_tree_total:
  "0 < n \<Longrightarrow> max_path s < n + length dir \<Longrightarrow> delete_tree n dir s \<noteq> None"
  "max_path s \<le> n + length dir \<Longrightarrow> delete_entries n dir es s \<noteq> None"
proof (induction n dir s and n dir es s rule: delete_tree_delete_entries.induct)
  case (2 n dir s)
  obtain d s1 where o: "fs_opendir dir s = (d, s1)" by fastforce
  have "max_path s1 \<le> n + length dir" using keeps_max [OF keeps_opendir [OF o]] 2(3) by simp
  then show ?case using 2(1) o by (auto split: option.splits)
next
  case (4 n dir e es s)
  show ?case
  proof (cases "e = ''.'' \<or> e = ''..''")
    case True
    then show ?thesis using 4(1,4) by auto
  next
    case False
    let ?p = "dir @ ''/'' @ e"
    obtain st s1 where st: "fs_stat ?p s = (st, s1)" by fastforce
    let ?r = "delete_entry n ?p st s1"
    have m1: "max_path s1 \<le> n + length dir" using keeps_max [OF keeps_stat [OF st]] 4(4) by simp
    have "?r \<noteq> None"
    proof (cases "st = Some DirN")
      case True
      then have "lookup s1 ?p = Some DirN"
        using st by (auto simp: fs_stat_def split: prod.splits if_splits)
      then have "length ?p \<le> max_path s1" by (rule lookup_max)
      then have "0 < n" "max_path s1 < n + length ?p" using m1 by simp_all
      then show ?thesis using 4(2) [OF False refl st [symmetric] True] True by simp
    qed simp
    then obtain s2 where s2: "?r = Some s2" by blast
    have "keeps_outside dir s1 s2"
      using s2 delete_tree_keeps(1) [of n ?p s1 s2] keeps_wider [of ?p s1 s2 dir] keeps_unlink [of dir ?p s1]
      by (auto split: if_splits)
    then have "max_path s2 \<le> n + length dir" using m1 keeps_max by fastforce
    then have "delete_entries n dir es s2 \<noteq> None" using 4(3) [OF False refl st [symmetric] s2] by simp
    then show ?thesis unfolding delete_entries_step [OF False st] s2 by simp
  qed
qed simp_all

lemma rm_tree_eq: "delete_tree (Suc (Suc (max_path s))) dir s = Some (rm_tree dir s)"
  using delete_tree_total(1) [of "Suc (Suc (max_path s))" s dir] by (auto simp: rm_tree_def)

lemma rm_tree_keeps: "keeps_outside dir s (rm_tree dir s)"
  by (rule delete_tree_keeps(1) [OF rm_tree_eq])

lemma rm_tree_lookup: "\<not> under dir p \<Longrightarrow> lookup (rm_tree dir s) p = lookup s p"
  using rm_tree_keeps [of dir s] map_of_filter_key [of "\<lambda>q. \<not> under dir q" "fs_nodes s" p]
    map_of_filter_key [of "\<lambda>q. \<not> under dir q" "fs_nodes (rm_tree dir s)" p]
  by (simp add: keeps_outside_def lookup_def)

section \<open>Without faults the whole tree goes\<close>

text \<open>A well-formed volume: one node per path, every ancestor of a node is a directory, and no
  entry is called \<^verbatim>\<open>.\<close> or \<^verbatim>\<open>..\<close>.\<close>

definition fs_wf :: "fs \<Rightarrow> bool" where
  "fs_wf s \<longleftrightarrow> distinct (map fst (fs_nodes s)) \<and>
     (\<forall>p \<in> fst ` set (fs_nodes s). \<forall>d r. p = d @ CHR ''/'' # r \<longrightarrow>
        (d = [] \<or> lookup s d = Some DirN) \<and> r \<noteq> ''.'' \<and> r \<noteq> ''..'')"

lemma fs_wfD:
  "fs_wf s \<Longrightarrow> d @ CHR ''/'' # r \<in> fst ` set (fs_nodes s) \<Longrightarrow>
     (d = [] \<or> lookup s d = Some DirN) \<and> r \<noteq> ''.'' \<and> r \<noteq> ''..''"
  unfolding fs_wf_def by blast

lemma fs_wfI:
  "distinct (map fst (fs_nodes s)) \<Longrightarrow>
     (\<And>d r. d @ CHR ''/'' # r \<in> fst ` set (fs_nodes s) \<Longrightarrow>
        (d = [] \<or> lookup s d = Some DirN) \<and> r \<noteq> ''.'' \<and> r \<noteq> ''..'') \<Longrightarrow> fs_wf s"
  unfolding fs_wf_def by blast

definition prune :: "(path \<Rightarrow> bool) \<Rightarrow> fs \<Rightarrow> fs" where
  "prune P s = s\<lparr>fs_nodes := filter (\<lambda>(p, _). \<not> P p) (fs_nodes s)\<rparr>"

lemma prune_simps [simp]:
  "fs_nodes (prune P s) = filter (\<lambda>(p, _). \<not> P p) (fs_nodes s)" "fs_io (prune P s) = fs_io s"
  "fs_replace (prune P s) = fs_replace s" "lookup (prune P s) p = (if P p then None else lookup s p)"
  using lookup_filter [of "\<lambda>p. \<not> P p" s p] by (simp_all add: prune_def)

lemma prune_prune: "prune Q (prune P s) = prune (\<lambda>p. P p \<or> Q p) s"
  by (auto simp: prune_def intro!: arg_cong [where f = "\<lambda>n. s\<lparr>fs_nodes := n\<rparr>"] filter_cong)

lemma prune_none: "prune (\<lambda>p. False) s = s"
proof -
  have "filter (\<lambda>(p, _). \<not> False) xs = xs" for xs :: "(path \<times> node) list" by (induction xs) auto
  then show ?thesis unfolding prune_def by simp
qed

lemma prune_cong: "(\<And>p. p \<in> fst ` set (fs_nodes s) \<Longrightarrow> P p = Q p) \<Longrightarrow> prune P s = prune Q s"
  by (force simp: prune_def intro!: arg_cong [where f = "\<lambda>n. s\<lparr>fs_nodes := n\<rparr>"] filter_cong)

lemma remove_node_prune: "remove_node p s = prune (\<lambda>q. q = p) s"
  by (simp add: remove_node_def prune_def)

lemma fs_wf_prune:
  assumes "fs_wf s" and "\<And>p q. P p \<Longrightarrow> under p q \<Longrightarrow> P q"
  shows "fs_wf (prune P s)"
proof (rule fs_wfI)
  show "distinct (map fst (fs_nodes (prune P s)))"
    using assms(1) by (simp add: fs_wf_def distinct_map_filter)
  fix d r
  assume "d @ CHR ''/'' # r \<in> fst ` set (fs_nodes (prune P s))"
  then have n: "\<not> P (d @ CHR ''/'' # r)" and i: "d @ CHR ''/'' # r \<in> fst ` set (fs_nodes s)" by auto
  have "\<not> P d" using n assms(2) [of d "d @ CHR ''/'' # r"] by auto
  then show "(d = [] \<or> lookup (prune P s) d = Some DirN) \<and> r \<noteq> ''.'' \<and> r \<noteq> ''..''"
    using fs_wfD [OF assms(1) i] by simp
qed

lemma child_inside_child:
  assumes "CHR ''/'' \<notin> set e'" and "under (d @ CHR ''/'' # e) (d @ CHR ''/'' # e')"
  shows "e = e'"
  using assms by (auto simp: under_def inside_def prefix_def)

lemma dir_names_iff:
  "e \<in> set (dir_names d s) \<longleftrightarrow> CHR ''/'' \<notin> set e \<and> d @ CHR ''/'' # e \<in> fst ` set (fs_nodes s)"
proof
  assume "e \<in> set (dir_names d s)"
  then obtain p n where p: "(p, n) \<in> set (fs_nodes s)" "inside d p" "CHR ''/'' \<notin> set (drop (Suc (length d)) p)"
    "e = drop (Suc (length d)) p" by (auto simp: dir_names_def)
  then have "p = d @ CHR ''/'' # e" by (auto simp: inside_def prefix_def)
  then show "CHR ''/'' \<notin> set e \<and> d @ CHR ''/'' # e \<in> fst ` set (fs_nodes s)" using p by force
next
  assume a: "CHR ''/'' \<notin> set e \<and> d @ CHR ''/'' # e \<in> fst ` set (fs_nodes s)"
  then obtain n where n: "(d @ CHR ''/'' # e, n) \<in> set (fs_nodes s)" by auto
  have "drop (Suc (length d)) (d @ CHR ''/'' # e) = e" by simp
  with n a show "e \<in> set (dir_names d s)"
    unfolding dir_names_def set_map
    by (intro image_eqI [where x = "(d @ CHR ''/'' # e, n)"]) (auto simp: inside_def)
qed

lemma distinct_dir_names: "fs_wf s \<Longrightarrow> distinct (dir_names d s)"
proof -
  assume wf: "fs_wf s"
  let ?xs = "filter (\<lambda>(p, _). inside d p \<and> CHR ''/'' \<notin> set (drop (Suc (length d)) p)) (fs_nodes s)"
  have "distinct (map fst ?xs)" using wf by (simp add: fs_wf_def distinct_map_filter)
  moreover have "dir_names d s = map (drop (Suc (length d))) (map fst ?xs)"
    by (auto simp: dir_names_def)
  moreover have "inj_on (drop (Suc (length d))) (set (map fst ?xs))"
    by (auto simp: inj_on_def inside_def prefix_def)
  ultimately show ?thesis by (simp only: distinct_map)
qed

text \<open>Everything inside a directory is under one of its entries.\<close>

lemma inside_child:
  assumes "fs_wf s" and "p \<in> fst ` set (fs_nodes s)" and "inside d p"
  shows "\<exists>e \<in> set (dir_names d s). under (d @ CHR ''/'' # e) p"
proof -
  obtain r where r: "p = d @ CHR ''/'' # r" using assms(3) by (auto simp: inside_def prefix_def)
  define e where "e = takeWhile (\<lambda>c. c \<noteq> CHR ''/'') r"
  have e: "CHR ''/'' \<notin> set e" by (auto simp: e_def dest: set_takeWhileD)
  have r': "r = e @ dropWhile (\<lambda>c. c \<noteq> CHR ''/'') r" by (simp add: e_def)
  show ?thesis
  proof (cases "dropWhile (\<lambda>c. c \<noteq> CHR ''/'') r")
    case Nil
    then have "r = e" using r' unfolding Nil by simp
    then have "p = d @ CHR ''/'' # e" using r by simp
    then show ?thesis using e assms(2) dir_names_iff by (intro bexI [of _ e]) auto
  next
    case (Cons c q)
    then have "c = CHR ''/''" using hd_dropWhile [of "\<lambda>c. c \<noteq> CHR ''/''" r] by simp
    then have "r = e @ CHR ''/'' # q" using r' unfolding Cons by simp
    then have p: "p = (d @ CHR ''/'' # e) @ CHR ''/'' # q" using r by simp
    then have "lookup s (d @ CHR ''/'' # e) = Some DirN"
      using fs_wfD [OF assms(1), of "d @ CHR ''/'' # e" q] assms(2) by simp
    then have "d @ CHR ''/'' # e \<in> fst ` set (fs_nodes s)"
      using lookup_None [of s "d @ CHR ''/'' # e"] by simp
    then have "e \<in> set (dir_names d s)" using e dir_names_iff by blast
    moreover have "under (d @ CHR ''/'' # e) p" unfolding p by (rule under_child)
    ultimately show ?thesis by blast
  qed
qed

lemma file_no_inside:
  assumes "fs_wf s" and "lookup s p = Some (FileN b)" and "p \<noteq> []" and "q \<in> fst ` set (fs_nodes s)"
  shows "under p q \<longleftrightarrow> q = p"
proof
  assume "under p q"
  then consider "q = p" | r where "q = p @ CHR ''/'' # r" by (auto simp: under_def inside_def prefix_def)
  then show "q = p"
  proof cases
    case (2 r)
    then show ?thesis using fs_wfD [OF assms(1), of p r] assms by simp
  qed
qed simp

lemma unlink_prune:
  assumes "fs_wf s" "fs_io s = []" "lookup s p = Some (FileN b)" "p \<noteq> []"
  shows "snd (fs_unlink p s) = prune (under p) s"
proof -
  have "snd (fs_unlink p s) = prune (\<lambda>q. q = p) s"
    using assms by (simp add: fs_unlink_def remove_node_prune)
  also have "\<dots> = prune (under p) s"
    using file_no_inside [OF assms(1,3,4)] by (intro prune_cong) blast
  finally show ?thesis .
qed

lemma rmdir_prune:
  assumes "fs_io s = []" "lookup s p = Some DirN" "\<forall>q \<in> fst ` set (fs_nodes s). \<not> inside p q"
  shows "snd (fs_rmdir p s) = prune (under p) s"
proof -
  have "snd (fs_rmdir p s) = prune (\<lambda>q. q = p) s"
    using assms by (auto simp: fs_rmdir_def remove_node_prune)
  also have "\<dots> = prune (under p) s"
    using assms(3) by (intro prune_cong) (auto simp: under_def)
  finally show ?thesis .
qed

lemma delete_tree_prune:
  "fs_wf s \<Longrightarrow> fs_io s = [] \<Longrightarrow> lookup s dir = Some DirN \<Longrightarrow> 0 < n \<Longrightarrow> max_path s < n + length dir \<Longrightarrow>
     delete_tree n dir s = Some (prune (under dir) s)"
  "fs_wf s \<Longrightarrow> fs_io s = [] \<Longrightarrow> max_path s \<le> n + length dir \<Longrightarrow> distinct es \<Longrightarrow>
     set es \<subseteq> set (dir_names dir s) \<Longrightarrow>
     delete_entries n dir es s = Some (prune (\<lambda>p. \<exists>e \<in> set es. under (dir @ CHR ''/'' # e) p) s)"
proof (induction n dir s and n dir es s rule: delete_tree_delete_entries.induct)
  case (2 n dir s)
  have o: "fs_opendir dir s = (Some (dir_names dir s), s)" using 2(3,4) by (simp add: fs_opendir_def fs_readdir_def)
  let ?P = "\<lambda>p. \<exists>e \<in> set (dir_names dir s). under (dir @ CHR ''/'' # e) p"
  have d: "delete_entries n dir (dir_names dir s) s = Some (prune ?P s)"
    using 2(1) [OF o [symmetric] refl 2(2,3) _ distinct_dir_names [OF 2(2)]] 2(6) by simp
  have "\<not> ?P dir" by (auto dest: under_length)
  moreover have "\<forall>q \<in> fst ` set (fs_nodes (prune ?P s)). \<not> inside dir q"
    using inside_child [OF 2(2)] by fastforce
  ultimately have "snd (fs_rmdir dir (prune ?P s)) = prune (under dir) (prune ?P s)"
    using 2(3,4) by (intro rmdir_prune) auto
  also have "\<dots> = prune (under dir) s"
    unfolding prune_prune using under_trans [OF under_child] by (intro prune_cong) blast
  finally show ?case by (simp add: o d)
next
  case (4 n dir e es s)
  let ?p = "dir @ ''/'' @ e"
  have e: "CHR ''/'' \<notin> set e" "?p \<in> fst ` set (fs_nodes s)" "e \<notin> set es" "distinct es"
    using 4(7,8) dir_names_iff [of e dir s] by auto
  have dots: "\<not> (e = ''.'' \<or> e = ''..'')" using fs_wfD [OF 4(4), of dir e] e(2) by simp
  have st: "fs_stat ?p s = (lookup s ?p, s)" using 4(5) by (simp add: fs_stat_def)
  have len: "length ?p \<le> max_path s" using e(2) max_path_ge by fastforce
  have del: "delete_entry n ?p (lookup s ?p) s = Some (prune (under ?p) s)"
  proof (cases "lookup s ?p")
    case None
    then show ?thesis using e(2) lookup_None by blast
  next
    case (Some nd)
    show ?thesis
    proof (cases nd)
      case (FileN b)
      then show ?thesis using unlink_prune [OF 4(4,5)] Some by simp
    next
      case DirN
      then have "0 < n" "max_path s < n + length ?p" using len 4(6) by simp_all
      then show ?thesis
        using 4(2) [OF dots refl st [symmetric] _ 4(4,5)] Some DirN by simp
    qed
  qed
  let ?s2 = "prune (under ?p) s"
  have wf2: "fs_wf ?s2" using fs_wf_prune [OF 4(4)] under_trans by blast
  have m2: "max_path ?s2 \<le> n + length dir" using 4(6) max_path_mono [of ?s2 s] by fastforce
  have sub: "set es \<subseteq> set (dir_names dir ?s2)"
  proof
    fix x assume x: "x \<in> set es"
    then have "CHR ''/'' \<notin> set x" "dir @ CHR ''/'' # x \<in> fst ` set (fs_nodes s)"
      using 4(8) dir_names_iff [of x dir s] by auto
    moreover have "\<not> under ?p (dir @ CHR ''/'' # x)"
      using child_inside_child [of x dir e] calculation(1) e(3) x by auto
    ultimately show "x \<in> set (dir_names dir ?s2)" unfolding dir_names_iff by force
  qed
  have "delete_entries n dir es ?s2 = Some (prune (\<lambda>p. \<exists>e \<in> set es. under (dir @ CHR ''/'' # e) p) ?s2)"
    using 4(3) [OF dots refl st [symmetric] del wf2 _ m2 e(4) sub] 4(5) by simp
  then have "delete_entries n dir (e # es) s = Some (prune (\<lambda>p. \<exists>e \<in> set es. under (dir @ CHR ''/'' # e) p) ?s2)"
    unfolding delete_entries_step [OF dots st] del by simp
  then show ?case by (simp add: prune_prune)
next
  case (3 n dir s)
  have "prune (\<lambda>p. \<exists>e \<in> set []. under (dir @ CHR ''/'' # e) p) s = s" by (simp add: prune_none)
  then show ?case unfolding delete_entries.simps by simp
next
  case (1 dir s)
  then show ?case by blast
qed

section \<open>Creating and renaming\<close>

lemma split_last_slash:
  assumes "p = d @ CHR ''/'' # r" and "CHR ''/'' \<notin> set r"
  shows "parent p = d" and "valid_name p \<longleftrightarrow> r \<notin> {''.'', ''..''}"
proof -
  have t: "takeWhile (\<lambda>c. c \<noteq> CHR ''/'') (rev r @ CHR ''/'' # x) = rev r"
    "dropWhile (\<lambda>c. c \<noteq> CHR ''/'') (rev r @ CHR ''/'' # x) = CHR ''/'' # x" for x
  proof -
    have n: "\<And>c. c \<in> set (rev r) \<Longrightarrow> c \<noteq> CHR ''/''" using assms(2) by auto
    show "takeWhile (\<lambda>c. c \<noteq> CHR ''/'') (rev r @ CHR ''/'' # x) = rev r"
      by (subst takeWhile_append2) (use n in simp_all)
    show "dropWhile (\<lambda>c. c \<noteq> CHR ''/'') (rev r @ CHR ''/'' # x) = CHR ''/'' # x"
      by (subst dropWhile_append2) (use n in simp_all)
  qed
  show "parent p = d" using assms(1) t by (simp add: parent_def)
  show "valid_name p \<longleftrightarrow> r \<notin> {''.'', ''..''}" using assms(1) t by (simp add: valid_name_def)
qed

text \<open>All ancestors of a path whose parent is a directory are directories.\<close>

lemma ancestors_ok:
  assumes wf: "fs_wf s" and par: "lookup s (parent p) = Some DirN" and v: "valid_name p"
    and p: "p = d @ CHR ''/'' # r"
  shows "(d = [] \<or> lookup s d = Some DirN) \<and> r \<noteq> ''.'' \<and> r \<noteq> ''..''"
proof -
  define n where "n = rev (takeWhile (\<lambda>c. c \<noteq> CHR ''/'') (rev r))"
  define m where "m = rev (dropWhile (\<lambda>c. c \<noteq> CHR ''/'') (rev r))"
  have r: "r = m @ n" unfolding n_def m_def by (metis rev_append rev_rev_ident takeWhile_dropWhile_id)
  have nn: "CHR ''/'' \<notin> set n" by (auto simp: n_def dest: set_takeWhileD)
  show ?thesis
  proof (cases "m = []")
    case True
    then show ?thesis using split_last_slash [OF p] par v r nn by auto
  next
    case False
    then have "dropWhile (\<lambda>c. c \<noteq> CHR ''/'') (rev r) \<noteq> []" by (simp add: m_def)
    then have "hd (dropWhile (\<lambda>c. c \<noteq> CHR ''/'') (rev r)) = CHR ''/''"
      using hd_dropWhile [of "\<lambda>c. c \<noteq> CHR ''/''" "rev r"] by simp
    then obtain k where k: "m = k @ [CHR ''/'']" unfolding m_def using \<open>dropWhile _ _ \<noteq> []\<close>
      by (metis list.exhaust_sel rev.simps(2))
    have "p = (d @ CHR ''/'' # k) @ CHR ''/'' # n" using p r k by simp
    then have pp: "parent p = d @ CHR ''/'' # k" using split_last_slash(1) nn by blast
    then have "d @ CHR ''/'' # k \<in> fst ` set (fs_nodes s)"
      using par lookup_None [of s "d @ CHR ''/'' # k"] by simp
    moreover have "CHR ''/'' \<in> set r" using r k by simp
    then have "r \<noteq> ''.'' \<and> r \<noteq> ''..''" by auto
    ultimately show ?thesis using fs_wfD [OF wf] by blast
  qed
qed

lemma fs_wf_put:
  assumes wf: "fs_wf s" and par: "lookup s (parent p) = Some DirN" and v: "valid_name p"
    and n: "n = DirN \<or> lookup s p \<noteq> Some DirN"
  shows "fs_wf (put_node p n s)"
proof (rule fs_wfI)
  show "distinct (map fst (fs_nodes (put_node p n s)))"
    using wf by (auto simp: put_node_def fs_wf_def distinct_map_filter)
  fix d r
  assume "d @ CHR ''/'' # r \<in> fst ` set (fs_nodes (put_node p n s))"
  then have "d @ CHR ''/'' # r = p \<or> d @ CHR ''/'' # r \<in> fst ` set (fs_nodes s)"
    by (auto simp: put_node_def)
  then have "(d = [] \<or> lookup s d = Some DirN) \<and> r \<noteq> ''.'' \<and> r \<noteq> ''..''"
    using ancestors_ok [OF wf par v, of d r] fs_wfD [OF wf, of d r] by auto
  then show "(d = [] \<or> lookup (put_node p n s) d = Some DirN) \<and> r \<noteq> ''.'' \<and> r \<noteq> ''..''"
    using n by auto
qed

lemma fs_wf_file_put:
  assumes "fs_wf s" and "lookup s p = Some (FileN a)"
  shows "fs_wf (put_node p (FileN b) s)"
proof (rule fs_wfI)
  show "distinct (map fst (fs_nodes (put_node p (FileN b) s)))"
    using assms(1) by (auto simp: put_node_def fs_wf_def distinct_map_filter)
  fix d r
  assume "d @ CHR ''/'' # r \<in> fst ` set (fs_nodes (put_node p (FileN b) s))"
  then have "d @ CHR ''/'' # r \<in> fst ` set (fs_nodes s)"
    using lookup_None [of s p] assms(2) by (auto simp: put_node_def)
  from fs_wfD [OF assms(1) this]
  show "(d = [] \<or> lookup (put_node p (FileN b) s) d = Some DirN) \<and> r \<noteq> ''.'' \<and> r \<noteq> ''..''"
    using assms(2) by auto
qed

text \<open>Where a renamed volume keeps what.\<close>

lemma under_append: "under a q \<Longrightarrow> \<exists>r. q = a @ r \<and> (\<forall>b. under b (b @ r))"
  by (auto simp: under_def inside_def prefix_def)

lemma under_move: "under old p \<Longrightarrow> under new (new @ drop (length old) p)"
  using under_append by fastforce

lemma under_eq_append: "under a q \<Longrightarrow> q = a @ drop (length a) q"
  using under_append by fastforce

lemma under_app_eq: "under a (a @ r) \<Longrightarrow> under b (b @ r)"
  by (auto simp: under_def inside_def prefix_def)

lemma moved_eq_iff:
  assumes "under new q" and "\<not> inside new p" and "p \<noteq> new"
  shows "move_path old new p = q \<longleftrightarrow> p = old @ drop (length new) q"
proof -
  obtain r where r: "q = new @ r" "under new (new @ r)" using assms(1) under_append by fastforce
  have o: "under old (old @ r)" using under_app_eq [OF r(2)] .
  show ?thesis
  proof (cases "under old p")
    case True
    then obtain r' where "p = old @ r'" using under_append by blast
    then show ?thesis using True r(1) by (simp add: move_path_def)
  next
    case False
    then show ?thesis using assms o r(1) by (auto simp: move_path_def under_def)
  qed
qed

lemma map_of_moved_inside:
  assumes "\<not> under old new" and "under new q" and "\<forall>p \<in> fst ` set xs. \<not> inside new p"
  shows "map_of (map (\<lambda>(p, n). (move_path old new p, n)) (filter (\<lambda>(p, _). p \<noteq> new) xs)) q =
    map_of xs (old @ drop (length new) q)"
  using assms(3)
proof (induction xs)
  case (Cons x xs)
  obtain p n where x: "x = (p, n)" by fastforce
  have "old @ drop (length new) q \<noteq> new"
    using assms(1,2) under_append [OF assms(2)] under_app_eq by fastforce
  then show ?case using Cons moved_eq_iff [OF assms(2), of p old] x by auto
qed simp

lemma map_of_moved_outside:
  assumes "\<not> under new q"
  shows "map_of (map (\<lambda>(p, n). (move_path old new p, n)) (filter (\<lambda>(p, _). p \<noteq> new) xs)) q =
    (if under old q then None else map_of xs q)"
proof (induction xs)
  case (Cons x xs)
  obtain p n where x: "x = (p, n)" by fastforce
  have "move_path old new p = q \<longleftrightarrow> p = q \<and> \<not> under old q"
    using assms under_move [of old p new] by (auto simp: move_path_def)
  moreover have "q \<noteq> new" using assms by auto
  ultimately show ?case using Cons x by auto
qed simp

text \<open>A successful \<^verbatim>\<open>rename\<close> in one piece.\<close>

lemma renameE:
  assumes "fs_rename old new s = (True, t)"
  obtains "old \<noteq> []" "lookup s old \<noteq> None" "\<not> under old new" "valid_name new" "lookup s (parent new) = Some DirN"
    "parent new \<noteq> old"
    "lookup s new = None \<or> (\<exists>b c. lookup s old = Some (FileN b) \<and> lookup s new = Some (FileN c))"
    "fs_nodes t = map (\<lambda>(p, n). (move_path old new p, n)) (filter (\<lambda>(p, _). p \<noteq> new) (fs_nodes s))"
proof -
  obtain a s1 where n: "next_io s = (a, s1)" by fastforce
  show ?thesis
    using assms n by (auto simp: fs_rename_def under_def is_file_iff split: if_splits intro: that)
qed

lemma rename_target_bare:
  assumes wf: "fs_wf s" and "fs_rename old new s = (True, t)"
  shows "\<forall>p \<in> fst ` set (fs_nodes s). \<not> inside new p"
proof
  fix p assume p: "p \<in> fst ` set (fs_nodes s)"
  show "\<not> inside new p"
  proof
    assume "inside new p"
    then obtain r where r: "p = new @ CHR ''/'' # r" by (auto simp: inside_def prefix_def)
    from assms(2) have "new \<noteq> [] \<and> lookup s new \<noteq> Some DirN"
      by (rule renameE) (auto simp: parent_def)
    then show False using fs_wfD [OF wf, of new r] p r by auto
  qed
qed

lemma rename_lookup:
  assumes "fs_wf s" and "fs_rename old new s = (True, t)"
  shows "lookup t q = (if under new q then lookup s (old @ drop (length new) q)
    else if under old q then None else lookup s q)"
proof -
  note bare = rename_target_bare [OF assms]
  from assms(2) show ?thesis
    by (rule renameE)
      (use map_of_moved_inside [OF _ _ bare] in \<open>simp add: lookup_def map_of_moved_outside\<close>)
qed

section \<open>Every call keeps the volume well formed\<close>

lemma fs_wf_nodes: "fs_nodes t = fs_nodes s \<Longrightarrow> fs_wf t \<longleftrightarrow> fs_wf s"
  by (simp add: fs_wf_def lookup_def)

lemma fs_wf_next_io: "next_io s = (a, t) \<Longrightarrow> fs_wf t \<longleftrightarrow> fs_wf s"
  by (rule fs_wf_nodes) simp

lemma fs_wf_remove:
  assumes "fs_wf s" and "\<forall>q \<in> fst ` set (fs_nodes s). \<not> inside p q"
  shows "fs_wf (remove_node p s)"
proof -
  have "prune (\<lambda>q. q = p) s = prune (under p) s"
    using assms(2) by (intro prune_cong) (auto simp: under_def)
  moreover have "fs_wf (prune (under p) s)" using fs_wf_prune [OF assms(1)] under_trans by blast
  ultimately show ?thesis by (simp add: remove_node_prune)
qed

lemma fs_wf_unlink:
  assumes "fs_wf s" and "p \<noteq> []"
  shows "fs_wf (snd (fs_unlink p s))"
proof -
  obtain a s1 where n: "next_io s = (a, s1)" by fastforce
  have wf1: "fs_wf s1" using fs_wf_next_io [OF n] assms(1) by simp
  have "fs_wf (remove_node p s1)" if "lookup s1 p = Some (FileN b)" for b
  proof -
    have "\<not> inside p p" by (simp add: inside_def prefix_def)
    then have "\<not> inside p q" if "q \<in> fst ` set (fs_nodes s1)" for q
      using file_no_inside [OF wf1 \<open>lookup s1 p = _\<close> assms(2) that] unfolding under_def by metis
    then show ?thesis using fs_wf_remove [OF wf1] by blast
  qed
  then show ?thesis using n wf1 by (auto simp: fs_unlink_def split: option.splits node.splits)
qed

lemma fs_wf_rmdir:
  assumes "fs_wf s"
  shows "fs_wf (snd (fs_rmdir p s))"
proof -
  obtain a s1 where n: "next_io s = (a, s1)" by fastforce
  have wf1: "fs_wf s1" using fs_wf_next_io [OF n] assms by simp
  have "fs_wf (remove_node p s1)" if "\<not> (\<exists>(q, _) \<in> set (fs_nodes s1). inside p q)"
    using fs_wf_remove [OF wf1, of p] that by (auto simp: case_prod_beta)
  then show ?thesis using wf1 n by (simp add: fs_rmdir_def)
qed

lemma fs_wf_stat: "fs_wf s \<Longrightarrow> fs_wf (snd (fs_stat p s))"
  using fs_wf_next_io by (fastforce simp: fs_stat_def split: prod.splits)

lemma fs_wf_opendir: "fs_wf s \<Longrightarrow> fs_wf (snd (fs_opendir p s))"
  using fs_wf_next_io by (auto simp: fs_opendir_def fs_readdir_def split: prod.splits if_splits)

lemma fs_wf_mkdir: "fs_wf s \<Longrightarrow> fs_wf (snd (fs_mkdir p s))"
  using fs_wf_next_io fs_wf_put by (fastforce simp: fs_mkdir_def split: prod.splits)

lemma fs_wf_fopen: "fs_wf s \<Longrightarrow> fs_wf (snd (fs_fopen_w p s))"
  using fs_wf_next_io fs_wf_put by (fastforce simp: fs_fopen_w_def split: prod.splits)

lemma fs_wf_fclose:
  assumes "fs_wf s" and "lookup s p = Some (FileN b)"
  shows "fs_wf (fs_fclose p bs s)"
proof -
  obtain a s1 where n: "next_io s = (a, s1)" by fastforce
  have "fs_wf s1" "lookup s1 p = Some (FileN b)" using fs_wf_next_io [OF n] n assms by simp_all
  from fs_wf_file_put [OF this] show ?thesis using n by (simp add: fs_fclose_def split: io.splits)
qed

lemma inj_move_path:
  assumes "\<forall>p \<in> K. \<not> inside new p" and "new \<notin> K"
  shows "inj_on (move_path old new) K"
proof (rule inj_onI)
  fix p q
  assume pq: "p \<in> K" "q \<in> K" "move_path old new p = move_path old new q"
  have nu: "\<not> under new p" "\<not> under new q" using pq assms by (auto simp: under_def)
  have "under old p \<longleftrightarrow> under old q"
    using pq(3) nu under_move [of old p new] under_move [of old q new] unfolding move_path_def by metis
  then show "p = q"
    using pq(3) under_eq_append [of old p] under_eq_append [of old q]
    by (auto simp: move_path_def split: if_splits)
qed

text \<open>Below a moved node: the parts of its new path.\<close>

lemma moved_parts:
  assumes "under old p" and "d @ CHR ''/'' # r = new @ drop (length old) p"
  obtains (above) z where "new = d @ CHR ''/'' # z" "r = z \<or> CHR ''/'' \<in> set r"
    | (at) "d = new" "p = old @ CHR ''/'' # r"
    | (below) k where "d = new @ CHR ''/'' # k" "p = (old @ CHR ''/'' # k) @ CHR ''/'' # r"
proof -
  consider "p = old" | y where "p = old @ CHR ''/'' # y"
    using assms(1) by (auto simp: under_def inside_def prefix_def)
  then show ?thesis
  proof cases
    case 1
    then show ?thesis using assms(2) above [of r] by simp
  next
    case (2 y)
    then have eq: "d @ CHR ''/'' # r = new @ CHR ''/'' # y" using assms(2) by simp
    then consider u where "d = new @ u" "u @ CHR ''/'' # r = CHR ''/'' # y"
      | u where "new = d @ u" "u @ CHR ''/'' # y = CHR ''/'' # r"
      by (auto simp: append_eq_append_conv2)
    then show ?thesis
    proof cases
      case (1 u)
      then show ?thesis using at below 2 by (cases u) auto
    next
      case (2 u)
      then show ?thesis using at above \<open>p = old @ CHR ''/'' # y\<close> by (cases u) auto
    qed
  qed
qed

lemma fs_wf_rename:
  assumes wf: "fs_wf s" and ren: "fs_rename old new s = (True, t)"
  shows "fs_wf t"
proof -
  from ren have o: "old \<noteq> []" "\<not> under old new" "valid_name new" "lookup s (parent new) = Some DirN"
    and nodes: "fs_nodes t = map (\<lambda>(p, n). (move_path old new p, n)) (filter (\<lambda>(p, _). p \<noteq> new) (fs_nodes s))"
    by (rule renameE, blast)+
  note bare = rename_target_bare [OF wf ren] and look = rename_lookup [OF wf ren]
  show ?thesis
  proof (rule fs_wfI)
    let ?xs = "filter (\<lambda>(p, _). p \<noteq> new) (fs_nodes s)"
    have "distinct (map fst ?xs)" using wf by (simp add: fs_wf_def distinct_map_filter)
    moreover have "inj_on (move_path old new) (set (map fst ?xs))"
      using bare by (intro inj_move_path) auto
    moreover have "map fst (fs_nodes t) = map (move_path old new) (map fst ?xs)"
      unfolding nodes by (simp add: case_prod_beta comp_def)
    ultimately show "distinct (map fst (fs_nodes t))" by (simp only: distinct_map)
    fix d r
    assume "d @ CHR ''/'' # r \<in> fst ` set (fs_nodes t)"
    then obtain p where p: "p \<in> fst ` set (fs_nodes s)" "p \<noteq> new" "d @ CHR ''/'' # r = move_path old new p"
      unfolding nodes by force
    have anc: "(d = [] \<or> lookup t d = Some DirN) \<and> z \<noteq> ''.'' \<and> z \<noteq> ''..''" if z: "new = d @ CHR ''/'' # z" for z
    proof -
      have "\<not> under new d" using z under_length [of new d] by auto
      moreover have "\<not> under old d" using o(2) z under_trans [of old d new] by auto
      ultimately show ?thesis using ancestors_ok [OF wf o(4,3) z] by (simp add: look)
    qed
    show "(d = [] \<or> lookup t d = Some DirN) \<and> r \<noteq> ''.'' \<and> r \<noteq> ''..''"
    proof (cases "under old p")
      case True
      then have "d @ CHR ''/'' # r = new @ drop (length old) p" using p(3) by (simp add: move_path_def)
      with True show ?thesis
      proof (cases rule: moved_parts)
        case (above z)
        then show ?thesis using anc [of z] by auto
      next
        case at
        then show ?thesis using fs_wfD [OF wf, of old r] p(1) o(1) by (simp add: look)
      next
        case (below k)
        then show ?thesis using fs_wfD [OF wf, of "old @ CHR ''/'' # k" r] p(1) by (simp add: look)
      qed
    next
      case False
      then have q: "p = d @ CHR ''/'' # r" using p(3) by (simp add: move_path_def)
      then have dp: "under d p" by simp
      have "\<not> under old d" using False dp under_trans by blast
      moreover have "\<not> under new p" using bare p(1,2) unfolding under_def by blast
      then have "\<not> under new d" using dp under_trans by blast
      ultimately show ?thesis using fs_wfD [OF wf, of d r] p(1) q by (simp add: look)
    qed
  qed
qed

lemma delete_tree_wf:
  "delete_tree n dir s = Some t \<Longrightarrow> fs_wf s \<Longrightarrow> fs_wf t"
  "delete_entries n dir es s = Some t \<Longrightarrow> fs_wf s \<Longrightarrow> fs_wf t"
proof (induction n dir s and n dir es s arbitrary: t and t rule: delete_tree_delete_entries.induct)
  case (2 n dir s)
  obtain d s1 where o: "fs_opendir dir s = (d, s1)" by fastforce
  have wf1: "fs_wf s1" using fs_wf_opendir [OF 2(3), of dir] o by simp
  show ?case
  proof (cases d)
    case None
    then show ?thesis using 2(2) o wf1 by simp
  next
    case (Some names)
    then obtain s2 where s2: "delete_entries n dir names s1 = Some s2" "t = snd (fs_rmdir dir s2)"
      using 2(2) o by (auto split: option.splits)
    then have "fs_wf s2" using 2(1) [OF o [symmetric] Some] wf1 by simp
    then show ?thesis using s2(2) fs_wf_rmdir by simp
  qed
next
  case (4 n dir e es s)
  show ?case
  proof (cases "e = ''.'' \<or> e = ''..''")
    case True
    then show ?thesis using 4(1,4,5) by auto
  next
    case False
    let ?p = "dir @ ''/'' @ e"
    obtain st s1 where st: "fs_stat ?p s = (st, s1)" by fastforce
    have wf1: "fs_wf s1" using fs_wf_stat [OF 4(5), of ?p] st by simp
    obtain s2 where s2: "delete_entry n ?p st s1 = Some s2" and r: "delete_entries n dir es s2 = Some t"
      using 4(4) unfolding delete_entries_step [OF False st]
      by (cases "delete_entry n ?p st s1") (simp_all only: option.case option.simps)
    have "fs_wf s2"
    proof (cases "st = Some DirN")
      case True
      then show ?thesis using 4(2) [OF False refl st [symmetric]] s2 wf1 by simp
    next
      case False
      then have "s2 = snd (fs_unlink ?p s1)" using s2 by simp
      then show ?thesis using fs_wf_unlink [OF wf1, of ?p] by simp
    qed
    then show ?thesis using 4(3) [OF False refl st [symmetric] s2 r] by simp
  qed
qed simp_all

lemma fs_wf_rm_tree: "fs_wf s \<Longrightarrow> fs_wf (rm_tree dir s)"
  by (rule delete_tree_wf(1) [OF rm_tree_eq])

section \<open>Clients of a volume\<close>

text \<open>What a client that only works on the paths of an area may rely on: a relation between the
  volume before and after that every call on the area respects, whichever calls fail. The
  relation is proved once for the download code and used for two of them: nothing outside the
  area changes, and the volume stays well formed.\<close>

locale file_area =
  fixes R :: "fs \<Rightarrow> fs \<Rightarrow> bool" and A :: "path \<Rightarrow> bool"
  assumes R_refl: "R s s"
    and R_trans: "R s t \<Longrightarrow> R t u \<Longrightarrow> R s u"
    and A_child: "A p \<Longrightarrow> A (p @ CHR ''/'' # e)"
    and R_stat: "R s (snd (fs_stat p s))"
    and R_read: "R s (snd (read_text_file p s))"
    and R_mkdir: "A p \<Longrightarrow> R s (snd (fs_mkdir p s))"
    and R_unlink: "A p \<Longrightarrow> R s (snd (fs_unlink p s))"
    and R_open: "A p \<Longrightarrow> R s (snd (fs_fopen_w p s))"
    and R_write: "A p \<Longrightarrow> fs_fopen_w p s = (True, t) \<Longrightarrow> R s (fs_fclose p bs t)"
    and R_rename: "A p \<Longrightarrow> A q \<Longrightarrow> R s (snd (fs_rename p q s))"
    and R_rm_tree: "A p \<Longrightarrow> R s (rm_tree p s)"
begin

lemma R_via: "f s = (r, t) \<Longrightarrow> R s (snd (f s)) \<Longrightarrow> R s t"
  by simp

lemma R_stat_then: "R (snd (fs_stat p s)) t \<Longrightarrow> R s t"
  using R_trans R_stat by blast

end

definition changes_only :: "(path \<Rightarrow> bool) \<Rightarrow> fs \<Rightarrow> fs \<Rightarrow> bool" where
  "changes_only P s t \<longleftrightarrow> (\<forall>q. \<not> P q \<longrightarrow> lookup t q = lookup s q)"

lemma next_io_lookup: "lookup (snd (next_io s)) q = lookup s q"
  by (cases "next_io s") simp

lemma stat_lookup: "lookup (snd (fs_stat p s)) q = lookup s q"
  using next_io_lookup [of s q] by (simp add: fs_stat_def split: prod.splits)

lemma read_lookup: "lookup (snd (read_text_file p s)) q = lookup s q"
proof -
  obtain a s1 where n: "next_io s = (a, s1)" by fastforce
  obtain b s2 where m: "next_io s1 = (b, s2)" by fastforce
  show ?thesis using n m by (simp add: read_text_file_def Let_def split: option.splits node.splits)
qed

lemma read_wf: "fs_wf s \<Longrightarrow> fs_wf (snd (read_text_file p s))"
proof -
  assume wf: "fs_wf s"
  obtain a s1 where n: "next_io s = (a, s1)" by fastforce
  obtain b s2 where m: "next_io s1 = (b, s2)" by fastforce
  have "fs_wf s1" "fs_wf s2" using fs_wf_next_io [OF n] fs_wf_next_io [OF m] wf by simp_all
  then show ?thesis using n m by (simp add: read_text_file_def Let_def split: option.splits node.splits)
qed

lemma mkdir_lookup: "q \<noteq> p \<Longrightarrow> lookup (snd (fs_mkdir p s)) q = lookup s q"
  using next_io_lookup [of s q] by (simp add: fs_mkdir_def split: prod.splits)

lemma rename_outside:
  assumes "\<not> under new q" and "\<not> under old q"
  shows "lookup (snd (fs_rename old new s)) q = lookup s q"
proof -
  obtain a s1 where n: "next_io s = (a, s1)" by fastforce
  then show ?thesis using assms by (simp add: fs_rename_def lookup_def map_of_moved_outside)
qed

interpretation outside: file_area "changes_only P" "\<lambda>p. \<forall>q. under p q \<longrightarrow> P q" for P
proof unfold_locales
  show "\<And>p e. \<forall>q. under p q \<longrightarrow> P q \<Longrightarrow> \<forall>q. under (p @ CHR ''/'' # e) q \<longrightarrow> P q"
    using under_trans [OF under_child] by blast
  show "changes_only P s (fs_fclose p bs t)"
    if "\<forall>q. under p q \<longrightarrow> P q" "fs_fopen_w p s = (True, t)" for p s t bs
    using that fclose_lookup [of _ p bs t] fopen_w_lookup [OF that(2)] under_refl [of p]
    unfolding changes_only_def by metis
  show "changes_only P s (snd (fs_fopen_w p s))" if "\<forall>q. under p q \<longrightarrow> P q" for p s
    using that fopen_w_lookup [of p s "fst (fs_fopen_w p s)" "snd (fs_fopen_w p s)"] under_refl [of p]
    unfolding changes_only_def prod.collapse by metis
  show "changes_only P s (snd (fs_unlink p s))" if "\<forall>q. under p q \<longrightarrow> P q" for p s
    using that unlink_lookup [of _ p s] under_refl [of p] unfolding changes_only_def by metis
  show "changes_only P s (snd (fs_mkdir p s))" if "\<forall>q. under p q \<longrightarrow> P q" for p s
    using that mkdir_lookup [of _ p s] under_refl [of p] unfolding changes_only_def by metis
  show "changes_only P s (snd (fs_rename p q s))"
    if "\<forall>x. under p x \<longrightarrow> P x" "\<forall>x. under q x \<longrightarrow> P x" for p q s
    using that rename_outside [of q _ p s] unfolding changes_only_def by blast
  show "changes_only P s (rm_tree p s)" if "\<forall>q. under p q \<longrightarrow> P q" for p s
    using that rm_tree_lookup [of p _ s] unfolding changes_only_def by blast
qed (simp_all add: changes_only_def stat_lookup read_lookup)

interpretation formed: file_area "\<lambda>s t. fs_wf s \<longrightarrow> fs_wf t" "\<lambda>p. p \<noteq> []"
proof unfold_locales
  show "fs_wf s \<longrightarrow> fs_wf (fs_fclose p bs t)" if "fs_fopen_w p s = (True, t)" for p s t bs
    using fs_wf_fclose [of t p "[]" bs] fs_wf_fopen [of s p] fopen_w_lookup [OF that, of p] that by simp
  show "fs_wf s \<longrightarrow> fs_wf (snd (fs_rename p q s))" for p q s
  proof -
    obtain a s1 where n: "next_io s = (a, s1)" by fastforce
    obtain ok t where r: "fs_rename p q s = (ok, t)" by fastforce
    then have "\<not> ok \<Longrightarrow> t = s1" using n by (auto simp: fs_rename_def split: if_splits)
    then show ?thesis using fs_wf_rename [of s p q t] fs_wf_next_io [OF n] r by (cases ok) simp_all
  qed
qed (simp_all add: fs_wf_stat read_wf fs_wf_mkdir fs_wf_unlink fs_wf_fopen fs_wf_rm_tree)

section \<open>Properties\<close>

text \<open>C36. Deleting a directory tree, whatever calls fail on the way, ends within the depth of the
  volume and changes nothing outside that tree: every other path keeps its contents.\<close>

theorem delete_tree_outside:
  "\<exists>t. delete_tree (Suc (Suc (max_path s))) dir s = Some t \<and>
     (\<forall>p. under dir p \<or> lookup t p = lookup s p)"
  using rm_tree_eq [of s dir] rm_tree_lookup [of dir _ s] by blast

text \<open>C37. On a well-formed volume without failing calls, deleting a directory removes it and
  everything inside it, and nothing else.\<close>

theorem delete_tree_complete:
  assumes "fs_wf s" and "fs_io s = []" and "lookup s dir = Some DirN"
  shows "\<exists>t. delete_tree (Suc (Suc (max_path s))) dir s = Some t \<and> fs_wf t \<and>
     (\<forall>p. lookup t p = (if under dir p then None else lookup s p))"
proof -
  have "delete_tree (Suc (Suc (max_path s))) dir s = Some (prune (under dir) s)"
    using assms by (intro delete_tree_prune(1)) simp_all
  moreover have "fs_wf (prune (under dir) s)" using fs_wf_prune [OF assms(1)] under_trans by blast
  ultimately show ?thesis by simp
qed

subsection \<open>Witness\<close>

definition demo_fs :: fs where
  "demo_fs = \<lparr>fs_nodes = [(''/s'', DirN), (''/s/a'', DirN), (''/s/a/f'', FileN [1]), (''/s/b'', FileN [2])],
     fs_io = [], fs_replace = False\<rparr>"

lemma demo_fs_wf: "fs_wf demo_fs"
  by (auto simp: fs_wf_def demo_fs_def lookup_def Cons_eq_append_conv)

lemma delete_tree_complete_witness:
  "\<exists>t. delete_tree (Suc (Suc (max_path demo_fs))) ''/s/a'' demo_fs = Some t \<and>
     lookup t ''/s/a/f'' = None \<and> lookup t ''/s/b'' = Some (FileN [2])"
  using delete_tree_complete [OF demo_fs_wf, of "''/s/a''"]
  by (auto simp: demo_fs_def lookup_def under_def inside_def)

end
