(* ===== verification/SdBus.thy ===== *)
theory SdBus
  imports FileSys
begin

text \<open>
  The SD card bus of \<^verbatim>\<open>src/src/simibox_download.cpp\<close>: the clock ladder, the bit-banged reset
  sequence, cleaning the bus at boot, mounting with falling clocks and unmounting. The GPIO, SPI
  and VFS drivers are parameters: their answers come from scripts in the state (an empty script
  answers \<^verbatim>\<open>ESP_OK\<close>), and every call is appended to the trace \<open>ops\<close>, from which \<open>clk_edges\<close>
  reads what a card on the bus sees.
\<close>

section \<open>Pins and calls\<close>

definition SD_CS_PIN :: nat where "SD_CS_PIN = 5"
definition SD_MOSI_PIN :: nat where "SD_MOSI_PIN = 23"
definition SD_MISO_PIN :: nat where "SD_MISO_PIN = 19"
definition SD_CLK_PIN :: nat where "SD_CLK_PIN = 18"
definition RFID_SS_PIN :: nat where "RFID_SS_PIN = 21"
definition RFID_RST_PIN :: nat where "RFID_RST_PIN = 4"

lemmas pin_defs = SD_CS_PIN_def SD_MOSI_PIN_def SD_MISO_PIN_def SD_CLK_PIN_def RFID_SS_PIN_def
  RFID_RST_PIN_def

definition SD_SPI_FREQ_KHZ :: int where "SD_SPI_FREQ_KHZ = 10000"

datatype gpio_mode = GPIO_MODE_OUTPUT | GPIO_MODE_INPUT

text \<open>\<open>GpioConfig pins mode pull_up\<close>; levels are 0 or 1.\<close>

datatype hw_op =
    GpioConfig "nat list" gpio_mode bool
  | GpioSet nat nat
  | DelayUs nat
  | TaskDelay nat
  | SpiInit
  | SpiFree
  | Mount string int
  | Unmount string
  | SetCardClk int

record sd_st =
  s_card :: bool
  s_spi_bus_initialized :: bool
  s_sd_freq_khz :: int
  ops :: "hw_op list"
  spi_rets :: "esp_err list"
  mount_rets :: "esp_err list"
  has_set_card_clk :: bool
  clk_rets :: "esp_err list"
  vol :: fs

definition emit :: "hw_op list \<Rightarrow> sd_st \<Rightarrow> sd_st" where
  "emit os s = s\<lparr>ops := ops s @ os\<rparr>"

section \<open>The clock ladder\<close>

definition SD_FREQ_LADDER :: "int list" where "SD_FREQ_LADDER = [20000, 10000, 4000]"

text \<open>The first rung strictly below \<open>cur\<close>.\<close>

fun first_below :: "int list \<Rightarrow> int \<Rightarrow> int" where
  "first_below [] cur = - 1"
| "first_below (f # fs) cur = (if f < cur then f else first_below fs cur)"

definition sd_next_lower_freq :: "int \<Rightarrow> int" where
  "sd_next_lower_freq cur = first_below SD_FREQ_LADDER cur"

definition pop_clk :: "sd_st \<Rightarrow> esp_err \<times> sd_st" where
  "pop_clk s = (case clk_rets s of [] \<Rightarrow> (ESP_OK, s) | e # es \<Rightarrow> (e, s\<lparr>clk_rets := es\<rparr>))"

definition set_sd_freq :: "int \<Rightarrow> sd_st \<Rightarrow> bool \<times> sd_st" where
  "set_sd_freq freq_khz s =
     (if \<not> s_card s \<or> \<not> has_set_card_clk s then (False, s)
      else (case pop_clk (emit [SetCardClk freq_khz] s) of (err, s1) \<Rightarrow>
              if err \<noteq> ESP_OK then (False, s1) else (True, s1)))"

section \<open>The reset sequence\<close>

text \<open>One clock period as the loops generate it.\<close>

definition clk_pulse :: "hw_op list" where
  "clk_pulse = [GpioSet SD_CLK_PIN 0, DelayUs 2, GpioSet SD_CLK_PIN 1, DelayUs 2]"

definition clk_pulses :: "nat \<Rightarrow> hw_op list" where
  "clk_pulses n = concat (replicate n clk_pulse)"

definition CMD0 :: "u8 list" where "CMD0 = [0x40, 0x00, 0x00, 0x00, 0x00, 0x95]"

text \<open>\<^verbatim>\<open>(byte >> bit) & 1\<close> for \<open>bit\<close> from 7 down to 0.\<close>

definition bits_msb :: "u8 \<Rightarrow> nat list" where
  "bits_msb b = map (\<lambda>i. unat (drop_bit i b AND 1)) (rev [0..<8])"

definition send_bit :: "nat \<Rightarrow> hw_op list" where
  "send_bit v = GpioSet SD_MOSI_PIN v # clk_pulse"

definition send_bytes :: "u8 list \<Rightarrow> hw_op list" where
  "send_bytes bs = concat (map send_bit (concat (map bits_msb bs)))"

definition reset_setup :: "hw_op list" where
  "reset_setup =
     [GpioConfig [SD_CS_PIN, SD_CLK_PIN, SD_MOSI_PIN] GPIO_MODE_OUTPUT False,
      GpioConfig [SD_MISO_PIN] GPIO_MODE_INPUT True,
      GpioConfig [RFID_SS_PIN, RFID_RST_PIN] GPIO_MODE_OUTPUT True,
      GpioSet RFID_SS_PIN 1, GpioSet RFID_RST_PIN 1,
      GpioSet SD_CS_PIN 1, GpioSet SD_CLK_PIN 0, GpioSet SD_MOSI_PIN 1]"

definition phase_a :: "hw_op list" where
  "phase_a = [GpioSet SD_CS_PIN 0] @ clk_pulses 512 @ [GpioSet SD_CS_PIN 1, TaskDelay 20]"

definition phase_b_cycle :: "hw_op list" where
  "phase_b_cycle = [GpioSet SD_CS_PIN 1] @ clk_pulses 8 @
     [GpioSet SD_CS_PIN 0, DelayUs 100, GpioSet SD_CS_PIN 1, DelayUs 100]"

definition phase_b :: "hw_op list" where
  "phase_b = concat (replicate 5 phase_b_cycle) @ [TaskDelay 20]"

definition phase_c :: "hw_op list" where
  "phase_c = [GpioSet SD_CS_PIN 1] @ clk_pulses 160"

definition phase_d :: "hw_op list" where
  "phase_d = [GpioSet SD_CS_PIN 0] @ send_bytes CMD0 @ [GpioSet SD_MOSI_PIN 1] @ clk_pulses 80 @
     [GpioSet SD_CS_PIN 1, TaskDelay 50]"

definition sd_aggressive_card_reset :: "sd_st \<Rightarrow> sd_st" where
  "sd_aggressive_card_reset s = emit (reset_setup @ phase_a @ phase_b @ phase_c @ phase_d) s"

section \<open>Cleaning, mounting, unmounting\<close>

definition sd_power_cycle :: "sd_st \<Rightarrow> sd_st" where "sd_power_cycle s = s"

definition drop_card :: "string \<Rightarrow> sd_st \<Rightarrow> sd_st" where
  "drop_card mount_point s = (if s_card s then (emit [Unmount mount_point] s)\<lparr>s_card := False\<rparr> else s)"

definition free_bus :: "sd_st \<Rightarrow> sd_st" where
  "free_bus s =
     (if s_spi_bus_initialized s then (emit [SpiFree] s)\<lparr>s_spi_bus_initialized := False\<rparr> else s)"

definition force_clean_sd_bus :: "sd_st \<Rightarrow> sd_st" where
  "force_clean_sd_bus s =
     (let s1 = drop_card ''/sdcard'' s;
          s2 = emit [TaskDelay 50] (free_bus s1);
          s3 = sd_aggressive_card_reset (sd_power_cycle s2)
      in emit [GpioConfig [SD_CS_PIN, RFID_SS_PIN] GPIO_MODE_OUTPUT True,
               GpioSet SD_CS_PIN 1, GpioSet RFID_SS_PIN 1, GpioSet RFID_RST_PIN 1, TaskDelay 100] s3)"

definition spi_bus_initialize :: "sd_st \<Rightarrow> esp_err \<times> sd_st" where
  "spi_bus_initialize s =
     (let s1 = emit [SpiInit] s in
      case spi_rets s1 of [] \<Rightarrow> (ESP_OK, s1) | e # es \<Rightarrow> (e, s1\<lparr>spi_rets := es\<rparr>))"

text \<open>\<^verbatim>\<open>esp_vfs_fat_sdspi_mount\<close> stores the card handle when it succeeds.\<close>

definition sdspi_mount :: "string \<Rightarrow> int \<Rightarrow> sd_st \<Rightarrow> esp_err \<times> sd_st" where
  "sdspi_mount mount_point freq s =
     (let s1 = emit [Mount mount_point freq] s;
          (e, s2) = (case mount_rets s1 of [] \<Rightarrow> (ESP_OK, s1) | e # es \<Rightarrow> (e, s1\<lparr>mount_rets := es\<rparr>))
      in (e, if e = ESP_OK then s2\<lparr>s_card := True\<rparr> else s2))"

definition mount_ladder :: "int list" where "mount_ladder = [SD_SPI_FREQ_KHZ, 10000, 4000, 400]"

text \<open>The retry loop over the ladder: \<open>i\<close> is the index, \<open>prev_freq\<close> the last clock tried.\<close>

fun mount_loop :: "string \<Rightarrow> nat \<Rightarrow> int list \<Rightarrow> int \<Rightarrow> sd_st \<Rightarrow> bool \<times> sd_st" where
  "mount_loop mount_point i [] prev_freq s = (False, s)"
| "mount_loop mount_point i (freq # fs) prev_freq s =
     (if freq \<ge> prev_freq then mount_loop mount_point (Suc i) fs prev_freq s
      else
        (let s1 = (if i > 0 then emit [GpioSet SD_CS_PIN 1, TaskDelay (200 * i)] s else s);
             (ret, s2) = sdspi_mount mount_point freq s1
         in if ret = ESP_OK then (True, s2\<lparr>s_sd_freq_khz := freq\<rparr>)
            else mount_loop mount_point (Suc i) fs freq s2))"

definition mount_pulse :: "hw_op list" where
  "mount_pulse = [GpioSet SD_CLK_PIN 1, DelayUs 5, GpioSet SD_CLK_PIN 0, DelayUs 5]"

definition mount_sd :: "string \<Rightarrow> sd_st \<Rightarrow> bool \<times> sd_st" where
  "mount_sd mount_point s =
     (let s1 = emit [GpioConfig [RFID_SS_PIN, SD_CS_PIN, RFID_RST_PIN] GPIO_MODE_OUTPUT True,
                GpioSet RFID_SS_PIN 1, GpioSet SD_CS_PIN 1, GpioSet RFID_RST_PIN 1, TaskDelay 50] s;
          (ret1, s2) = spi_bus_initialize s1;
          (ret, s3) = (if ret1 = ESP_ERR_INVALID_STATE
                       then spi_bus_initialize (emit [SpiFree, TaskDelay 50] s2) else (ret1, s2))
      in if ret \<noteq> ESP_OK then (False, s3)
         else
           (let s4 = emit ([GpioSet SD_CS_PIN 1, GpioSet SD_CLK_PIN 0] @ concat (replicate 80 mount_pulse) @
                       [TaskDelay 10]) (s3\<lparr>s_spi_bus_initialized := True\<rparr>);
                (ok, s5) = mount_loop mount_point 0 mount_ladder 1000000 s4
            in if ok then (True, s5)
               else (False, (emit [SpiFree] s5)\<lparr>s_spi_bus_initialized := False\<rparr>)))"

text \<open>The sync file of a healthy card: opened, written, closed, removed.\<close>

definition sync_text :: "byte list" where "sync_text = [0x73, 0x79, 0x6e, 0x63]"

definition sync_volume :: "string \<Rightarrow> fs \<Rightarrow> fs" where
  "sync_volume mount_point v =
     (let p = mount_point @ ''/.sync'' in
      case fs_fopen_w p v of (ok, v1) \<Rightarrow>
        if ok then snd (fs_unlink p (fs_fclose p sync_text v1)) else v1)"

definition unmount_sd :: "string \<Rightarrow> bool \<Rightarrow> sd_st \<Rightarrow> sd_st" where
  "unmount_sd mount_point card_healthy s =
     (let s1 = (if card_healthy
                then emit [TaskDelay 200] (s\<lparr>vol := sync_volume mount_point (vol s)\<rparr>) else s);
          s2 = emit [TaskDelay 200] (drop_card mount_point s1);
          s3 = free_bus s2
      in sd_power_cycle (emit [GpioSet SD_CS_PIN 1] s3))"

section \<open>What the card sees\<close>

text \<open>At each rising edge of the clock a card samples chip select and the data line; the pin
  levels are followed through the trace.\<close>

record wires = w_cs :: nat  w_mosi :: nat  w_clk :: nat

fun clk_edges :: "wires \<Rightarrow> hw_op list \<Rightarrow> (nat \<times> nat) list" where
  "clk_edges w [] = []"
| "clk_edges w (GpioSet p v # os) =
     (if p = SD_CS_PIN then clk_edges (w\<lparr>w_cs := v\<rparr>) os
      else if p = SD_MOSI_PIN then clk_edges (w\<lparr>w_mosi := v\<rparr>) os
      else if p = SD_CLK_PIN then
        (if w_clk w = 0 \<and> v = 1 then [(w_cs w, w_mosi w)] else []) @ clk_edges (w\<lparr>w_clk := v\<rparr>) os
      else clk_edges w os)"
| "clk_edges w (_ # os) = clk_edges w os"

fun wires_after :: "wires \<Rightarrow> hw_op list \<Rightarrow> wires" where
  "wires_after w [] = w"
| "wires_after w (GpioSet p v # os) =
     (if p = SD_CS_PIN then wires_after (w\<lparr>w_cs := v\<rparr>) os
      else if p = SD_MOSI_PIN then wires_after (w\<lparr>w_mosi := v\<rparr>) os
      else if p = SD_CLK_PIN then wires_after (w\<lparr>w_clk := v\<rparr>) os
      else wires_after w os)"
| "wires_after w (_ # os) = wires_after w os"

text \<open>The CRC-7 of an SD command (polynomial \<open>x^7 + x^3 + 1\<close>) over the bits of its first five
  bytes, and the closing byte: CRC and end bit.\<close>

definition crc7_bit :: "nat \<Rightarrow> nat \<Rightarrow> nat" where
  "crc7_bit b c = (let c2 = (2 * c) mod 128 in if (c div 64 + b) mod 2 = 1 then c2 XOR 9 else c2)"

definition crc7 :: "nat list \<Rightarrow> nat" where
  "crc7 bs = fold crc7_bit bs 0"

lemma clk_edges_append: "clk_edges w (xs @ ys) = clk_edges w xs @ clk_edges (wires_after w xs) ys"
  by (induction w xs rule: clk_edges.induct) auto

lemma wires_after_append: "wires_after w (xs @ ys) = wires_after (wires_after w xs) ys"
  by (induction w xs rule: wires_after.induct) auto

lemmas wires_append = clk_edges_append wires_after_append

lemma clk_pulse_wires [simp]:
  "clk_edges w clk_pulse = [(w_cs w, w_mosi w)]" "wires_after w clk_pulse = w\<lparr>w_clk := 1\<rparr>"
  by (simp_all add: clk_pulse_def pin_defs)

lemma clk_pulses_wires [simp]:
  "clk_edges w (clk_pulses n) = replicate n (w_cs w, w_mosi w)"
  "0 < n \<Longrightarrow> wires_after w (clk_pulses n) = w\<lparr>w_clk := 1\<rparr>"
proof (induction n arbitrary: w)
  case (Suc n)
  {
    case 1
    then show ?case using Suc(1) [of "w\<lparr>w_clk := 1\<rparr>"] by (simp add: clk_pulses_def wires_append)
  next
    case 2
    then show ?case using Suc(2) [of "w\<lparr>w_clk := 1\<rparr>"]
      by (cases n) (simp_all add: clk_pulses_def wires_append)
  }
qed (simp_all add: clk_pulses_def)

lemma send_bits_wires:
  "clk_edges w (concat (map send_bit vs)) = map (Pair (w_cs w)) vs"
  "vs \<noteq> [] \<Longrightarrow> wires_after w (concat (map send_bit vs)) = w\<lparr>w_mosi := last vs, w_clk := 1\<rparr>"
proof (induction vs arbitrary: w)
  case (Cons v vs)
  have b: "clk_edges w (send_bit v) = [(w_cs w, v)]"
    "wires_after w (send_bit v) = w\<lparr>w_mosi := v, w_clk := 1\<rparr>" for w
    by (simp_all add: send_bit_def pin_defs)
  {
    case 1
    show ?case using Cons(1) [of "w\<lparr>w_mosi := v, w_clk := 1\<rparr>"] by (simp add: wires_append b)
  next
    case 2
    show ?case using Cons(2) [of "w\<lparr>w_mosi := v, w_clk := 1\<rparr>"]
      by (cases "vs = []") (simp_all add: wires_append b)
  }
qed simp_all

lemma gpio_wires [simp]:
  "clk_edges w [GpioSet SD_CS_PIN v] = []" "wires_after w [GpioSet SD_CS_PIN v] = w\<lparr>w_cs := v\<rparr>"
  "clk_edges w [GpioSet SD_MOSI_PIN v] = []" "wires_after w [GpioSet SD_MOSI_PIN v] = w\<lparr>w_mosi := v\<rparr>"
  by (simp_all add: pin_defs)

lemma phase_b_cycle_wires:
  "clk_edges w phase_b_cycle = replicate 8 (1, w_mosi w)"
  "wires_after w phase_b_cycle = w\<lparr>w_cs := 1, w_clk := 1\<rparr>"
  by (simp_all add: phase_b_cycle_def wires_append pin_defs)

lemma phase_b_cycles_wires:
  "clk_edges w (concat (replicate n phase_b_cycle)) = replicate (n * 8) (1, w_mosi w) \<and>
   wires_after w (concat (replicate n phase_b_cycle)) = (if n = 0 then w else w\<lparr>w_cs := 1, w_clk := 1\<rparr>)"
proof (induction n arbitrary: w)
  case (Suc n)
  show ?case using Suc [of "w\<lparr>w_cs := 1, w_clk := 1\<rparr>"]
    by (simp add: wires_append phase_b_cycle_wires flip: replicate_add)
qed simp

abbreviation CMD0_bits :: "nat list" where "CMD0_bits \<equiv> concat (map bits_msb CMD0)"

lemma bits_msb_values:
  "bits_msb 0x40 = [0, 1, 0, 0, 0, 0, 0, 0]" "bits_msb 0 = [0, 0, 0, 0, 0, 0, 0, 0]"
  "bits_msb 0x95 = [1, 0, 0, 1, 0, 1, 0, 1]"
proof -
  have "rev [0..<8] = [7, 6, 5, 4, 3, 2, 1, 0 :: nat]" by (simp add: upt_rec)
  then show "bits_msb 0x40 = [0, 1, 0, 0, 0, 0, 0, 0]" "bits_msb 0 = [0, 0, 0, 0, 0, 0, 0, 0]"
    "bits_msb 0x95 = [1, 0, 0, 1, 0, 1, 0, 1]" by (simp_all add: bits_msb_def)
qed

section \<open>Mounting\<close>

fun mounts :: "hw_op list \<Rightarrow> int list" where
  "mounts [] = []"
| "mounts (Mount p f # os) = f # mounts os"
| "mounts (_ # os) = mounts os"

lemma mounts_append [simp]: "mounts (xs @ ys) = mounts xs @ mounts ys"
  by (induction xs rule: mounts.induct) auto

lemma mounts_pulses [simp]: "mounts (concat (replicate n mount_pulse)) = []"
  by (induction n) (simp_all add: mount_pulse_def)

text \<open>The rungs of a ladder that are really tried, highest first.\<close>

fun rungs :: "int \<Rightarrow> int list \<Rightarrow> int list" where
  "rungs prev [] = []"
| "rungs prev (f # fs) = (if f \<ge> prev then rungs prev fs else f # rungs f fs)"

definition same_but_card :: "sd_st \<Rightarrow> sd_st \<Rightarrow> bool" where
  "same_but_card s t \<longleftrightarrow> s_spi_bus_initialized t = s_spi_bus_initialized s \<and> vol t = vol s \<and>
     has_set_card_clk t = has_set_card_clk s"

lemma sdspi_mount_cases:
  assumes "sdspi_mount mp f s = (ret, t)"
  shows "mounts (ops t) = mounts (ops s) @ [f]" "s_card t = (ret = ESP_OK \<or> s_card s)"
    "s_sd_freq_khz t = s_sd_freq_khz s" "same_but_card s t"
  using assms
  by (auto simp: sdspi_mount_def emit_def Let_def same_but_card_def split: list.splits if_splits)

lemma same_but_card_trans: "same_but_card s t \<Longrightarrow> same_but_card t u \<Longrightarrow> same_but_card s u"
  by (simp add: same_but_card_def)

lemma mount_loop_rungs:
  assumes "mount_loop mp i fs prev s = (ok, t)"
  shows "\<exists>p q. rungs prev fs = p @ q \<and> mounts (ops t) = mounts (ops s) @ p \<and> same_but_card s t \<and>
    (if ok then p \<noteq> [] \<and> s_sd_freq_khz t = last p \<and> s_card t
     else q = [] \<and> s_sd_freq_khz t = s_sd_freq_khz s \<and> s_card t = s_card s)"
  using assms
proof (induction mp i fs prev s rule: mount_loop.induct)
  case (1 mp i prev s)
  then show ?case by (simp add: same_but_card_def)
next
  case (2 mp i freq fs prev s)
  show ?case
  proof (cases "freq \<ge> prev")
    case True
    then show ?thesis using 2(1) [OF True] 2(3) by simp
  next
    case False
    define s1 where "s1 = (if i > 0 then emit [GpioSet SD_CS_PIN 1, TaskDelay (200 * i)] s else s)"
    have s1: "mounts (ops s1) = mounts (ops s)" "s_card s1 = s_card s" "s_sd_freq_khz s1 = s_sd_freq_khz s"
      "same_but_card s s1" by (simp_all add: s1_def emit_def same_but_card_def)
    obtain ret s2 where m: "sdspi_mount mp freq s1 = (ret, s2)" by fastforce
    note mc = sdspi_mount_cases [OF m]
    show ?thesis
    proof (cases "ret = ESP_OK")
      case True
      then have "ok" "t = s2\<lparr>s_sd_freq_khz := freq\<rparr>" using 2(3) False m by (simp_all add: s1_def [symmetric])
      then show ?thesis
        using False s1 mc True same_but_card_trans [OF s1(4) mc(4)]
        by (intro exI [of _ "[freq]"] exI [of _ "rungs freq fs"]) (simp add: same_but_card_def)
    next
      case ret: False
      then have "mount_loop mp (Suc i) fs freq s2 = (ok, t)" using 2(3) False m by (simp add: s1_def [symmetric])
      from 2(2) [OF False s1_def m [symmetric] refl ret this] obtain p q where
        pq: "rungs freq fs = p @ q" "mounts (ops t) = mounts (ops s2) @ p" "same_but_card s2 t"
        "if ok then p \<noteq> [] \<and> s_sd_freq_khz t = last p \<and> s_card t
         else q = [] \<and> s_sd_freq_khz t = s_sd_freq_khz s2 \<and> s_card t = s_card s2" by blast
      then show ?thesis
        using False s1 mc ret same_but_card_trans [OF same_but_card_trans [OF s1(4) mc(4)] pq(3)]
        by (intro exI [of _ "freq # p"] exI [of _ q]) (simp split: if_splits)
    qed
  qed
qed

lemma ladder_rungs: "rungs 1000000 mount_ladder = [10000, 4000, 400]"
  by (simp add: mount_ladder_def SD_SPI_FREQ_KHZ_def)

section \<open>Properties\<close>

text \<open>C38. What the card sees of the reset sequence, whatever the lines were before: 512 clocks
  selected, 200 clocks deselected with the data line high (an SD card asks for at least 74 before
  its first command), then the 48 bits of the command frame selected, then 80 clocks selected
  with the data line high; the card ends deselected. The frame is CMD0 with argument 0 and ends
  in the CRC-7 of its first 40 bits and the end bit.\<close>

theorem reset_sequence_card_view:
  assumes "wires_after w (reset_setup @ phase_a @ phase_b @ phase_c @ phase_d) = w'"
  shows "clk_edges w (reset_setup @ phase_a @ phase_b @ phase_c @ phase_d) =
      replicate 512 (0, 1) @ replicate 200 (1, 1) @ map (Pair 0) CMD0_bits @ replicate 80 (0, 1) \<and>
    w_cs w' = 1 \<and>
    take 8 CMD0_bits = [0, 1, 0, 0, 0, 0, 0, 0] \<and>
    crc7 (take 40 CMD0_bits) * 2 + 1 = unat (last CMD0)"
proof -
  have ne: "CMD0_bits \<noteq> []" by (simp add: CMD0_def bits_msb_values)
  have pre: "clk_edges w reset_setup = []" "wires_after w reset_setup = w\<lparr>w_cs := 1, w_clk := 0, w_mosi := 1\<rparr>"
    by (simp_all add: reset_setup_def pin_defs)
  have a: "clk_edges u phase_a = replicate 512 (0, w_mosi u)" "wires_after u phase_a = u\<lparr>w_cs := 1, w_clk := 1\<rparr>" for u
    by (simp_all add: phase_a_def wires_append pin_defs)
  have b: "clk_edges u phase_b = replicate 40 (1, w_mosi u)" "wires_after u phase_b = u\<lparr>w_cs := 1, w_clk := 1\<rparr>" for u
    using phase_b_cycles_wires [of u 5] by (simp_all add: phase_b_def wires_append)
  have c: "clk_edges u phase_c = replicate 160 (1, w_mosi u)" "wires_after u phase_c = u\<lparr>w_cs := 1, w_clk := 1\<rparr>" for u
    by (simp_all add: phase_c_def wires_append pin_defs)
  have d: "clk_edges u phase_d = map (Pair 0) CMD0_bits @ replicate 80 (0, 1)" "w_cs (wires_after u phase_d) = 1" for u
    using ne by (simp_all add: phase_d_def wires_append send_bytes_def send_bits_wires pin_defs)
  have "replicate 40 ((1 :: nat), (1 :: nat)) @ replicate 160 (1, 1) = replicate 200 (1, 1)"
    by (simp flip: replicate_add)
  then have "clk_edges w (reset_setup @ phase_a @ phase_b @ phase_c @ phase_d) =
      replicate 512 (0, 1) @ replicate 200 (1, 1) @ map (Pair 0) CMD0_bits @ replicate 80 (0, 1)"
    by (simp add: wires_append pre a b c d)
  moreover have "w_cs w' = 1" using assms by (simp add: wires_append d flip: assms)
  moreover have "take 8 CMD0_bits = [0, 1, 0, 0, 0, 0, 0, 0]" by (simp add: CMD0_def bits_msb_values)
  moreover have "crc7 (take 40 CMD0_bits) * 2 + 1 = unat (last CMD0)"
    by (simp add: CMD0_def bits_msb_values crc7_def crc7_bit_def)
  ultimately show ?thesis by blast
qed

text \<open>C17. Mounting tries the clocks 10 MHz, 4 MHz and 400 kHz in this order, each at most once,
  and stops at the first that works. On success the card handle is set, the bus is marked in use
  and the remembered clock is the one that worked; a failure leaves the card handle as it was, and
  either the bus could not be initialised (nothing was tried) or all three clocks failed and the
  bus was released.\<close>

theorem mount_sd_outcome:
  assumes "mount_sd mp s = (ok, t)"
  shows "\<exists>p q. [10000, 4000, 400] = p @ q \<and> mounts (ops t) = mounts (ops s) @ p \<and> vol t = vol s \<and>
    (if ok then p \<noteq> [] \<and> s_sd_freq_khz t = last p \<and> s_card t \<and> s_spi_bus_initialized t
     else s_card t = s_card s \<and>
       (p = [] \<and> s_spi_bus_initialized t = s_spi_bus_initialized s \<or> q = [] \<and> \<not> s_spi_bus_initialized t))"
proof -
  define s1 where "s1 = emit [GpioConfig [RFID_SS_PIN, SD_CS_PIN, RFID_RST_PIN] GPIO_MODE_OUTPUT True,
    GpioSet RFID_SS_PIN 1, GpioSet SD_CS_PIN 1, GpioSet RFID_RST_PIN 1, TaskDelay 50] s"
  obtain r1 s2 where i1: "spi_bus_initialize s1 = (r1, s2)" by fastforce
  obtain r s3 where i2: "(if r1 = ESP_ERR_INVALID_STATE then spi_bus_initialize (emit [SpiFree, TaskDelay 50] s2)
      else (r1, s2)) = (r, s3)" by fastforce
  have s3: "mounts (ops s3) = mounts (ops s)" "s_card s3 = s_card s" "vol s3 = vol s"
    "s_spi_bus_initialized s3 = s_spi_bus_initialized s"
    using i1 i2 by (auto simp: s1_def spi_bus_initialize_def emit_def Let_def split: list.splits if_splits)
  note body = mount_sd_def [of mp s, unfolded Let_def, folded s1_def, unfolded i1 prod.case, unfolded i2 prod.case]
  show ?thesis
  proof (cases "r = ESP_OK")
    case False
    then have "\<not> ok" "t = s3" using assms unfolding body by simp_all
    then show ?thesis using s3 by - (rule exI [of _ "[]"], rule exI [of _ "[10000, 4000, 400]"], simp)
  next
    case True
    define s4 where "s4 = emit ([GpioSet SD_CS_PIN 1, GpioSet SD_CLK_PIN 0] @ concat (replicate 80 mount_pulse) @
      [TaskDelay 10]) (s3\<lparr>s_spi_bus_initialized := True\<rparr>)"
    obtain ok' s5 where l: "mount_loop mp 0 mount_ladder 1000000 s4 = (ok', s5)" by fastforce
    have s4: "mounts (ops s4) = mounts (ops s)" "s_card s4 = s_card s" "vol s4 = vol s" "s_spi_bus_initialized s4"
      using s3 by (simp_all add: s4_def emit_def)
    have t: "ok = ok'" "t = (if ok then s5 else (emit [SpiFree] s5)\<lparr>s_spi_bus_initialized := False\<rparr>)"
      using assms True unfolding body s4_def [symmetric] l by (auto split: if_splits)
    obtain p q where pq: "[10000, 4000, 400] = p @ q" "mounts (ops s5) = mounts (ops s4) @ p" "same_but_card s4 s5"
      "if ok then p \<noteq> [] \<and> s_sd_freq_khz s5 = last p \<and> s_card s5
       else q = [] \<and> s_sd_freq_khz s5 = s_sd_freq_khz s4 \<and> s_card s5 = s_card s4"
      using mount_loop_rungs [OF l] unfolding ladder_rungs t(1) [symmetric] by blast
    then show ?thesis
      using s4 t(2) by (intro exI [of _ p] exI [of _ q]) (auto simp: same_but_card_def emit_def)
  qed
qed

text \<open>The next lower clock is the highest rung strictly below the current one; there is none
  exactly when the clock is already at or below 4 MHz.\<close>

theorem sd_next_lower_freq_spec:
  "(if cur \<le> 4000 then sd_next_lower_freq cur = - 1
    else sd_next_lower_freq cur \<in> {20000, 10000, 4000} \<and> sd_next_lower_freq cur < cur \<and>
      (\<forall>f \<in> {20000, 10000, 4000}. f < cur \<longrightarrow> f \<le> sd_next_lower_freq cur))"
  by (auto simp: sd_next_lower_freq_def SD_FREQ_LADDER_def)

lemma sync_volume_others: "q \<noteq> mp @ ''/.sync'' \<Longrightarrow> lookup (sync_volume mp v) q = lookup v q"
proof -
  assume q: "q \<noteq> mp @ ''/.sync''"
  obtain ok v1 where o: "fs_fopen_w (mp @ ''/.sync'') v = (ok, v1)" by fastforce
  show ?thesis
    using q fopen_w_lookup [OF o, of q]
    by (simp add: sync_volume_def Let_def o unlink_lookup fclose_lookup)
qed

text \<open>Unmounting leaves no card handle and no bus in use and touches no file besides
  \<^verbatim>\<open>.sync\<close>; an unhealthy card's volume is not touched at all. Cleaning the bus at boot leaves no
  card handle and no bus in use either and never touches the volume.\<close>

theorem unmount_and_clean_release:
  "\<not> s_card (unmount_sd mp healthy s) \<and> \<not> s_spi_bus_initialized (unmount_sd mp healthy s) \<and>
   (q = mp @ ''/.sync'' \<or> lookup (vol (unmount_sd mp healthy s)) q = lookup (vol s) q) \<and>
   vol (unmount_sd mp False s) = vol s \<and>
   \<not> s_card (force_clean_sd_bus s) \<and> \<not> s_spi_bus_initialized (force_clean_sd_bus s) \<and>
   vol (force_clean_sd_bus s) = vol s"
  using sync_volume_others [of q mp "vol s"]
  by (auto simp: unmount_sd_def force_clean_sd_bus_def drop_card_def free_bus_def emit_def Let_def
      sd_power_cycle_def sd_aggressive_card_reset_def)

subsection \<open>Witnesses\<close>

lemma reset_sequence_card_view_witness:
  "length (clk_edges \<lparr>w_cs = 0, w_mosi = 0, w_clk = 0\<rparr> (reset_setup @ phase_a @ phase_b @ phase_c @ phase_d)) = 840"
  using reset_sequence_card_view [OF refl, of "\<lparr>w_cs = 0, w_mosi = 0, w_clk = 0\<rparr>"]
  by (simp add: CMD0_def bits_msb_values)

lemma mount_sd_outcome_witness:
  "\<exists>ok t. mount_sd ''/sdcard'' \<lparr>s_card = False, s_spi_bus_initialized = False, s_sd_freq_khz = 10000,
     ops = [], spi_rets = [], mount_rets = [ESP_FAIL], has_set_card_clk = True, clk_rets = [],
     vol = \<lparr>fs_nodes = [], fs_io = [], fs_replace = False\<rparr>\<rparr> = (ok, t) \<and> length (mounts (ops t)) \<le> 3"
proof -
  let ?s = "\<lparr>s_card = False, s_spi_bus_initialized = False, s_sd_freq_khz = 10000,
     ops = [], spi_rets = [], mount_rets = [ESP_FAIL], has_set_card_clk = True, clk_rets = [],
     vol = \<lparr>fs_nodes = [], fs_io = [], fs_replace = False\<rparr>\<rparr>"
  obtain ok t where m: "mount_sd ''/sdcard'' ?s = (ok, t)" by fastforce
  obtain p q where "[10000, 4000, 400] = p @ q" "mounts (ops t) = p"
    using mount_sd_outcome [OF m] by auto
  then have "length (mounts (ops t)) \<le> 3" by (metis le_add1 length_append length_Cons list.size(3) numeral_3_eq_3)
  then show ?thesis using m by blast
qed

lemma sd_next_lower_freq_spec_witness: "sd_next_lower_freq 10000 \<in> {20000, 10000, 4000} \<and> sd_next_lower_freq 10000 < 10000"
  using sd_next_lower_freq_spec [of 10000] by auto

end
