(* ===== verification/Led.thy ===== *)
theory Led
  imports Complex_Main Prelude
begin

text \<open>
  The status LED of \<^verbatim>\<open>src/src/simibox_led_idf.c\<close>: the pattern state machine, the pattern
  setters, one animation frame (\<^verbatim>\<open>led_animate_step\<close>), the animation task's start and stop, and
  the duty registers of the three LEDC channels.

  Single-precision arithmetic is a parameter \<open>fp\<close>: a rounding function for \<^verbatim>\<open>float\<close>, one for
  \<^verbatim>\<open>double\<close>, and \<^verbatim>\<open>sinf\<close>, on rationals. The locale \<open>float_arith\<close> states the facts of IEEE
  arithmetic the bounds need (rounding is monotone, keeps the floats and the small dyadic numbers,
  and the two literal sums of the code do not exceed 1; a sine lies between -1 and 1); it is
  interpreted on rounding to multiples of \<^verbatim>\<open>2^-24\<close>.

  The setters are lists of single stores, because they take no lock, \<^verbatim>\<open>led_show_solid\<close> apart. What
  a setter does by itself is the list run to its end (\<open>led_show_progress\<close> and so on, and
  \<open>led_animate_step\<close> for a whole frame): this is what the other theories use. The section on the
  two tasks interleaves the stores of the calling task with the animation task, whose frame is
  split at every access to a field that a setter writes too; only the recursive mutex
  \<^verbatim>\<open>s_ledc_mutex\<close> keeps the two apart, where the code takes it.
\<close>

section \<open>Arithmetic\<close>

record float_ops =
  f32 :: "rat \<Rightarrow> rat"
  f64 :: "rat \<Rightarrow> rat"
  sinf :: "rat \<Rightarrow> rat"

definition fadd :: "float_ops \<Rightarrow> rat \<Rightarrow> rat \<Rightarrow> rat" where "fadd fp a b = f32 fp (a + b)"
definition fsub :: "float_ops \<Rightarrow> rat \<Rightarrow> rat \<Rightarrow> rat" where "fsub fp a b = f32 fp (a - b)"
definition fmul :: "float_ops \<Rightarrow> rat \<Rightarrow> rat \<Rightarrow> rat" where "fmul fp a b = f32 fp (a * b)"
definition fdiv :: "float_ops \<Rightarrow> rat \<Rightarrow> rat \<Rightarrow> rat" where "fdiv fp a b = f32 fp (a / b)"

text \<open>\<^verbatim>\<open>fmodf\<close> is exact and takes the sign of its first argument.\<close>

definition fmodf :: "rat \<Rightarrow> rat \<Rightarrow> rat" where
  "fmodf a b = a - b * of_int (if 0 \<le> a / b then \<lfloor>a / b\<rfloor> else \<lceil>a / b\<rceil>)"

definition M_PI :: rat where "M_PI = 884279719003555 / 281474976710656"

text \<open>The conversion of a \<^verbatim>\<open>float\<close> in range to \<^verbatim>\<open>uint16_t\<close> drops the fraction; out of range
  the conversion is undefined in C, and \<open>hsv_to_rgb_in_range\<close> says when that does not happen.\<close>

definition to_u16 :: "rat \<Rightarrow> u16" where "to_u16 x = of_int \<lfloor>x\<rfloor>"

definition LEDC_MAX_DUTY :: nat where "LEDC_MAX_DUTY = 2 ^ 12 - 1"

locale float_arith =
  fixes fp :: float_ops
  assumes f32_mono: "x \<le> y \<Longrightarrow> f32 fp x \<le> f32 fp y"
    and f32_idem: "f32 fp (f32 fp x) = f32 fp x"
    and f32_exact: "f32 fp 0 = 0" "f32 fp 1 = 1" "f32 fp (- 1) = - 1" "f32 fp 2 = 2"
      "f32 fp (1 / 4) = 1 / 4" "f32 fp (1 / 2) = 1 / 2" "f32 fp (3 / 2) = 3 / 2" "f32 fp 4095 = 4095"
      "f32 fp (1 / 16) = 1 / 16" "f32 fp (7 / 16) = 7 / 16" "f32 fp (21 / 8) = 21 / 8" "f32 fp 7 = 7"
    and f32_literals: "f32 fp (f32 fp (2 / 10) + f32 fp (8 / 10)) \<le> 1"
      "f32 fp (f32 fp (6 / 10) + f32 fp (4 / 10)) \<le> 1"
    and sinf_bounds: "- 1 \<le> sinf fp x" "sinf fp x \<le> 1"
begin

lemma f32_nonneg: "0 \<le> x \<Longrightarrow> 0 \<le> f32 fp x"
  using f32_mono [of 0 x] f32_exact(1) by simp

lemma f32_le_1: "x \<le> 1 \<Longrightarrow> f32 fp x \<le> 1"
  using f32_mono [of x 1] f32_exact(2) by simp

lemma f32_le_half: "x \<le> 1 / 2 \<Longrightarrow> f32 fp x \<le> 1 / 2"
  using f32_mono [of x "1 / 2"] f32_exact(6) by simp

lemma f32_le_three_halves: "x \<le> 3 / 2 \<Longrightarrow> f32 fp x \<le> 3 / 2"
  using f32_mono [of x "3 / 2"] f32_exact(7) by simp

lemma fmul_unit: "0 \<le> a \<Longrightarrow> a \<le> 1 \<Longrightarrow> 0 \<le> b \<Longrightarrow> b \<le> 1 \<Longrightarrow> 0 \<le> fmul fp a b \<and> fmul fp a b \<le> 1"
  unfolding fmul_def using mult_le_one [of a b] by (simp add: f32_nonneg f32_le_1)

text \<open>\<^verbatim>\<open>(sinf(x) + 1.0f) / 2.0f\<close> lies in the unit interval.\<close>

lemma half_wave: "0 \<le> fdiv fp (fadd fp (sinf fp x) 1) 2 \<and> fdiv fp (fadd fp (sinf fp x) 1) 2 \<le> 1"
proof -
  have "0 \<le> f32 fp (sinf fp x + 1)" using sinf_bounds(1) [of x] by (intro f32_nonneg) simp
  moreover have "f32 fp (sinf fp x + 1) \<le> 2"
    using f32_mono [of "sinf fp x + 1" 2] sinf_bounds(2) [of x] f32_exact(4) by simp
  ultimately show ?thesis by (simp add: fdiv_def fadd_def f32_nonneg f32_le_1)
qed

end

section \<open>State\<close>

datatype led_pattern_t =
    LED_PATTERN_NONE
  | LED_PATTERN_WIFI_CONNECTING
  | LED_PATTERN_DOWNLOADING
  | LED_PATTERN_DOWNLOAD_RAINBOW
  | LED_PATTERN_SUCCESS
  | LED_PATTERN_ERROR
  | LED_PATTERN_RETRY
  | LED_PATTERN_PROGRESS

record led_st =
  pattern :: led_pattern_t
  last_update :: u32
  hue :: rat
  progress_percent :: u8
  blink_state :: bool
  s_led_task :: bool
  s_ledc_mutex :: bool
  s_led_task_stop :: bool
  duty :: "u16 \<times> u16 \<times> u16"

definition led_boot :: led_st where
  "led_boot = \<lparr>pattern = LED_PATTERN_NONE, last_update = 0, hue = 0, progress_percent = 0,
     blink_state = False, s_led_task = False, s_ledc_mutex = False, s_led_task_stop = False,
     duty = (0, 0, 0)\<rparr>"

section \<open>Colours\<close>

definition hsv_to_rgb :: "float_ops \<Rightarrow> rat \<Rightarrow> rat \<Rightarrow> rat \<Rightarrow> u16 \<times> u16 \<times> u16" where
  "hsv_to_rgb fp h s v =
     (let c = fmul fp v s;
          x = fmul fp c (fsub fp 1 \<bar>fsub fp (fmodf (fmul fp h 6) 2) 1\<bar>);
          m = fsub fp v c;
          (rf, gf, bf) =
            (if h < f32 fp (1 / 6) then (c, x, 0)
             else if h < f32 fp (2 / 6) then (x, c, 0)
             else if h < f32 fp (3 / 6) then (0, c, x)
             else if h < f32 fp (4 / 6) then (0, x, c)
             else if h < f32 fp (5 / 6) then (x, 0, c)
             else (c, 0, x))
      in (to_u16 (fmul fp (fadd fp rf m) (of_nat LEDC_MAX_DUTY)),
          to_u16 (fmul fp (fadd fp gf m) (of_nat LEDC_MAX_DUTY)),
          to_u16 (fmul fp (fadd fp bf m) (of_nat LEDC_MAX_DUTY))))"

definition clamp_duty :: "u16 \<Rightarrow> u16" where
  "clamp_duty r = (if unat r > LEDC_MAX_DUTY then of_nat LEDC_MAX_DUTY else r)"

definition led_set_color :: "u16 \<Rightarrow> u16 \<Rightarrow> u16 \<Rightarrow> led_st \<Rightarrow> led_st" where
  "led_set_color r g b s = s\<lparr>duty := (clamp_duty r, clamp_duty g, clamp_duty b)\<rparr>"

section \<open>Pattern setters\<close>

text \<open>A setter as the stores it makes, in order. \<open>SetColor\<close> stands for the call of
  \<^verbatim>\<open>led_set_color\<close>, \<open>TakeMutex\<close> and \<open>GiveMutex\<close> for the recursive mutex.\<close>

datatype led_act =
    SetPattern led_pattern_t
  | SetHue rat
  | SetPercent u8
  | SetBlink bool
  | SetColor u16 u16 u16
  | TakeMutex
  | GiveMutex

fun led_do :: "led_act \<Rightarrow> led_st \<Rightarrow> led_st" where
  "led_do (SetPattern p) s = s\<lparr>pattern := p\<rparr>"
| "led_do (SetHue h) s = s\<lparr>hue := h\<rparr>"
| "led_do (SetPercent p) s = s\<lparr>progress_percent := p\<rparr>"
| "led_do (SetBlink b) s = s\<lparr>blink_state := b\<rparr>"
| "led_do (SetColor r g b) s = led_set_color r g b s"
| "led_do TakeMutex s = s"
| "led_do GiveMutex s = s"

definition solid_acts :: "u16 \<Rightarrow> u16 \<Rightarrow> u16 \<Rightarrow> led_act list" where
  "solid_acts r g b = [TakeMutex, SetPattern LED_PATTERN_NONE, SetColor r g b, GiveMutex]"

definition wifi_connecting_acts :: "led_act list" where
  "wifi_connecting_acts = [SetPattern LED_PATTERN_WIFI_CONNECTING, SetHue 0]"

definition downloading_acts :: "led_act list" where
  "downloading_acts = [SetPattern LED_PATTERN_DOWNLOADING, SetHue 0]"

definition download_progress_acts :: "u8 \<Rightarrow> led_act list" where
  "download_progress_acts percent =
     [SetPattern LED_PATTERN_DOWNLOAD_RAINBOW, SetPercent (if percent > 100 then 100 else percent)]"

definition success_acts :: "led_act list" where
  "success_acts = [SetPattern LED_PATTERN_SUCCESS, SetColor 0 (of_nat LEDC_MAX_DUTY) 0]"

definition error_acts :: "led_act list" where
  "error_acts = [SetPattern LED_PATTERN_ERROR, SetBlink False]"

definition retry_acts :: "led_act list" where
  "retry_acts = [SetPattern LED_PATTERN_RETRY, SetBlink False]"

definition progress_acts :: "u8 \<Rightarrow> led_act list" where
  "progress_acts percent =
     [SetPattern LED_PATTERN_PROGRESS, SetPercent percent] @
     (if percent \<ge> 100 then [SetColor 0 (of_nat LEDC_MAX_DUTY) 0, SetPattern LED_PATTERN_SUCCESS] else [])"

lemmas acts_defs = solid_acts_def wifi_connecting_acts_def downloading_acts_def
  download_progress_acts_def success_acts_def error_acts_def retry_acts_def progress_acts_def

text \<open>The setters run to their end, with nothing in between.\<close>

definition led_show_solid :: "u16 \<Rightarrow> u16 \<Rightarrow> u16 \<Rightarrow> led_st \<Rightarrow> led_st" where
  "led_show_solid r g b = fold led_do (solid_acts r g b)"

definition led_show_wifi_connecting :: "led_st \<Rightarrow> led_st" where
  "led_show_wifi_connecting = fold led_do wifi_connecting_acts"

definition led_show_downloading :: "led_st \<Rightarrow> led_st" where
  "led_show_downloading = fold led_do downloading_acts"

definition led_show_download_progress :: "u8 \<Rightarrow> led_st \<Rightarrow> led_st" where
  "led_show_download_progress percent = fold led_do (download_progress_acts percent)"

definition led_show_success :: "led_st \<Rightarrow> led_st" where
  "led_show_success = fold led_do success_acts"

definition led_show_error :: "led_st \<Rightarrow> led_st" where
  "led_show_error = fold led_do error_acts"

definition led_show_retry :: "led_st \<Rightarrow> led_st" where
  "led_show_retry = fold led_do retry_acts"

definition led_show_progress :: "u8 \<Rightarrow> led_st \<Rightarrow> led_st" where
  "led_show_progress percent = fold led_do (progress_acts percent)"

section \<open>Start and stop of the animation task\<close>

text \<open>\<open>created\<close>: what \<^verbatim>\<open>xTaskCreatePinnedToCore\<close> answers.\<close>

definition led_start_task :: "bool \<Rightarrow> led_st \<Rightarrow> esp_err \<times> led_st" where
  "led_start_task created s =
     (if s_led_task s then (ESP_OK, s)
      else if created then (ESP_OK, s\<lparr>s_led_task_stop := False, s_led_task := True\<rparr>)
      else (ESP_ERR_NO_MEM, s\<lparr>s_led_task_stop := False, s_led_task := False\<rparr>))"

text \<open>\<open>mutex_ok\<close>: whether the mutex can be created; \<open>timer\<close> and \<open>chans\<close>: what the LEDC driver
  answers. \<open>None\<close>: a failing \<^verbatim>\<open>ESP_ERROR_CHECK\<close> aborts.\<close>

definition led_init ::
  "bool \<Rightarrow> esp_err \<Rightarrow> esp_err list \<Rightarrow> bool \<Rightarrow> led_st \<Rightarrow> (esp_err \<times> led_st) option" where
  "led_init mutex_ok timer chans created s =
     (if \<not> s_ledc_mutex s \<and> \<not> mutex_ok then Some (ESP_ERR_NO_MEM, s)
      else
        (let s1 = s\<lparr>s_ledc_mutex := True\<rparr> in
         if timer \<noteq> ESP_OK then None
         else if \<exists>e \<in> set (take 3 chans). e \<noteq> ESP_OK then None
         else Some (led_start_task created (led_set_color 0 0 0 (s1\<lparr>duty := (0, 0, 0)\<rparr>)))))"

definition led_stop_task :: "led_st \<Rightarrow> led_st" where
  "led_stop_task s = (if \<not> s_led_task s then s else s\<lparr>s_led_task_stop := True\<rparr>)"

section \<open>One frame\<close>

text \<open>The colour a frame shows for a hue, and the hue's step.\<close>

definition wifi_paint :: "float_ops \<Rightarrow> rat \<Rightarrow> led_st \<Rightarrow> led_st" where
  "wifi_paint fp h =
     (let b1 = fdiv fp (fadd fp (sinf fp (f32 fp (f64 fp (fmul fp h 2 * M_PI)))) 1) 2;
          brightness = fadd fp (f32 fp (2 / 10)) (fmul fp b1 (f32 fp (8 / 10)));
          d = to_u16 (fmul fp (of_nat LEDC_MAX_DUTY) brightness)
      in led_set_color d 0 d)"

definition wifi_frame :: "float_ops \<Rightarrow> led_st \<Rightarrow> led_st" where
  "wifi_frame fp s =
     (let h1 = fadd fp (hue s) (f32 fp (1 / 100)); h = (if h1 \<ge> 1 then 0 else h1)
      in wifi_paint fp h (s\<lparr>hue := h\<rparr>))"

definition rainbow_hue :: "float_ops \<Rightarrow> rat \<Rightarrow> rat \<Rightarrow> rat" where
  "rainbow_hue fp h step =
     (let h1 = fadd fp h step in if h1 \<ge> 1 then fsub fp h1 1 else h1)"

definition hsv_paint :: "float_ops \<Rightarrow> rat \<Rightarrow> rat \<Rightarrow> led_st \<Rightarrow> led_st" where
  "hsv_paint fp h brightness = (case hsv_to_rgb fp h 1 brightness of (r, g, b) \<Rightarrow> led_set_color r g b)"

definition downloading_frame :: "float_ops \<Rightarrow> led_st \<Rightarrow> led_st" where
  "downloading_frame fp s =
     (let h = rainbow_hue fp (hue s) (f32 fp (1 / 100)) in hsv_paint fp h 1 (s\<lparr>hue := h\<rparr>))"

definition progress_of :: "float_ops \<Rightarrow> u8 \<Rightarrow> rat" where
  "progress_of fp percent = fdiv fp (of_nat (unat percent)) 100"

definition rainbow_step :: "float_ops \<Rightarrow> rat \<Rightarrow> rat" where
  "rainbow_step fp progress =
     fadd fp (f32 fp (3 / 1000)) (fmul fp (fmul fp progress progress) (f32 fp (40 / 1000)))"

definition rainbow_brightness :: "float_ops \<Rightarrow> u32 \<Rightarrow> rat \<Rightarrow> rat" where
  "rainbow_brightness fp now progress =
     (let pulse_freq = fadd fp 2 (fmul fp progress 8);
          arg = f64 fp (fmul fp (fmul fp (fmul fp (f32 fp (of_nat (unat now))) pulse_freq) (f32 fp (1 / 1000))) 2 * M_PI);
          pulse = fdiv fp (fadd fp (sinf fp (f32 fp arg)) 1) 2
      in fadd fp (f32 fp (6 / 10)) (fmul fp pulse (f32 fp (4 / 10))))"

definition rainbow_frame :: "float_ops \<Rightarrow> u32 \<Rightarrow> led_st \<Rightarrow> led_st" where
  "rainbow_frame fp now s =
     (let progress = progress_of fp (progress_percent s);
          h = rainbow_hue fp (hue s) (rainbow_step fp progress)
      in hsv_paint fp h (rainbow_brightness fp now progress) (s\<lparr>hue := h\<rparr>))"

text \<open>\<^verbatim>\<open>2000 - (progress_percent * 15)\<close> is computed in \<^verbatim>\<open>int\<close> and stored in a \<^verbatim>\<open>uint32_t\<close>.\<close>

definition progress_cycle_time :: "u8 \<Rightarrow> u32" where
  "progress_cycle_time percent =
     (let cycle_time = of_int (2000 - int (unat percent) * 15) :: u32 in
      if cycle_time < 200 then 200 else cycle_time)"

definition progress_duty :: "float_ops \<Rightarrow> u32 \<Rightarrow> u8 \<Rightarrow> u16" where
  "progress_duty fp now percent =
     (let ct = f32 fp (of_nat (unat (progress_cycle_time percent)));
          phase = fdiv fp (fmodf (f32 fp (of_nat (unat now))) ct) ct;
          brightness = fdiv fp (fadd fp (sinf fp (f32 fp (f64 fp (fmul fp phase 2 * M_PI)))) 1) 2
      in to_u16 (fmul fp (of_nat LEDC_MAX_DUTY) brightness))"

definition progress_frame :: "float_ops \<Rightarrow> u32 \<Rightarrow> led_st \<Rightarrow> led_st" where
  "progress_frame fp now s =
     (let d = progress_duty fp now (progress_percent s)
      in if progress_percent s < 25 then led_set_color d 0 0 s
         else if progress_percent s < 50 then led_set_color d (d div 2) 0 s
         else if progress_percent s < 75 then led_set_color d d 0 s
         else led_set_color 0 d 0 s)"

definition blink_frame :: "led_st \<Rightarrow> led_st" where
  "blink_frame s =
     (let b = (\<not> blink_state s) in
      led_set_color (if b then of_nat LEDC_MAX_DUTY else 0) 0 0 (s\<lparr>blink_state := b\<rparr>))"

text \<open>\<open>now\<close> is \<^verbatim>\<open>xTaskGetTickCount() * portTICK_PERIOD_MS\<close>; the time since the last frame is a
  \<^verbatim>\<open>uint32_t\<close> difference.\<close>

definition led_animate_step :: "float_ops \<Rightarrow> u32 \<Rightarrow> led_st \<Rightarrow> led_st" where
  "led_animate_step fp now s =
     (let elapsed = now - last_update s; s1 = s\<lparr>last_update := now\<rparr> in
      case pattern s of
        LED_PATTERN_WIFI_CONNECTING \<Rightarrow> if elapsed \<ge> 20 then wifi_frame fp s1 else s
      | LED_PATTERN_DOWNLOADING \<Rightarrow> if elapsed \<ge> 20 then downloading_frame fp s1 else s
      | LED_PATTERN_DOWNLOAD_RAINBOW \<Rightarrow> if elapsed \<ge> 10 then rainbow_frame fp now s1 else s
      | LED_PATTERN_PROGRESS \<Rightarrow> if elapsed \<ge> 30 then progress_frame fp now s1 else s
      | LED_PATTERN_ERROR \<Rightarrow> if elapsed \<ge> 300 then blink_frame s1 else s
      | LED_PATTERN_RETRY \<Rightarrow> if elapsed \<ge> 100 then blink_frame s1 else s
      | LED_PATTERN_SUCCESS \<Rightarrow> s
      | LED_PATTERN_NONE \<Rightarrow> s)"

text \<open>One iteration of \<^verbatim>\<open>led_task\<close>, and \<^verbatim>\<open>led_update\<close> called from another task.\<close>

definition led_task :: "float_ops \<Rightarrow> u32 \<Rightarrow> led_st \<Rightarrow> led_st" where
  "led_task fp now s = (if s_led_task_stop s then s\<lparr>s_led_task := False\<rparr> else led_animate_step fp now s)"

definition led_update :: "float_ops \<Rightarrow> u32 \<Rightarrow> led_st \<Rightarrow> led_st" where
  "led_update fp now s = (if s_led_task s then s else led_animate_step fp now s)"

section \<open>Bounds\<close>

definition duties_ok :: "led_st \<Rightarrow> bool" where
  "duties_ok s = (case duty s of (r, g, b) \<Rightarrow>
     unat r \<le> LEDC_MAX_DUTY \<and> unat g \<le> LEDC_MAX_DUTY \<and> unat b \<le> LEDC_MAX_DUTY)"

lemma clamp_duty_le: "unat (clamp_duty r) \<le> LEDC_MAX_DUTY"
  by (simp add: clamp_duty_def LEDC_MAX_DUTY_def)

lemma duties_ok_set_color [simp]: "duties_ok (led_set_color r g b s)"
  by (simp add: duties_ok_def led_set_color_def clamp_duty_le)

lemma led_set_color_frame [simp]:
  "pattern (led_set_color r g b s) = pattern s" "hue (led_set_color r g b s) = hue s"
  "progress_percent (led_set_color r g b s) = progress_percent s"
  "last_update (led_set_color r g b s) = last_update s"
  "blink_state (led_set_color r g b s) = blink_state s"
  "s_led_task (led_set_color r g b s) = s_led_task s"
  by (simp_all add: led_set_color_def)

lemma to_u16_bound: "0 \<le> q \<Longrightarrow> q \<le> 4095 \<Longrightarrow> unat (to_u16 q) = nat \<lfloor>q\<rfloor> \<and> nat \<lfloor>q\<rfloor> \<le> LEDC_MAX_DUTY"
proof -
  assume q: "0 \<le> q" "q \<le> 4095"
  then have f: "0 \<le> \<lfloor>q\<rfloor>" "\<lfloor>q\<rfloor> \<le> 4095" by (simp_all add: floor_le_iff)
  then have "nat \<lfloor>q\<rfloor> \<le> 4095" by linarith
  moreover have "take_bit 16 \<lfloor>q\<rfloor> = \<lfloor>q\<rfloor>" using f by (intro take_bit_int_eq_self) simp_all
  ultimately show ?thesis
    by (simp add: to_u16_def LEDC_MAX_DUTY_def unat_eq_nat_uint uint_word_of_int_eq)
qed

context float_arith
begin

lemma duty_range: "0 \<le> q \<Longrightarrow> q \<le> 1 \<Longrightarrow> 0 \<le> fmul fp q 4095 \<and> fmul fp q 4095 \<le> 4095"
  unfolding fmul_def using f32_mono [of "q * 4095" 4095] f32_exact(8)
  by (simp add: f32_nonneg)

lemma hue_wave: "0 \<le> a \<Longrightarrow> 0 \<le> fmodf a 2 \<and> fmodf a 2 < 2"
proof -
  assume "0 \<le> a"
  moreover have "of_int \<lfloor>a / 2\<rfloor> \<le> a / 2" "a / 2 < of_int \<lfloor>a / 2\<rfloor> + 1" by linarith+
  ultimately show ?thesis by (simp add: fmodf_def)
qed

lemma hsv_bounds:
  assumes h: "0 \<le> h" and v: "f32 fp v = v" "0 \<le> v" "v \<le> 1"
  shows "\<exists>r g b. hsv_to_rgb fp h 1 v = (r, g, b) \<and>
     unat r \<le> LEDC_MAX_DUTY \<and> unat g \<le> LEDC_MAX_DUTY \<and> unat b \<le> LEDC_MAX_DUTY"
proof -
  define w where "w = fsub fp 1 \<bar>fsub fp (fmodf (fmul fp h 6) 2) 1\<bar>"
  define x where "x = fmul fp v w"
  have a: "\<bar>fsub fp (fmodf (fmul fp h 6) 2) 1\<bar> \<le> 1"
    using hue_wave [of "fmul fp h 6"] f32_nonneg [of "h * 6"] h f32_mono [of "-1" "fmodf (fmul fp h 6) 2 - 1"]
      f32_le_1 [of "fmodf (fmul fp h 6) 2 - 1"] f32_exact(3) by (simp add: fsub_def fmul_def)
  then have w: "0 \<le> w" "w \<le> 1" unfolding w_def fsub_def by (simp_all add: f32_nonneg f32_le_1)
  have x: "0 \<le> x" "x \<le> 1" "f32 fp x = x"
    using fmul_unit [OF v(2,3) w] by (simp_all add: x_def fmul_def f32_idem)
  have *: "to_u16 (fmul fp (fadd fp q 0) (of_nat LEDC_MAX_DUTY)) = to_u16 (fmul fp q 4095)"
    if "f32 fp q = q" for q using that by (simp add: fadd_def LEDC_MAX_DUTY_def)
  have bound: "unat (to_u16 (fmul fp q 4095)) \<le> LEDC_MAX_DUTY" if "0 \<le> q" "q \<le> 1" for q
    using duty_range [OF that] to_u16_bound by metis
  have c: "fmul fp v 1 = v" "fsub fp v v = 0" using v(1) f32_exact(1) by (simp_all add: fmul_def fsub_def)
  show ?thesis
    unfolding hsv_to_rgb_def Let_def c w_def [symmetric] x_def [symmetric]
    using bound x v f32_exact(1) by (simp add: *)
qed

lemma brightness_ok:
  assumes "0 \<le> b" "b \<le> 1" "0 \<le> l" "0 \<le> k" "f32 fp (f32 fp l + f32 fp k) \<le> 1"
  shows "0 \<le> fadd fp (f32 fp l) (fmul fp b (f32 fp k)) \<and> fadd fp (f32 fp l) (fmul fp b (f32 fp k)) \<le> 1"
proof -
  have "b * f32 fp k \<le> f32 fp k" using assms f32_nonneg [of k] mult_right_mono [of b 1 "f32 fp k"] by simp
  then have "fmul fp b (f32 fp k) \<le> f32 fp k"
    unfolding fmul_def using f32_mono [of "b * f32 fp k" "f32 fp k"] f32_idem by simp
  then have "fadd fp (f32 fp l) (fmul fp b (f32 fp k)) \<le> f32 fp (f32 fp l + f32 fp k)"
    unfolding fadd_def by (intro f32_mono) simp
  moreover have "0 \<le> fmul fp b (f32 fp k)" using assms by (simp add: fmul_def f32_nonneg)
  ultimately show ?thesis using assms by (simp add: fadd_def f32_nonneg)
qed

lemma f32_hundredth: "0 \<le> f32 fp (1 / 100) \<and> f32 fp (1 / 100) \<le> 1 / 2"
  using f32_nonneg [of "1 / 100"] f32_le_half [of "1 / 100"] by simp

text \<open>The progress a frame computes with is below 21/8 even if the percentage it reads is not one
  (a setter may be at work), and then the step of the hue is at most 1/2.\<close>

lemma progress_of_range: "0 \<le> progress_of fp p \<and> progress_of fp p \<le> 21 / 8"
proof -
  define n where "n = unat p"
  have "n \<le> 255" using unsigned_less [of p, where ?'a = nat] by (simp add: n_def)
  then have "(of_nat n :: rat) \<le> 255" by (metis of_nat_le_iff of_nat_numeral)
  then have "0 \<le> fdiv fp (of_nat n) 100 \<and> fdiv fp (of_nat n) 100 \<le> 21 / 8"
    using f32_mono [of "of_nat n / 100" "21 / 8"] f32_exact(11) f32_nonneg [of "of_nat n / 100"]
    by (simp add: fdiv_def)
  then show ?thesis unfolding progress_of_def n_def .
qed

lemma rainbow_step_range:
  assumes "0 \<le> q" "q \<le> 21 / 8"
  shows "0 \<le> rainbow_step fp q \<and> rainbow_step fp q \<le> 1 / 2"
proof -
  have "q * q \<le> 21 / 8 * (21 / 8)" using assms by (intro mult_mono) simp_all
  then have "q * q \<le> 7" by simp
  then have m: "0 \<le> fmul fp q q" "fmul fp q q \<le> 7"
    using assms f32_mono [of "q * q" 7] f32_exact(12) by (simp_all add: fmul_def f32_nonneg)
  have k: "0 \<le> f32 fp (40 / 1000)" "f32 fp (40 / 1000) \<le> 1 / 16" "0 \<le> f32 fp (3 / 1000)"
    "f32 fp (3 / 1000) \<le> 1 / 16"
    using f32_mono [of "40 / 1000" "1 / 16"] f32_mono [of "3 / 1000" "1 / 16"] f32_exact(9)
    by (simp_all add: f32_nonneg)
  have "fmul fp q q * f32 fp (40 / 1000) \<le> 7 * (1 / 16)" using m k by (intro mult_mono) simp_all
  then have "fmul fp (fmul fp q q) (f32 fp (40 / 1000)) \<le> 7 / 16"
    unfolding fmul_def [of fp "fmul fp q q"] using f32_mono f32_exact(10) by fastforce
  moreover have "0 \<le> fmul fp (fmul fp q q) (f32 fp (40 / 1000))"
    unfolding fmul_def [of fp "fmul fp q q"] using m k by (intro f32_nonneg) simp
  ultimately show ?thesis
    unfolding rainbow_step_def fadd_def using k by (intro conjI f32_nonneg f32_le_half) simp_all
qed

text \<open>Adding such a step to a hue, and taking one off.\<close>

lemma hue_add_range: "- 1 \<le> h \<Longrightarrow> h < 1 \<Longrightarrow> 0 \<le> st \<Longrightarrow> st \<le> 1 / 2 \<Longrightarrow>
    - 1 \<le> fadd fp h st \<and> fadd fp h st \<le> 3 / 2"
  using f32_mono [of "- 1" "h + st"] f32_exact(3) f32_le_three_halves [of "h + st"]
  by (simp add: fadd_def)

lemma hue_sub_range: "h = 0 \<or> 1 \<le> h \<and> h \<le> 3 / 2 \<Longrightarrow> - 1 \<le> fsub fp h 1 \<and> fsub fp h 1 \<le> 1 / 2"
  using f32_exact(3) f32_nonneg [of "h - 1"] f32_le_half [of "h - 1"] by (auto simp: fsub_def)

lemma rainbow_brightness_range:
  "0 \<le> rainbow_brightness fp now q \<and> rainbow_brightness fp now q \<le> 1"
  unfolding rainbow_brightness_def Let_def
  using half_wave f32_literals(2) by (intro brightness_ok) simp_all

end

section \<open>A concrete arithmetic\<close>

text \<open>Rounding to the nearest multiple of \<^verbatim>\<open>2^-24\<close> (the spacing of the floats just below 1), and a
  triangle wave for the sine.\<close>

definition fix_round :: "rat \<Rightarrow> rat" where
  "fix_round x = of_int \<lfloor>x * 2 ^ 24 + 1 / 2\<rfloor> / 2 ^ 24"

definition tri_sin :: "rat \<Rightarrow> rat" where
  "tri_sin x = (let t = x / (2 * M_PI) - of_int \<lfloor>x / (2 * M_PI)\<rfloor> in 1 - 4 * \<bar>t - 1 / 2\<bar>)"

definition fix_ops :: float_ops where
  "fix_ops = \<lparr>f32 = fix_round, f64 = fix_round, sinf = tri_sin\<rparr>"

lemma fix_round_mono: "x \<le> y \<Longrightarrow> fix_round x \<le> fix_round y"
  unfolding fix_round_def by (intro divide_right_mono) (simp_all add: floor_mono)

lemma fix_round_grid: "fix_round (of_int k / 2 ^ 24) = of_int k / 2 ^ 24"
  by (simp add: fix_round_def floor_add_int floor_unique)

lemma tri_sin_bounds: "- 1 \<le> tri_sin x \<and> tri_sin x \<le> 1"
proof -
  have "0 \<le> x / (2 * M_PI) - of_int \<lfloor>x / (2 * M_PI)\<rfloor>" "x / (2 * M_PI) - of_int \<lfloor>x / (2 * M_PI)\<rfloor> < 1"
    by linarith+
  then have "\<bar>x / (2 * M_PI) - of_int \<lfloor>x / (2 * M_PI)\<rfloor> - 1 / 2\<bar> \<le> 1 / 2"
    by (intro abs_leI) linarith+
  then show ?thesis by (simp add: tri_sin_def Let_def)
qed

lemma fix_floors:
  "\<lfloor>33554437 / 10 :: rat\<rfloor> = 3355443" "\<lfloor>134217733 / 10 :: rat\<rfloor> = 13421773"
  "\<lfloor>100663301 / 10 :: rat\<rfloor> = 10066330" "\<lfloor>67108869 / 10 :: rat\<rfloor> = 6710886" "\<lfloor>1 / 2 :: rat\<rfloor> = 0"
  by (rule floor_unique; simp)+

interpretation fixed: float_arith fix_ops
proof
  show "x \<le> y \<Longrightarrow> f32 fix_ops x \<le> f32 fix_ops y" for x y by (simp add: fix_ops_def fix_round_mono)
  show "f32 fix_ops (f32 fix_ops x) = f32 fix_ops x" for x
    using fix_round_grid by (simp add: fix_ops_def fix_round_def [of x])
  show "f32 fix_ops (f32 fix_ops (2 / 10) + f32 fix_ops (8 / 10)) \<le> 1"
    "f32 fix_ops (f32 fix_ops (6 / 10) + f32 fix_ops (4 / 10)) \<le> 1"
    by (simp_all add: fix_ops_def fix_round_def fix_floors)
  show "- 1 \<le> sinf fix_ops x" "sinf fix_ops x \<le> 1" for x
    using tri_sin_bounds [of x] by (simp_all add: fix_ops_def)
  have grid: "f32 fix_ops (of_int k / 2 ^ 24) = of_int k / 2 ^ 24" for k
    using fix_round_grid unfolding fix_ops_def by simp
  show "f32 fix_ops 0 = 0" "f32 fix_ops 1 = 1" "f32 fix_ops (- 1) = - 1" "f32 fix_ops 2 = 2"
    "f32 fix_ops (1 / 4) = 1 / 4" "f32 fix_ops (1 / 2) = 1 / 2" "f32 fix_ops (3 / 2) = 3 / 2"
    "f32 fix_ops 4095 = 4095" "f32 fix_ops (1 / 16) = 1 / 16" "f32 fix_ops (7 / 16) = 7 / 16"
    "f32 fix_ops (21 / 8) = 21 / 8" "f32 fix_ops 7 = 7"
    using grid [of 0] grid [of "2 ^ 24"] grid [of "- (2 ^ 24)"] grid [of "2 ^ 25"] grid [of "2 ^ 22"]
      grid [of "2 ^ 23"] grid [of "3 * 2 ^ 23"] grid [of "4095 * 2 ^ 24"]
      grid [of "2 ^ 20"] grid [of "7 * 2 ^ 20"] grid [of "21 * 2 ^ 21"] grid [of "7 * 2 ^ 24"]
    by simp_all
qed

section \<open>The two tasks\<close>

text \<open>Where a frame of the animation task stands. Between two steps lies every access to a field
  that a setter stores too: the pattern, the hue, the percentage and the blink state.
  \<open>FrameLock\<close> waits for the mutex; from \<open>FrameSwitch\<close> to \<open>FrameUnlock\<close> the frame holds it.\<close>

datatype hue_frame = WifiHue | DownloadHue | RainbowHue u32 rat

datatype frame_pc =
    FrameNone
  | FrameLock u32 u32
  | FrameSwitch u32 u32
  | RainbowLoad u32
  | HueLoad hue_frame
  | HueStore hue_frame rat
  | HueTest hue_frame
  | HueFix hue_frame
  | HueFixStore hue_frame rat
  | HuePaint hue_frame
  | CycleLoad u32
  | ColorTest u16 nat
  | BlinkLoad
  | BlinkStore bool
  | BlinkPaint
  | FrameUnlock

fun frame_holds :: "frame_pc \<Rightarrow> bool" where
  "frame_holds FrameNone = False"
| "frame_holds (FrameLock _ _) = False"
| "frame_holds _ = True"

fun hue_step_of :: "float_ops \<Rightarrow> hue_frame \<Rightarrow> rat" where
  "hue_step_of fp (RainbowHue _ progress) = rainbow_step fp progress"
| "hue_step_of fp _ = f32 fp (1 / 100)"

fun hue_paint :: "float_ops \<Rightarrow> hue_frame \<Rightarrow> rat \<Rightarrow> led_st \<Rightarrow> led_st" where
  "hue_paint fp WifiHue h = wifi_paint fp h"
| "hue_paint fp DownloadHue h = hsv_paint fp h 1"
| "hue_paint fp (RainbowHue now progress) h = hsv_paint fp h (rainbow_brightness fp now progress)"

definition frame_due :: "led_pattern_t \<Rightarrow> u32 \<Rightarrow> u32 \<Rightarrow> frame_pc option" where
  "frame_due p now elapsed =
     (case p of
        LED_PATTERN_WIFI_CONNECTING \<Rightarrow> if elapsed \<ge> 20 then Some (HueLoad WifiHue) else None
      | LED_PATTERN_DOWNLOADING \<Rightarrow> if elapsed \<ge> 20 then Some (HueLoad DownloadHue) else None
      | LED_PATTERN_DOWNLOAD_RAINBOW \<Rightarrow> if elapsed \<ge> 10 then Some (RainbowLoad now) else None
      | LED_PATTERN_PROGRESS \<Rightarrow> if elapsed \<ge> 30 then Some (CycleLoad now) else None
      | LED_PATTERN_ERROR \<Rightarrow> if elapsed \<ge> 300 then Some BlinkLoad else None
      | LED_PATTERN_RETRY \<Rightarrow> if elapsed \<ge> 100 then Some BlinkLoad else None
      | LED_PATTERN_SUCCESS \<Rightarrow> None
      | LED_PATTERN_NONE \<Rightarrow> None)"

fun frame_micro :: "float_ops \<Rightarrow> led_st \<times> frame_pc \<Rightarrow> led_st \<times> frame_pc" where
  "frame_micro fp (m, FrameNone) = (m, FrameNone)"
| "frame_micro fp (m, FrameLock now elapsed) = (m, FrameSwitch now elapsed)"
| "frame_micro fp (m, FrameSwitch now elapsed) =
     (case frame_due (pattern m) now elapsed of
        None \<Rightarrow> (m, FrameUnlock)
      | Some pc \<Rightarrow> (m\<lparr>last_update := now\<rparr>, pc))"
| "frame_micro fp (m, RainbowLoad now) = (m, HueLoad (RainbowHue now (progress_of fp (progress_percent m))))"
| "frame_micro fp (m, HueLoad k) = (m, HueStore k (fadd fp (hue m) (hue_step_of fp k)))"
| "frame_micro fp (m, HueStore k h) = (m\<lparr>hue := h\<rparr>, HueTest k)"
| "frame_micro fp (m, HueTest k) = (m, if hue m \<ge> 1 then HueFix k else HuePaint k)"
| "frame_micro fp (m, HueFix k) =
     (if k = WifiHue then (m\<lparr>hue := 0\<rparr>, HuePaint k) else (m, HueFixStore k (fsub fp (hue m) 1)))"
| "frame_micro fp (m, HueFixStore k h) = (m\<lparr>hue := h\<rparr>, HuePaint k)"
| "frame_micro fp (m, HuePaint k) = (hue_paint fp k (hue m) m, FrameUnlock)"
| "frame_micro fp (m, CycleLoad now) = (m, ColorTest (progress_duty fp now (progress_percent m)) 0)"
| "frame_micro fp (m, ColorTest d i) =
     (if i = 0 then (if progress_percent m < 25 then (led_set_color d 0 0 m, FrameUnlock) else (m, ColorTest d 1))
      else if i = 1 then
        (if progress_percent m < 50 then (led_set_color d (d div 2) 0 m, FrameUnlock) else (m, ColorTest d 2))
      else if progress_percent m < 75 then (led_set_color d d 0 m, FrameUnlock)
      else (led_set_color 0 d 0 m, FrameUnlock))"
| "frame_micro fp (m, BlinkLoad) = (m, BlinkStore (\<not> blink_state m))"
| "frame_micro fp (m, BlinkStore b) = (m\<lparr>blink_state := b\<rparr>, BlinkPaint)"
| "frame_micro fp (m, BlinkPaint) =
     (led_set_color (if blink_state m then of_nat LEDC_MAX_DUTY else 0) 0 0 m, FrameUnlock)"
| "frame_micro fp (m, FrameUnlock) = (m, FrameNone)"

text \<open>Ten steps are enough for a frame, and undisturbed they are \<^verbatim>\<open>led_animate_step\<close>.\<close>

lemma frame_alone:
  "(frame_micro fp ^^ 10) (m, FrameLock now (now - last_update m)) = (led_animate_step fp now m, FrameNone)"
  by (cases "pattern m")
    (simp_all add: numeral_eq_Suc frame_due_def led_animate_step_def Let_def wifi_frame_def
      downloading_frame_def rainbow_frame_def progress_frame_def blink_frame_def rainbow_hue_def)

text \<open>The calling task: the setter it is in (or was in last), the stores left of it, and whether
  it holds the mutex itself.\<close>

datatype led_call =
    CallColor u16 u16 u16
  | CallSolid u16 u16 u16
  | CallWifiConnecting
  | CallDownloading
  | CallDownloadProgress u8
  | CallSuccess
  | CallError
  | CallRetry
  | CallProgress u8

fun acts_of :: "led_call \<Rightarrow> led_act list" where
  "acts_of (CallColor r g b) = [SetColor r g b]"
| "acts_of (CallSolid r g b) = solid_acts r g b"
| "acts_of CallWifiConnecting = wifi_connecting_acts"
| "acts_of CallDownloading = downloading_acts"
| "acts_of (CallDownloadProgress p) = download_progress_acts p"
| "acts_of CallSuccess = success_acts"
| "acts_of CallError = error_acts"
| "acts_of CallRetry = retry_acts"
| "acts_of (CallProgress p) = progress_acts p"

record led_sys =
  mem :: led_st
  call :: led_call
  todo :: "led_act list"
  caller_has :: bool
  frm :: frame_pc

definition led_start :: led_sys where
  "led_start = \<lparr>mem = led_boot, call = CallColor 0 0 0, todo = [], caller_has = False, frm = FrameNone\<rparr>"

text \<open>Taking the mutex, and \<^verbatim>\<open>led_set_color\<close>, wait for a frame in flight; plain stores do not.\<close>

fun caller_may :: "led_act \<Rightarrow> frame_pc \<Rightarrow> bool" where
  "caller_may TakeMutex pc = (\<not> frame_holds pc)"
| "caller_may (SetColor _ _ _) pc = (\<not> frame_holds pc)"
| "caller_may _ pc = True"

definition caller_has_after :: "led_act \<Rightarrow> bool \<Rightarrow> bool" where
  "caller_has_after a h = (if a = TakeMutex then True else if a = GiveMutex then False else h)"

text \<open>What the two tasks do, one access at a time and in any order; the tick count is arbitrary.
  The caller starts a setter, makes its next store, steps a frame by hand (\<^verbatim>\<open>led_update\<close>, dropped
  while the task runs), initialises the LED (before the task exists, as \<^verbatim>\<open>app_main\<close> does), and starts
  and stops the task. The animation task wakes up for a frame, takes the mutex, makes the next
  access of the frame, or leaves its loop.\<close>

inductive led_step :: "float_ops \<Rightarrow> led_sys \<Rightarrow> led_sys \<Rightarrow> bool" for fp where
  call: "todo s = [] \<Longrightarrow> led_step fp s (s\<lparr>call := c, todo := acts_of c\<rparr>)"
| act: "todo s = a # as \<Longrightarrow> caller_may a (frm s) \<Longrightarrow>
    led_step fp s (s\<lparr>mem := led_do a (mem s), todo := as, caller_has := caller_has_after a (caller_has s)\<rparr>)"
| update: "todo s = [] \<Longrightarrow> \<not> s_led_task (mem s) \<Longrightarrow>
    led_step fp s (s\<lparr>mem := led_update fp now (mem s)\<rparr>)"
| init: "todo s = [] \<Longrightarrow> \<not> s_led_task (mem s) \<Longrightarrow>
    led_init mutex_ok timer chans created (mem s) = Some (e, m) \<Longrightarrow>
    led_step fp s (s\<lparr>mem := m, call := CallColor 0 0 0\<rparr>)"
| start: "todo s = [] \<Longrightarrow> s_ledc_mutex (mem s) \<Longrightarrow> led_start_task created (mem s) = (e, m) \<Longrightarrow>
    led_step fp s (s\<lparr>mem := m\<rparr>)"
| stop: "todo s = [] \<Longrightarrow> led_step fp s (s\<lparr>mem := led_stop_task (mem s)\<rparr>)"
| wake: "frm s = FrameNone \<Longrightarrow> s_led_task (mem s) \<Longrightarrow> \<not> s_led_task_stop (mem s) \<Longrightarrow>
    led_step fp s (s\<lparr>frm := FrameLock now (now - last_update (mem s))\<rparr>)"
| lock: "frm s = FrameLock now elapsed \<Longrightarrow> \<not> caller_has s \<Longrightarrow>
    led_step fp s (s\<lparr>frm := FrameSwitch now elapsed\<rparr>)"
| frame: "frame_holds (frm s) \<Longrightarrow> frame_micro fp (mem s, frm s) = (m, pc) \<Longrightarrow>
    led_step fp s (s\<lparr>mem := m, frm := pc\<rparr>)"
| exit: "frm s = FrameNone \<Longrightarrow> s_led_task (mem s) \<Longrightarrow> s_led_task_stop (mem s) \<Longrightarrow>
    led_step fp s (s\<lparr>mem := (mem s)\<lparr>s_led_task := False\<rparr>\<rparr>)"

inductive led_reach :: "float_ops \<Rightarrow> led_sys \<Rightarrow> bool" for fp where
  boot: "led_reach fp led_start"
| step: "led_reach fp s \<Longrightarrow> led_step fp s t \<Longrightarrow> led_reach fp t"

section \<open>Invariants of the two tasks\<close>

text \<open>A frame stores neither the pattern nor the percentage nor the task's flags.\<close>

lemma paints_keep [simp]:
  "pattern (hue_paint fp k h m) = pattern m" "progress_percent (hue_paint fp k h m) = progress_percent m"
  "s_led_task (hue_paint fp k h m) = s_led_task m" "hue (hue_paint fp k h m) = hue m"
  "duties_ok (hue_paint fp k h m)"
  by (cases k; simp add: wifi_paint_def hsv_paint_def Let_def split: prod.splits)+

lemma frame_micro_keeps:
  "frame_micro fp (m, pc) = (m', pc') \<Longrightarrow>
     pattern m' = pattern m \<and> progress_percent m' = progress_percent m \<and> s_led_task m' = s_led_task m"
  by (cases pc) (auto split: if_splits option.splits)

lemma duties_ok_frame [simp]:
  "duties_ok (m\<lparr>pattern := p\<rparr>) = duties_ok m" "duties_ok (m\<lparr>last_update := u\<rparr>) = duties_ok m"
  "duties_ok (m\<lparr>hue := h\<rparr>) = duties_ok m" "duties_ok (m\<lparr>progress_percent := q\<rparr>) = duties_ok m"
  "duties_ok (m\<lparr>blink_state := b\<rparr>) = duties_ok m" "duties_ok (m\<lparr>s_led_task := b\<rparr>) = duties_ok m"
  "duties_ok (m\<lparr>s_led_task_stop := b\<rparr>) = duties_ok m"
  by (simp_all add: duties_ok_def)

lemma frame_micro_duties:
  "frame_micro fp (m, pc) = (m', pc') \<Longrightarrow> duties_ok m \<Longrightarrow> duties_ok m'"
  by (cases pc) (auto split: if_splits option.splits)

lemma frame_run:
  assumes "\<And>m pc m' pc'. P m pc \<Longrightarrow> frame_micro fp (m, pc) = (m', pc') \<Longrightarrow> P m' pc'"
    and "P m (FrameLock now (now - last_update m))"
  shows "P (led_animate_step fp now m) FrameNone"
proof -
  have "P (fst ((frame_micro fp ^^ n) x)) (snd ((frame_micro fp ^^ n) x))" if "P (fst x) (snd x)" for n x
  proof (induction n)
    case (Suc n)
    then show ?case using assms(1) by (metis comp_apply funpow.simps(2) prod.collapse)
  qed (simp add: that)
  from this [of "(m, FrameLock now (now - last_update m))" 10] assms(2) show ?thesis
    unfolding frame_alone by simp
qed

lemma animate_keeps:
  "pattern (led_animate_step fp now m) = pattern m \<and>
   progress_percent (led_animate_step fp now m) = progress_percent m \<and>
   s_led_task (led_animate_step fp now m) = s_led_task m"
  by (rule frame_run [of "\<lambda>x _. pattern x = pattern m \<and> progress_percent x = progress_percent m \<and>
        s_led_task x = s_led_task m"])
    (auto dest: frame_micro_keeps)

lemma led_update_keeps:
  "pattern (led_update fp now m) = pattern m \<and> progress_percent (led_update fp now m) = progress_percent m \<and>
   s_led_task (led_update fp now m) = s_led_task m"
  using animate_keeps by (simp add: led_update_def)

text \<open>The range of the hue at every point of a frame. A setter may store 0 at any moment, also
  between the test against 1 and the subtraction.\<close>

fun hue_ok :: "float_ops \<Rightarrow> rat \<Rightarrow> frame_pc \<Rightarrow> bool" where
  "hue_ok fp h (HueLoad k) = (0 \<le> hue_step_of fp k \<and> hue_step_of fp k \<le> 1 / 2 \<and> - 1 \<le> h \<and> h < 1)"
| "hue_ok fp h (HueStore k v) = (- 1 \<le> v \<and> v \<le> 3 / 2)"
| "hue_ok fp h (HueTest k) = (- 1 \<le> h \<and> h \<le> 3 / 2)"
| "hue_ok fp h (HueFix k) = (h = 0 \<or> 1 \<le> h \<and> h \<le> 3 / 2)"
| "hue_ok fp h (HueFixStore k v) = (- 1 \<le> v \<and> v \<le> 1 / 2)"
| "hue_ok fp h pc = (- 1 \<le> h \<and> h < 1)"

lemma hue_ok_reset: "hue_ok fp h pc \<Longrightarrow> hue_ok fp 0 pc"
  by (cases pc) auto

lemma hue_ok_none [simp]: "hue_ok fp h FrameNone = (- 1 \<le> h \<and> h < 1)" by simp

context float_arith
begin

lemma frame_micro_hue:
  assumes "hue_ok fp (hue m) pc" and "frame_micro fp (m, pc) = (m', pc')"
  shows "hue_ok fp (hue m') pc'"
proof (cases pc)
  case (FrameSwitch now elapsed)
  then show ?thesis
    using assms f32_hundredth by (auto simp: frame_due_def split: led_pattern_t.splits if_splits)
next
  case (RainbowLoad now)
  then show ?thesis
    using assms rainbow_step_range [OF conjunct1 [OF progress_of_range] conjunct2 [OF progress_of_range]]
    by auto
next
  case (HueLoad k)
  then show ?thesis using assms hue_add_range by auto
next
  case (HueFix k)
  then show ?thesis using assms hue_sub_range by (auto split: if_splits)
qed (use assms in \<open>auto split: if_splits\<close>)

lemma animate_hue: "- 1 \<le> hue m \<and> hue m < 1 \<Longrightarrow>
    - 1 \<le> hue (led_animate_step fp now m) \<and> hue (led_animate_step fp now m) < 1"
  using frame_run [of "\<lambda>x. hue_ok fp (hue x)" fp m now] frame_micro_hue by simp

end

text \<open>What a run of the remaining stores of a setter would leave.\<close>

definition percent_ok :: "led_st \<Rightarrow> bool" where
  "percent_ok m \<longleftrightarrow> (pattern m = LED_PATTERN_DOWNLOAD_RAINBOW \<longrightarrow> progress_percent m \<le> 100) \<and>
     (pattern m = LED_PATTERN_PROGRESS \<longrightarrow> progress_percent m < 100)"

lemma percent_ok_acts: "percent_ok m \<Longrightarrow> percent_ok (fold led_do (acts_of c) m)"
  by (cases c) (auto simp: acts_defs percent_ok_def not_le not_less)

lemma percent_ok_fold:
  "pattern m' = pattern m \<Longrightarrow> progress_percent m' = progress_percent m \<Longrightarrow>
     percent_ok (fold led_do as m') = percent_ok (fold led_do as m)"
proof (induction as arbitrary: m m')
  case (Cons a as)
  have "pattern (led_do a m') = pattern (led_do a m) \<and>
      progress_percent (led_do a m') = progress_percent (led_do a m)"
    using Cons.prems by (cases a) simp_all
  then show ?case using Cons.IH [of "led_do a m'" "led_do a m"] by simp
qed (simp add: percent_ok_def)

text \<open>The setters that leave a fixed colour: \<open>calm\<close> says the frame in flight, if any, shows nothing
  any more.\<close>

fun calm :: "frame_pc \<Rightarrow> bool" where
  "calm (FrameSwitch _ _) = True"
| "calm FrameUnlock = True"
| "calm pc = (\<not> frame_holds pc)"

definition shows_colour :: "led_pattern_t \<Rightarrow> u16 \<times> u16 \<times> u16 \<Rightarrow> led_sys \<Rightarrow> bool" where
  "shows_colour p c s \<longleftrightarrow> pattern (mem s) = p \<and> duty (mem s) = c \<and> calm (frm s)"

definition solid_at :: "u16 \<Rightarrow> u16 \<Rightarrow> u16 \<Rightarrow> led_sys \<Rightarrow> bool" where
  "solid_at r g b s \<longleftrightarrow>
     (let c = (clamp_duty r, clamp_duty g, clamp_duty b); acts = solid_acts r g b in
      todo s = acts \<and> \<not> caller_has s \<or>
      todo s = drop 1 acts \<and> caller_has s \<or>
      todo s = drop 2 acts \<and> caller_has s \<and> pattern (mem s) = LED_PATTERN_NONE \<or>
      todo s = drop 3 acts \<and> caller_has s \<and> shows_colour LED_PATTERN_NONE c s \<or>
      todo s = [] \<and> \<not> caller_has s \<and> shows_colour LED_PATTERN_NONE c s)"

definition success_at :: "led_sys \<Rightarrow> bool" where
  "success_at s \<longleftrightarrow> \<not> caller_has s \<and>
     (todo s = success_acts \<or> todo s = drop 1 success_acts \<and> pattern (mem s) = LED_PATTERN_SUCCESS \<or>
      todo s = [] \<and> shows_colour LED_PATTERN_SUCCESS (0, of_nat LEDC_MAX_DUTY, 0) s)"

definition call_at :: "led_sys \<Rightarrow> bool" where
  "call_at s = (case call s of
      CallSolid r g b \<Rightarrow> solid_at r g b s
    | CallSuccess \<Rightarrow> success_at s
    | _ \<Rightarrow> \<not> caller_has s \<and> TakeMutex \<notin> set (todo s))"

definition resets_only :: "led_act list \<Rightarrow> bool" where
  "resets_only = list_all (\<lambda>a. case a of SetHue h \<Rightarrow> h = 0 | _ \<Rightarrow> True)"

lemma resets_only_acts: "resets_only (acts_of c)"
  by (cases c) (simp_all add: acts_defs resets_only_def)

text \<open>Each of the parts is kept by every step.\<close>

lemma frame_micro_calm:
  "frame_micro fp (m, pc) = (m', pc') \<Longrightarrow> calm pc \<Longrightarrow> pattern m \<in> {LED_PATTERN_NONE, LED_PATTERN_SUCCESS} \<Longrightarrow>
     calm pc' \<and> duty m' = duty m"
  by (cases pc) (auto simp: frame_due_def)

lemma led_do_duties: "duties_ok m \<Longrightarrow> duties_ok (led_do a m)"
  by (cases a) simp_all

lemma led_do_task [simp]: "s_led_task (led_do a m) = s_led_task m"
  by (cases a) simp_all

lemma not_held_calm: "\<not> frame_holds pc \<Longrightarrow> calm pc"
  by (cases pc) simp_all

lemma led_start_keeps:
  "led_start_task created m = (e, m') \<Longrightarrow> pattern m' = pattern m \<and> progress_percent m' = progress_percent m \<and>
     hue m' = hue m \<and> duty m' = duty m \<and> (s_led_task m \<longrightarrow> s_led_task m')"
  by (auto simp: led_start_task_def split: if_splits)

lemma led_init_keeps:
  "led_init mo tm ch created m = Some (e, m') \<Longrightarrow> duties_ok m \<Longrightarrow>
     pattern m' = pattern m \<and> progress_percent m' = progress_percent m \<and> hue m' = hue m \<and> duties_ok m'"
proof -
  assume i: "led_init mo tm ch created m = Some (e, m')" and d: "duties_ok m"
  define m1 where "m1 = led_set_color 0 0 0 (m\<lparr>s_ledc_mutex := True, duty := (0, 0, 0)\<rparr>)"
  have "m' = m \<or> led_start_task created m1 = (e, m')"
    using i by (auto simp: led_init_def m1_def Let_def split: if_splits)
  moreover have "pattern m1 = pattern m" "progress_percent m1 = progress_percent m" "hue m1 = hue m"
    "duties_ok m1"
    by (simp_all add: m1_def)
  ultimately show ?thesis
    using d led_start_keeps [of created m1 e m'] by (auto simp: duties_ok_def)
qed

lemma step_duties: "led_step fp s t \<Longrightarrow> duties_ok (mem s) \<Longrightarrow> duties_ok (mem t)"
proof (induction rule: led_step.induct)
  case (update s now)
  then show ?case
    using frame_run [of "\<lambda>m _. duties_ok m" fp "mem s" now] frame_micro_duties by (auto simp: led_update_def)
next
  case (init s mo tm ch created e m)
  then show ?case using led_init_keeps by auto
next
  case (start s created e m)
  then show ?case using led_start_keeps by (fastforce simp: duties_ok_def)
next
  case (frame s m pc)
  then show ?case using frame_micro_duties by auto
qed (simp_all add: led_do_duties led_stop_task_def)

lemma step_percent:
  "led_step fp s t \<Longrightarrow> duties_ok (mem s) \<Longrightarrow> percent_ok (fold led_do (todo s) (mem s)) \<Longrightarrow>
     percent_ok (fold led_do (todo t) (mem t))"
proof (induction rule: led_step.induct)
  case (call s c)
  then show ?case using percent_ok_acts by simp
next
  case (update s now)
  then show ?case using led_update_keeps [of fp now "mem s"] by (simp add: percent_ok_def)
next
  case (init s mo tm ch created e m)
  then show ?case using led_init_keeps by (simp add: percent_ok_def)
next
  case (start s created e m)
  then show ?case using led_start_keeps [of created "mem s" e m] by (simp add: percent_ok_def)
next
  case (frame s m pc)
  then show ?case using percent_ok_fold [of m "mem s" "todo s"] frame_micro_keeps [of fp "mem s" "frm s" m pc]
    by simp
next
  case (exit s)
  then show ?case using percent_ok_fold [of "(mem s)\<lparr>s_led_task := False\<rparr>" "mem s" "todo s"] by simp
qed (simp_all add: led_stop_task_def percent_ok_def)

lemma led_do_hue: "resets_only (a # as) \<Longrightarrow> hue_ok fp (hue m) pc \<Longrightarrow> hue_ok fp (hue (led_do a m)) pc"
  using hue_ok_reset by (cases a) (auto simp: resets_only_def)

lemma step_resets: "led_step fp s t \<Longrightarrow> resets_only (todo s) \<Longrightarrow> resets_only (todo t)"
proof (induction rule: led_step.induct)
  case (call s c)
  then show ?case by (simp add: resets_only_acts)
qed (simp_all add: resets_only_def)

context float_arith
begin

lemma step_hue:
  "led_step fp s t \<Longrightarrow> duties_ok (mem s) \<Longrightarrow> resets_only (todo s) \<Longrightarrow>
     hue_ok fp (hue (mem s)) (frm s) \<and> (frm s \<noteq> FrameNone \<longrightarrow> s_led_task (mem s)) \<Longrightarrow>
     hue_ok fp (hue (mem t)) (frm t) \<and> (frm t \<noteq> FrameNone \<longrightarrow> s_led_task (mem t))"
proof (induction rule: led_step.induct)
  case (act s a as)
  then show ?case using led_do_hue [of a as fp "mem s" "frm s"] by simp
next
  case (update s now)
  then show ?case
    using animate_hue [of "mem s" now] led_update_keeps [of fp now "mem s"] by (auto simp: led_update_def)
next
  case (init s mo tm ch created e m)
  then show ?case using led_init_keeps by auto
next
  case (start s created e m)
  then show ?case using led_start_keeps [of created "mem s" e m] by (cases "frm s") auto
next
  case (frame s m pc)
  have "frm s \<noteq> FrameNone" using frame(1) by auto
  then have "s_led_task m" using frame(2,5) frame_micro_keeps [of fp "mem s" "frm s" m pc] by simp
  moreover have "hue_ok fp (hue m) pc" using frame(2,5) frame_micro_hue by blast
  ultimately show ?case by simp
next
  case (exit s)
  then show ?case by simp
qed (simp_all add: led_stop_task_def)

end

text \<open>The fixed colours: the mutex keeps a frame in flight out of \<^verbatim>\<open>led_show_solid\<close>, and
  \<^verbatim>\<open>led_set_color\<close> in \<^verbatim>\<open>led_show_success\<close> waits for it.\<close>

definition mutex_inv :: "led_sys \<Rightarrow> bool" where
  "mutex_inv s \<longleftrightarrow> (caller_has s \<longrightarrow> \<not> frame_holds (frm s)) \<and> call_at s"

lemma call_at_idle: "mutex_inv s \<Longrightarrow> todo s = [] \<Longrightarrow> \<not> caller_has s"
  by (cases "call s")
    (simp_all add: mutex_inv_def call_at_def solid_at_def success_at_def solid_acts_def success_acts_def Let_def)

text \<open>A step that leaves the caller alone, the pattern too, and the duties if the colour is fixed.\<close>

lemma call_at_keep:
  assumes "call_at s" and "call t = call s" "todo t = todo s" "caller_has t = caller_has s"
    and "pattern (mem t) = pattern (mem s)"
    and "calm (frm s) \<Longrightarrow> pattern (mem s) \<in> {LED_PATTERN_NONE, LED_PATTERN_SUCCESS} \<Longrightarrow>
      calm (frm t) \<and> duty (mem t) = duty (mem s)"
  shows "call_at t"
proof -
  have sc: "shows_colour p c t" if "shows_colour p c s" "p \<in> {LED_PATTERN_NONE, LED_PATTERN_SUCCESS}" for p c
    using that assms(5,6) by (simp add: shows_colour_def)
  have "solid_at r g b t" if "solid_at r g b s" for r g b
    using that sc [of LED_PATTERN_NONE] unfolding solid_at_def Let_def assms(2-5) by blast
  moreover have "success_at t" if "success_at s"
    using that sc [of LED_PATTERN_SUCCESS] unfolding success_at_def assms(2-5) by blast
  ultimately show ?thesis using assms(1) unfolding call_at_def assms(2-4) by (cases "call s") simp_all
qed

text \<open>A store of the caller moves a setter on to its next point.\<close>

lemma solid_at_act:
  assumes "solid_at r g b s" and "caller_has s \<longrightarrow> \<not> frame_holds (frm s)"
    and "todo s = a # as" and "caller_may a (frm s)"
  shows "solid_at r g b (s\<lparr>mem := led_do a (mem s), todo := as, caller_has := caller_has_after a (caller_has s)\<rparr>)"
proof -
  note unf = solid_at_def Let_def solid_acts_def shows_colour_def caller_has_after_def led_set_color_def
  consider "todo s = solid_acts r g b \<and> \<not> caller_has s"
    | "todo s = drop 1 (solid_acts r g b) \<and> caller_has s"
    | "todo s = drop 2 (solid_acts r g b) \<and> caller_has s \<and> pattern (mem s) = LED_PATTERN_NONE"
    | "todo s = drop 3 (solid_acts r g b) \<and> caller_has s \<and>
        shows_colour LED_PATTERN_NONE (clamp_duty r, clamp_duty g, clamp_duty b) s"
    using assms(1,3) unfolding solid_at_def Let_def by auto
  then show ?thesis
  proof cases
    case 1
    then show ?thesis using assms(3) by (auto simp: unf)
  next
    case 2
    then show ?thesis using assms(3) by (auto simp: unf)
  next
    case 3
    then show ?thesis using assms(2,3) not_held_calm [of "frm s"] by (auto simp: unf)
  next
    case 4
    then show ?thesis using assms(3) by (auto simp: unf)
  qed
qed

lemma success_at_act:
  assumes "success_at s" and "todo s = a # as" and "caller_may a (frm s)"
  shows "success_at (s\<lparr>mem := led_do a (mem s), todo := as, caller_has := caller_has_after a (caller_has s)\<rparr>)"
proof -
  consider "todo s = success_acts" | "todo s = drop 1 success_acts \<and> pattern (mem s) = LED_PATTERN_SUCCESS"
    using assms(1,2) unfolding success_at_def by auto
  then show ?thesis
    using assms not_held_calm [of "frm s"]
    by cases (auto simp: success_at_def success_acts_def shows_colour_def caller_has_after_def
        led_set_color_def clamp_duty_def LEDC_MAX_DUTY_def)
qed

lemma call_at_act:
  assumes "mutex_inv s" and "todo s = a # as" and "caller_may a (frm s)"
  shows "call_at (s\<lparr>mem := led_do a (mem s), todo := as, caller_has := caller_has_after a (caller_has s)\<rparr>)"
proof (cases "call s")
  case (CallSolid r g b)
  then show ?thesis using solid_at_act [of r g b s a as] assms by (simp add: mutex_inv_def call_at_def)
next
  case CallSuccess
  then show ?thesis using success_at_act [of s a as] assms by (simp add: mutex_inv_def call_at_def)
qed (use assms in \<open>auto simp: mutex_inv_def call_at_def caller_has_after_def\<close>)

lemma mutex_act:
  "mutex_inv s \<Longrightarrow> todo s = a # as \<Longrightarrow> caller_may a (frm s) \<Longrightarrow>
     caller_has_after a (caller_has s) \<longrightarrow> \<not> frame_holds (frm s)"
  by (cases a) (simp_all add: mutex_inv_def caller_has_after_def)

lemma animate_still:
  "pattern m \<in> {LED_PATTERN_NONE, LED_PATTERN_SUCCESS} \<Longrightarrow> led_animate_step fp now m = m"
  by (auto simp: led_animate_step_def Let_def)

lemma mutex_keep:
  assumes "mutex_inv s" and "call t = call s" "todo t = todo s" "caller_has t = caller_has s"
    and "pattern (mem t) = pattern (mem s)"
    and "calm (frm s) \<Longrightarrow> pattern (mem s) = LED_PATTERN_NONE \<or> pattern (mem s) = LED_PATTERN_SUCCESS \<Longrightarrow>
      calm (frm t) \<and> duty (mem t) = duty (mem s)"
    and "caller_has s \<Longrightarrow> \<not> frame_holds (frm s) \<Longrightarrow> \<not> frame_holds (frm t)"
  shows "mutex_inv t"
proof -
  have "call_at t" using assms(1,6) by (intro call_at_keep [of s t, OF _ assms(2-5)]) (auto simp: mutex_inv_def)
  then show ?thesis using assms(1,4,7) by (simp add: mutex_inv_def)
qed

lemma step_mutex: "led_step fp s t \<Longrightarrow> mutex_inv s \<Longrightarrow> mutex_inv t"
proof (induction rule: led_step.induct)
  case (call s c)
  then show ?case
    using call_at_idle [of s]
    by (cases c) (simp_all add: mutex_inv_def call_at_def solid_at_def success_at_def acts_defs)
next
  case (act s a as)
  then show ?case
    using call_at_act mutex_act unfolding mutex_inv_def by simp
next
  case (update s now)
  have still: "led_update fp now (mem s) = mem s"
    if "pattern (mem s) = LED_PATTERN_NONE \<or> pattern (mem s) = LED_PATTERN_SUCCESS"
    using that animate_still [of "mem s" fp now] by (simp add: led_update_def)
  show ?case by (rule mutex_keep [OF update(3)]) (simp_all add: led_update_keeps still)
next
  case (init s mo tm ch created e m)
  then have no: "\<not> caller_has s" using call_at_idle by blast
  show ?case using no init(1) by (simp add: mutex_inv_def call_at_def)
next
  case (start s created e m)
  note k = led_start_keeps [OF start(3)]
  show ?case by (rule mutex_keep [OF start(4)]) (use k in simp_all)
next
  case (stop s)
  show ?case by (rule mutex_keep [OF stop(2)]) (simp_all add: led_stop_task_def)
next
  case (wake s now)
  show ?case by (rule mutex_keep [OF wake(4)]) (simp_all)
next
  case (lock s now elapsed)
  show ?case by (rule mutex_keep [OF lock(3)]) (use lock(2) in simp_all)
next
  case (frame s m pc)
  have no: "\<not> caller_has s" using frame(1,3) unfolding mutex_inv_def by blast
  note k = frame_micro_keeps [OF frame(2)] and c = frame_micro_calm [OF frame(2)]
  show ?case by (rule mutex_keep [OF frame(3)]) (use no k c in simp_all)
next
  case (exit s)
  show ?case by (rule mutex_keep [OF exit(4)]) (simp_all)
qed

section \<open>Properties\<close>

definition led_inv :: "float_ops \<Rightarrow> led_sys \<Rightarrow> bool" where
  "led_inv fp s \<longleftrightarrow> duties_ok (mem s) \<and> resets_only (todo s) \<and> percent_ok (fold led_do (todo s) (mem s)) \<and>
     hue_ok fp (hue (mem s)) (frm s) \<and> (frm s \<noteq> FrameNone \<longrightarrow> s_led_task (mem s)) \<and> mutex_inv s"

lemma led_inv_start: "led_inv fp led_start"
  by (simp add: led_inv_def led_start_def led_boot_def duties_ok_def LEDC_MAX_DUTY_def resets_only_def
      percent_ok_def mutex_inv_def call_at_def)

lemma led_step_inv: "float_arith fp \<Longrightarrow> led_step fp s t \<Longrightarrow> led_inv fp s \<Longrightarrow> led_inv fp t"
  unfolding led_inv_def
  using step_duties [of fp s t] step_resets [of fp s t] step_percent [of fp s t] step_mutex [of fp s t]
    float_arith.step_hue [of fp s t] by blast

lemma led_reach_inv: "led_reach fp s \<Longrightarrow> float_arith fp \<Longrightarrow> led_inv fp s"
  by (induction rule: led_reach.induct) (simp_all add: led_inv_start led_step_inv)

lemma led_reach_mutex: "led_reach fp s \<Longrightarrow> mutex_inv s"
proof (induction rule: led_reach.induct)
  case boot
  show ?case by (simp add: led_start_def mutex_inv_def call_at_def)
next
  case (step s t)
  then show ?case using step_mutex by blast
qed

text \<open>C39. Whatever the stores of the setters and the accesses of the animation task's frames
  interleave to, the three duty registers stay within the 12-bit range of the timer; between two
  frames the hue is at least -1 and below 1; and between two setters the accelerating rainbow has
  a progress of at most 100 percent and the legacy progress pattern one below 100. (In the middle
  of \<^verbatim>\<open>led_show_progress(100)\<close> a frame can see that pattern with 100, and a hue below 0 is what
  \<open>led_hue_race\<close> shows.)\<close>

theorem led_invariant:
  assumes "float_arith fp" and "led_reach fp s"
  shows "duties_ok (mem s) \<and>
     (frm s = FrameNone \<longrightarrow> - 1 \<le> hue (mem s) \<and> hue (mem s) < 1) \<and>
     (todo s = [] \<longrightarrow>
        (pattern (mem s) = LED_PATTERN_DOWNLOAD_RAINBOW \<longrightarrow> progress_percent (mem s) \<le> 100) \<and>
        (pattern (mem s) = LED_PATTERN_PROGRESS \<longrightarrow> progress_percent (mem s) < 100))"
  using led_reach_inv [OF assms(2,1)] unfolding led_inv_def percent_ok_def by auto

text \<open>C20. A fixed colour survives: once \<^verbatim>\<open>led_show_solid\<close> has returned, and until the task that
  called it calls another setter, the pattern is NONE and the duty registers hold the (clamped)
  colour, whatever frame of the animation task was in flight and whichever frames follow; and
  once \<^verbatim>\<open>led_show_success\<close> has returned the LED is and stays green.\<close>

theorem led_fixed_colour:
  assumes "led_reach fp s" and "todo s = []"
  shows "(call s = CallSolid r g b \<longrightarrow>
       pattern (mem s) = LED_PATTERN_NONE \<and> duty (mem s) = (clamp_duty r, clamp_duty g, clamp_duty b)) \<and>
     (call s = CallSuccess \<longrightarrow>
       pattern (mem s) = LED_PATTERN_SUCCESS \<and> duty (mem s) = (0, of_nat LEDC_MAX_DUTY, 0))"
  using led_reach_mutex [OF assms(1)] assms(2)
  by (auto simp: mutex_inv_def call_at_def solid_at_def success_at_def solid_acts_def success_acts_def
      shows_colour_def Let_def)

text \<open>The hue is stored by the frames in two separate accesses and reset by two setters without the
  mutex: a reset that comes between a frame's test against 1 and its subtraction leaves -1.\<close>

lemma frame_step:
  "led_reach fp s \<Longrightarrow> frame_holds (frm s) \<Longrightarrow> frame_micro fp (mem s, frm s) = (m, pc) \<Longrightarrow>
     led_reach fp (s\<lparr>mem := m, frm := pc\<rparr>)"
  using led_reach.step led_step.frame by metis

lemma act_step:
  "led_reach fp s \<Longrightarrow> todo s = a # as \<Longrightarrow> caller_may a (frm s) \<Longrightarrow>
     led_reach fp (s\<lparr>mem := led_do a (mem s), todo := as, caller_has := caller_has_after a (caller_has s)\<rparr>)"
  using led_reach.step led_step.act by metis

theorem led_hue_race:
  assumes "float_arith fp" and "led_reach fp s" and "todo s = []" and "frm s = HueFix k" and "k \<noteq> WifiHue"
  shows "\<exists>t. led_reach fp t \<and> frm t = HuePaint k \<and> hue (mem t) = - 1"
proof -
  define a where "a = s\<lparr>call := CallDownloading, todo := acts_of CallDownloading\<rparr>"
  have a: "led_reach fp a" unfolding a_def using led_reach.step [OF assms(2) led_step.call] assms(3) by blast
  define b where "b = a\<lparr>mem := led_do (SetPattern LED_PATTERN_DOWNLOADING) (mem a), todo := [SetHue 0]\<rparr>"
  have "led_reach fp (a\<lparr>mem := led_do (SetPattern LED_PATTERN_DOWNLOADING) (mem a), todo := [SetHue 0],
      caller_has := caller_has_after (SetPattern LED_PATTERN_DOWNLOADING) (caller_has a)\<rparr>)"
    by (rule act_step [OF a]) (simp_all add: a_def downloading_acts_def)
  then have b: "led_reach fp b" by (simp add: b_def caller_has_after_def)
  define c where "c = b\<lparr>mem := led_do (SetHue 0) (mem b), todo := []\<rparr>"
  have "led_reach fp (b\<lparr>mem := led_do (SetHue 0) (mem b), todo := [],
      caller_has := caller_has_after (SetHue 0) (caller_has b)\<rparr>)"
    by (rule act_step [OF b]) (simp_all add: b_def)
  then have c: "led_reach fp c" by (simp add: c_def caller_has_after_def)
  have fc: "frm c = HueFix k" "hue (mem c) = 0" using assms(4) by (simp_all add: c_def b_def a_def)
  have "fsub fp 0 1 = - 1" using float_arith.f32_exact(3) [OF assms(1)] by (simp add: fsub_def)
  then have d: "led_reach fp (c\<lparr>mem := mem c, frm := HueFixStore k (- 1)\<rparr>)"
    using fc assms(5) by (intro frame_step [OF c]) simp_all
  have "led_reach fp ((c\<lparr>mem := mem c, frm := HueFixStore k (- 1)\<rparr>)\<lparr>mem := (mem c)\<lparr>hue := - 1\<rparr>, frm := HuePaint k\<rparr>)"
    by (rule frame_step [OF d]) simp_all
  then show ?thesis by (intro exI [of _ "(c\<lparr>mem := mem c, frm := HueFixStore k (- 1)\<rparr>)\<lparr>mem := (mem c)\<lparr>hue := - 1\<rparr>, frm := HuePaint k\<rparr>"]) simp
qed

text \<open>\<^verbatim>\<open>led_show_progress(100)\<close> sets green before it leaves the animated pattern: a frame that comes in
  between paints over the green, and the pattern that follows shows nothing more.\<close>

lemma progress_duty_500: "progress_duty fix_ops 500 100 = 0"
proof -
  have "progress_cycle_time 100 = 500" by (simp add: progress_cycle_time_def)
  moreover have "f32 fix_ops 500 = 500" using fix_round_grid [of "500 * 2 ^ 24"] by (simp add: fix_ops_def)
  moreover have "f32 fix_ops 0 = 0" "f64 fix_ops 0 = 0"
    by (simp_all add: fix_ops_def fix_round_def fix_floors)
  moreover have "sinf fix_ops 0 = - 1" by (simp add: fix_ops_def tri_sin_def)
  ultimately show ?thesis
    by (simp add: progress_duty_def Let_def fdiv_def fmul_def fadd_def fmodf_def to_u16_def)
qed

theorem led_progress_repainted:
  "\<exists>s. led_reach fix_ops s \<and> todo s = [] \<and> call s = CallProgress 100 \<and> pattern (mem s) = LED_PATTERN_SUCCESS \<and>
     duty (mem s) = (0, 0, 0)"
proof -
  define st where "st m as pc = \<lparr>mem = m, call = CallProgress 100, todo = as, caller_has = False, frm = pc\<rparr>"
    for m as pc
  have act: "led_reach fix_ops (st m (a # as) pc) \<Longrightarrow> caller_may a pc \<Longrightarrow> a \<noteq> TakeMutex \<Longrightarrow>
      led_reach fix_ops (st (led_do a m) as pc)" for m a as pc
    using act_step [of fix_ops "st m (a # as) pc" a as] by (simp add: st_def caller_has_after_def)
  have fr: "led_reach fix_ops (st m as pc) \<Longrightarrow> frame_holds pc \<Longrightarrow> frame_micro fix_ops (m, pc) = (m', pc') \<Longrightarrow>
      led_reach fix_ops (st m' as pc')" for m as pc m' pc'
    using frame_step [of fix_ops "st m as pc" m' pc'] by (simp add: st_def)
  define m where "m = led_boot\<lparr>s_ledc_mutex := True, s_led_task := True\<rparr>"
  have "led_init True ESP_OK [] True led_boot = Some (ESP_OK, m)"
    by (simp add: led_init_def led_start_task_def led_boot_def m_def led_set_color_def clamp_duty_def Let_def)
  then have i: "led_reach fix_ops (led_start\<lparr>mem := m, call := CallColor 0 0 0\<rparr>)"
    by (intro led_reach.step [OF led_reach.boot] led_step.init) (simp_all add: led_start_def led_boot_def)
  have "led_reach fix_ops (st m (progress_acts 100) FrameNone)"
    using led_reach.step [OF i led_step.call [of _ _ "CallProgress 100"]] by (simp add: led_start_def st_def)
  then have "led_reach fix_ops (st m [SetPattern LED_PATTERN_PROGRESS, SetPercent 100,
      SetColor 0 (of_nat LEDC_MAX_DUTY) 0, SetPattern LED_PATTERN_SUCCESS] FrameNone)"
    by (simp add: progress_acts_def)
  from act [OF act [OF act [OF this]]]
  have g: "led_reach fix_ops (st (led_set_color 0 (of_nat LEDC_MAX_DUTY) 0
      (m\<lparr>pattern := LED_PATTERN_PROGRESS, progress_percent := 100\<rparr>)) [SetPattern LED_PATTERN_SUCCESS] FrameNone)"
    (is "led_reach _ (st ?g ?as _)") by simp
  have g0: "last_update ?g = 0" "s_led_task ?g" "\<not> s_led_task_stop ?g" by (simp_all add: m_def led_boot_def led_set_color_def)
  have "led_reach fix_ops (st ?g ?as (FrameLock 500 500))"
    using led_reach.step [OF g led_step.wake [of _ _ 500]] g0 by (simp add: st_def)
  then have sw: "led_reach fix_ops (st ?g ?as (FrameSwitch 500 500))"
    using led_reach.step [OF _ led_step.lock [of "st ?g ?as (FrameLock 500 500)" 500 500 fix_ops]] by (simp add: st_def)
  let ?h = "?g\<lparr>last_update := 500\<rparr>"
  have "led_reach fix_ops (st ?h ?as (CycleLoad 500))" by (rule fr [OF sw]) (simp_all add: frame_due_def)
  then have "led_reach fix_ops (st ?h ?as (ColorTest 0 0))" by (rule fr) (simp_all add: progress_duty_500)
  then have "led_reach fix_ops (st ?h ?as (ColorTest 0 1))" by (rule fr) simp_all
  then have "led_reach fix_ops (st ?h ?as (ColorTest 0 2))" by (rule fr) simp_all
  then have "led_reach fix_ops (st (led_set_color 0 0 0 ?h) ?as FrameUnlock)" by (rule fr) simp_all
  then have "led_reach fix_ops (st (led_do (SetPattern LED_PATTERN_SUCCESS) (led_set_color 0 0 0 ?h)) [] FrameUnlock)"
    by (rule act) simp_all
  then show ?thesis
    by (intro exI [of _ "st (led_do (SetPattern LED_PATTERN_SUCCESS) (led_set_color 0 0 0 ?h)) [] FrameUnlock"])
      (simp add: st_def led_set_color_def clamp_duty_def LEDC_MAX_DUTY_def)
qed

text \<open>The blink of the error pattern is driven by the time since the last frame even when the
  32-bit millisecond counter wraps: \<open>d\<close> milliseconds after the last frame (with \<open>d\<close> below
  \<^verbatim>\<open>2^32\<close>) a frame toggles the red channel if and only if \<open>d\<close> is at least 300.\<close>

theorem led_error_blink:
  assumes "pattern s = LED_PATTERN_ERROR" and "d < 2 ^ 32"
  shows "led_animate_step fp (last_update s + of_nat d) s =
     (if d < 300 then s
      else s\<lparr>last_update := last_update s + of_nat d, blink_state := \<not> blink_state s,
             duty := (if blink_state s then 0 else of_nat LEDC_MAX_DUTY, 0, 0)\<rparr>)"
proof -
  have "(300 :: u32) \<le> of_nat d \<longleftrightarrow> 300 \<le> d"
    using assms(2) by (simp add: word_le_nat_alt unat_of_nat take_bit_nat_eq_self)
  then show ?thesis
    using assms(1)
    by (simp add: led_animate_step_def Let_def blink_frame_def led_set_color_def clamp_duty_def
        LEDC_MAX_DUTY_def not_less)
qed

text \<open>The colours of the rainbow fit the timer: at full saturation, a hue that is not negative and a
  brightness between 0 and 1 the conversion yields three duties within the 12-bit range, so no
  conversion to \<^verbatim>\<open>uint16_t\<close> is out of range and the clamp of \<^verbatim>\<open>led_set_color\<close> changes none of them.\<close>

theorem hsv_to_rgb_in_range:
  assumes "float_arith fp" and "0 \<le> h" and "f32 fp v = v" and "0 \<le> v" and "v \<le> 1"
    and "hsv_to_rgb fp h 1 v = (r, g, b)"
  shows "clamp_duty r = r \<and> clamp_duty g = g \<and> clamp_duty b = b"
  using float_arith.hsv_bounds [OF assms(1-5)] assms(6) by (auto simp: clamp_duty_def)

subsection \<open>Witnesses\<close>

lemma setter_done:
  assumes "led_reach fp s" and "\<not> frame_holds (frm s)"
  shows "\<exists>h. led_reach fp (s\<lparr>mem := fold led_do (todo s) (mem s), todo := [], caller_has := h\<rparr>)"
  using assms
proof (induction "todo s" arbitrary: s)
  case Nil
  then have "s\<lparr>mem := fold led_do (todo s) (mem s), todo := [], caller_has := caller_has s\<rparr> = s" by simp
  then show ?case using Nil by metis
next
  case (Cons a as)
  have "caller_may a (frm s)" using Cons.prems(2) by (cases a) simp_all
  then have "led_reach fp (s\<lparr>mem := led_do a (mem s), todo := as, caller_has := caller_has_after a (caller_has s)\<rparr>)"
    using act_step [OF Cons.prems(1)] Cons.hyps(2) by metis
  from Cons.hyps(1) [OF _ this] show ?case using Cons.prems(2) Cons.hyps(2) [symmetric] by simp
qed

lemma setter_first:
  "\<exists>h. led_reach fp \<lparr>mem = fold led_do (acts_of c) led_boot, call = c, todo = [], caller_has = h, frm = FrameNone\<rparr>"
proof -
  have "led_reach fp (led_start\<lparr>call := c, todo := acts_of c\<rparr>)"
    by (rule led_reach.step [OF led_reach.boot led_step.call]) (simp add: led_start_def)
  from setter_done [OF this] show ?thesis by (simp add: led_start_def)
qed

lemma led_invariant_witness:
  "\<exists>s. led_reach fix_ops s \<and> todo s = [] \<and> pattern (mem s) = LED_PATTERN_DOWNLOAD_RAINBOW \<and>
     progress_percent (mem s) \<le> 100"
proof -
  obtain h where r: "led_reach fix_ops \<lparr>mem = fold led_do (acts_of (CallDownloadProgress 200)) led_boot,
      call = CallDownloadProgress 200, todo = [], caller_has = h, frm = FrameNone\<rparr>"
    using setter_first by blast
  show ?thesis
    using led_invariant [OF fixed.float_arith_axioms r]
    by (intro exI [of _ "\<lparr>mem = fold led_do (acts_of (CallDownloadProgress 200)) led_boot,
      call = CallDownloadProgress 200, todo = [], caller_has = h, frm = FrameNone\<rparr>"] conjI r)
      (simp_all add: download_progress_acts_def)
qed

lemma led_fixed_colour_witness:
  "\<exists>s. led_reach fix_ops s \<and> todo s = [] \<and> call s = CallSolid 5000 1 2 \<and> duty (mem s) = (4095, 1, 2)"
proof -
  obtain h where r: "led_reach fix_ops \<lparr>mem = fold led_do (acts_of (CallSolid 5000 1 2)) led_boot,
      call = CallSolid 5000 1 2, todo = [], caller_has = h, frm = FrameNone\<rparr>"
    using setter_first by blast
  show ?thesis
    using led_fixed_colour [OF r, of 5000 1 2]
    by (intro exI [of _ "\<lparr>mem = fold led_do (acts_of (CallSolid 5000 1 2)) led_boot,
      call = CallSolid 5000 1 2, todo = [], caller_has = h, frm = FrameNone\<rparr>"] conjI r)
      (simp_all add: clamp_duty_def LEDC_MAX_DUTY_def)
qed

lemma led_error_blink_witness:
  "blink_state (led_animate_step fix_ops (5 + of_nat 300)
     (led_show_error (led_boot\<lparr>last_update := 5\<rparr>)))"
  using led_error_blink [of "led_show_error (led_boot\<lparr>last_update := 5\<rparr>)" 300 fix_ops]
  by (simp add: led_show_error_def error_acts_def)

lemma hsv_to_rgb_in_range_witness:
  "\<exists>r g b. hsv_to_rgb fix_ops (1 / 4) 1 1 = (r, g, b) \<and> clamp_duty g = g"
proof -
  obtain r g b where rgb: "hsv_to_rgb fix_ops (1 / 4) 1 1 = (r, g, b)" by (metis prod_cases3)
  have "clamp_duty g = g"
    using hsv_to_rgb_in_range [OF fixed.float_arith_axioms _ _ _ _ rgb] fixed.f32_exact(2) by simp
  then show ?thesis using rgb by blast
qed

end
