(* ===== verification/Download.thy ===== *)
theory Download
  imports HttpPool SdBus Led
begin

text \<open>
  The download of one folder, \<^verbatim>\<open>src/src/simibox_download.cpp\<close>: buffer and writer-task management,
  the progress display, \<^verbatim>\<open>download_file_standalone\<close> with its error paths,
  \<^verbatim>\<open>verify_download_integrity\<close> and \<^verbatim>\<open>download_simi_folder\<close> with the SD-clock retries and the final
  swap of directories. The transfer loop is \<open>seq_loop\<close>, to which the two concurrent tasks of the
  code are shown equal in the theory of the ping-pong transfer. The JSON library is a parameter
  \<open>js\<close>. The 64-bit byte counters are integers: they count at most the bytes received.
\<close>

section \<open>State\<close>

record progress_st =
  s_total_expected_bytes :: int
  s_total_downloaded_bytes :: int
  led_s :: led_st
  ticks :: "u32 list"

text \<open>The JSON library: parsing, the elements of an array, a member of an object, the value of a
  string and of a number.\<close>

record 'j json_api =
  cJSON_Parse :: "string \<Rightarrow> 'j option"
  json_array :: "'j \<Rightarrow> 'j list option"
  json_get :: "'j \<Rightarrow> string \<Rightarrow> 'j option"
  json_string :: "'j \<Rightarrow> string option"
  json_number :: "'j \<Rightarrow> rat option"

text \<open>Where the request of the file list goes, and what it leads to: the result of \<^verbatim>\<open>esp_http_client_perform\<close>, whether
  the response is chunked, and its data events.\<close>

record list_reply =
  lambda_url :: string
  lr_err :: esp_err
  lr_chunked :: bool
  lr_data :: "string list"

text \<open>\<open>psram_live\<close> and \<open>sems_live\<close> count the PSRAM blocks and the semaphores created and not yet
  freed, so that a pointer overwritten or cleared without a free is a leak one can state, and
  freeing twice shows as well.\<close>

record dl =
  http :: http_st
  bus :: sd_st
  prog :: progress_st
  buf0 :: bool
  buf1 :: bool
  s_buf_capacity :: nat
  mallocs :: "bool list"
  s_sd_task_handle :: bool
  sem_ready :: bool
  sem_done :: bool
  sem_oks :: "bool list"
  task_oks :: "bool list"
  fwrites :: "nat list"
  psram_live :: int
  sems_live :: int

datatype dl_result = DL_OK | SD_FAILED | NET_FAILED | OTHER_FAILED

fun pop_bool :: "bool list \<Rightarrow> bool \<times> bool list" where
  "pop_bool [] = (True, [])"
| "pop_bool (b # bs) = (b, bs)"

section \<open>Buffers, writer task, progress\<close>

definition PSRAM_STAGING_BUFFER_SIZE :: nat where "PSRAM_STAGING_BUFFER_SIZE = 3 * 1024 * 1024"

definition try_halves :: "nat list" where
  "try_halves = [PSRAM_STAGING_BUFFER_SIZE div 2, 1 * 1024 * 1024, 512 * 1024]"

text \<open>\<^verbatim>\<open>if (s_buf[i]) { free(s_buf[i]); s_buf[i] = nullptr; }\<close> for both buffers.\<close>

definition free_both :: "dl \<Rightarrow> dl" where
  "free_both d = d\<lparr>psram_live := psram_live d - of_bool (buf0 d) - of_bool (buf1 d), buf0 := False, buf1 := False\<rparr>"

fun alloc_halves :: "nat list \<Rightarrow> dl \<Rightarrow> dl" where
  "alloc_halves [] d = d"
| "alloc_halves (n # ns) d =
     (case pop_bool (mallocs d) of (a, m1) \<Rightarrow>
        (case pop_bool m1 of (b, m2) \<Rightarrow>
           (let d1 = d\<lparr>mallocs := m2, buf0 := a, buf1 := b, psram_live := psram_live d + of_bool a + of_bool b\<rparr> in
            if a \<and> b then d1\<lparr>s_buf_capacity := n\<rparr> else alloc_halves ns (free_both d1))))"

definition ensure_pingpong_buffers :: "dl \<Rightarrow> dl" where
  "ensure_pingpong_buffers d = (if buf0 d then d else alloc_halves try_halves d)"

definition free_pingpong_buffers :: "dl \<Rightarrow> dl" where
  "free_pingpong_buffers d = (free_both d)\<lparr>s_buf_capacity := 0\<rparr>"

definition start_sd_writer_task :: "dl \<Rightarrow> bool \<times> dl" where
  "start_sd_writer_task d =
     (case pop_bool (sem_oks d) of (a, m1) \<Rightarrow>
        (case pop_bool m1 of (b, m2) \<Rightarrow>
           (let d1 = d\<lparr>sem_ready := a, sem_done := b, sem_oks := m2, sems_live := sems_live d + of_bool a + of_bool b\<rparr> in
            if \<not> a \<or> \<not> b then (False, d1)
            else (case pop_bool (task_oks d1) of (c, m3) \<Rightarrow> (c, d1\<lparr>task_oks := m3, s_sd_task_handle := c\<rparr>)))))"

definition stop_sd_writer_task :: "dl \<Rightarrow> dl" where
  "stop_sd_writer_task d =
     d\<lparr>s_sd_task_handle := False, sems_live := sems_live d - of_bool (sem_ready d) - of_bool (sem_done d),
       sem_ready := False, sem_done := False\<rparr>"

definition led_tick :: "float_ops \<Rightarrow> progress_st \<Rightarrow> progress_st" where
  "led_tick fp p = p\<lparr>led_s := led_update fp (case ticks p of [] \<Rightarrow> 0 | t # _ \<Rightarrow> t) (led_s p), ticks := drop 1 (ticks p)\<rparr>"

text \<open>The percentage is cast to \<^verbatim>\<open>uint8_t\<close> before it is compared with 100.\<close>

definition progress_percent_of :: "int \<Rightarrow> int \<Rightarrow> u8" where
  "progress_percent_of downloaded expected =
     (let percent = of_int ((downloaded * 100) div expected) :: u8 in if percent > 100 then 100 else percent)"

definition update_led_progress :: "float_ops \<Rightarrow> progress_st \<Rightarrow> progress_st" where
  "update_led_progress fp p =
     led_tick fp
       (if s_total_expected_bytes p > 0
        then p\<lparr>led_s := led_show_download_progress
                        (progress_percent_of (s_total_downloaded_bytes p) (s_total_expected_bytes p)) (led_s p)\<rparr>
        else p)"

text \<open>What the loop does besides the transfer after a read of \<open>n\<close> bytes.\<close>

definition on_read :: "float_ops \<Rightarrow> nat \<Rightarrow> progress_st \<Rightarrow> progress_st" where
  "on_read fp n p =
     update_led_progress fp (p\<lparr>s_total_downloaded_bytes := s_total_downloaded_bytes p + int n\<rparr>)"

section \<open>One file\<close>

definition on_vol :: "(fs \<Rightarrow> 'a \<times> fs) \<Rightarrow> dl \<Rightarrow> 'a \<times> dl" where
  "on_vol f d = (case f (vol (bus d)) of (r, v) \<Rightarrow> (r, d\<lparr>bus := (bus d)\<lparr>vol := v\<rparr>\<rparr>))"

definition set_vol :: "(fs \<Rightarrow> fs) \<Rightarrow> dl \<Rightarrow> dl" where
  "set_vol f d = d\<lparr>bus := (bus d)\<lparr>vol := f (vol (bus d))\<rparr>\<rparr>"

definition release :: "nat \<Rightarrow> bool \<Rightarrow> dl \<Rightarrow> dl" where
  "release c force d = d\<lparr>http := release_http_client c force (http d)\<rparr>"

text \<open>After the connection is up: buffers, output file, writer task.\<close>

definition prepare_output :: "string \<Rightarrow> nat \<Rightarrow> dl \<Rightarrow> dl_result option \<times> dl" where
  "prepare_output out_part client d =
     (let d1 = ensure_pingpong_buffers d in
      if \<not> buf0 d1 \<or> \<not> buf1 d1 then (Some OTHER_FAILED, release client True d1)
      else
        (case on_vol (fs_fopen_w out_part) d1 of (f, d2) \<Rightarrow>
           if \<not> f then (Some SD_FAILED, release client True d2)
           else if s_sd_task_handle d2 then (None, d2)
           else
             (case start_sd_writer_task d2 of (ok, d3) \<Rightarrow>
                if ok then (None, d3)
                else (Some OTHER_FAILED, release client True (set_vol (fs_fclose out_part []) d3)))))"

text \<open>The transfer, and what follows it.\<close>

definition transfer :: "float_ops \<Rightarrow> http_session \<Rightarrow> dl \<Rightarrow> progress_st pp_result \<times> dl" where
  "transfer fp x d =
     (let z = seq_loop (on_read fp) (s_buf_capacity d) (ses_body x) [] (fwrites d) False 0 (prog d) in
      (z, d\<lparr>prog := res_progress z, fwrites := res_wr z\<rparr>))"

definition finish_file ::
  "float_ops \<Rightarrow> string \<Rightarrow> string \<Rightarrow> int \<Rightarrow> progress_st pp_result \<Rightarrow> dl \<Rightarrow> dl_result \<times> dl" where
  "finish_file fp out_part out_path clen z d =
     (let d1 = set_vol (fs_fclose out_part (res_file z)) d in
      if res_sd_error z then (SD_FAILED, d1)
      else if res_net_error z then (NET_FAILED, snd (on_vol (fs_unlink out_part) d1))
      else if (clen > 0 \<and> sint (res_total z) \<noteq> clen) \<or> sint (res_total z) = 0
      then (OTHER_FAILED, snd (on_vol (fs_unlink out_part) d1))
      else
        (case on_vol (fs_rename out_part out_path) d1 of (ok, d2) \<Rightarrow>
           if \<not> ok then (SD_FAILED, snd (on_vol (fs_unlink out_part) d2))
           else (DL_OK, d2\<lparr>prog := update_led_progress fp (prog d2)\<rparr>)))"

definition download_file_standalone :: "float_ops \<Rightarrow> string \<Rightarrow> string \<Rightarrow> dl \<Rightarrow> dl_result \<times> dl" where
  "download_file_standalone fp url out_path d =
     (let out_part = out_path @ ''.part'' in
      case http_connect url (http d) of (r, h) \<Rightarrow>
        (let d0 = d\<lparr>http := h\<rparr> in
         case r of
           None \<Rightarrow> (NET_FAILED, d0)
         | Some (client, x) \<Rightarrow>
             (case prepare_output out_part client d0 of (e, d1) \<Rightarrow>
                (case e of
                   Some err \<Rightarrow> (err, d1)
                 | None \<Rightarrow>
                     (case transfer fp x (d1\<lparr>http := client_read client (http d1)\<rparr>) of (z, d2) \<Rightarrow>
                        finish_file fp out_part out_path (ses_clen x) z
                          (release client (res_sd_error z \<or> res_net_error z) d2))))))"

section \<open>Verification of a folder\<close>

text \<open>\<^verbatim>\<open>(size_t)\<close> and \<^verbatim>\<open>(int64_t)\<close> of a JSON number in range.\<close>

definition trunc_num :: "rat \<Rightarrow> int" where
  "trunc_num q = (if q \<ge> 0 then \<lfloor>q\<rfloor> else \<lceil>q\<rceil>)"

definition entry_of :: "'j json_api \<Rightarrow> 'j \<Rightarrow> (string \<times> int) option" where
  "entry_of js item =
     (case (Option.bind (json_get js item ''name'') (json_string js),
            Option.bind (json_get js item ''size'') (json_number js)) of
        (Some nm, Some sz) \<Rightarrow> Some (nm, trunc_num sz)
      | _ \<Rightarrow> None)"

text \<open>One entry: skipped unless it has a name and a size; the file must exist with that size.\<close>

definition check_entry :: "'j json_api \<Rightarrow> string \<Rightarrow> 'j \<Rightarrow> bool \<times> fs \<Rightarrow> bool \<times> fs" where
  "check_entry js folder item st =
     (case entry_of js item of
        None \<Rightarrow> st
      | Some (filename, expected) \<Rightarrow>
          (case file_size_bytes (folder @ ''/'' @ filename) (snd st) of (actual, v) \<Rightarrow>
             (case actual of
                None \<Rightarrow> (False, v)
              | Some n \<Rightarrow> (if int n \<noteq> expected then False else fst st, v))))"

definition verify_download_integrity :: "'j json_api \<Rightarrow> string \<Rightarrow> fs \<Rightarrow> bool \<times> fs" where
  "verify_download_integrity js folder v =
     (case read_text_file (folder @ ''/manifest.json'') v of (content, v1) \<Rightarrow>
        (case content of
           None \<Rightarrow> (False, v1)
         | Some bytes \<Rightarrow>
             (case cJSON_Parse js (cstr (map (\<lambda>b. char_of (unat b)) bytes)) of
                None \<Rightarrow> (False, v1)
              | Some doc \<Rightarrow>
                  (case Option.bind (json_get js doc ''files'') (json_array js) of
                     None \<Rightarrow> (False, v1)
                   | Some items \<Rightarrow> fold (check_entry js folder) items (True, v1)))))"

section \<open>A folder\<close>

text \<open>The event handler of the list request collects the data of responses that are not
  chunked.\<close>

definition http_event_list_handler :: "bool \<Rightarrow> string \<Rightarrow> string \<Rightarrow> string" where
  "http_event_list_handler chunked data body = (if chunked then body else body @ data)"

definition list_body :: "list_reply \<Rightarrow> string" where
  "list_body lr = fold (http_event_list_handler (lr_chunked lr)) (lr_data lr) ''''"

text \<open>The file list: name and URL of each complete item, and the sum of the sizes given.\<close>

definition list_item :: "'j json_api \<Rightarrow> 'j \<Rightarrow> (string \<times> string) list \<times> int \<Rightarrow> (string \<times> string) list \<times> int" where
  "list_item js item acc =
     (case (Option.bind (json_get js item ''filename'') (json_string js),
            Option.bind (json_get js item ''url'') (json_string js)) of
        (Some nm, Some u) \<Rightarrow>
          (fst acc @ [(nm, u)],
           snd acc + (case Option.bind (json_get js item ''size'') (json_number js) of
                        None \<Rightarrow> 0 | Some q \<Rightarrow> trunc_num q))
      | _ \<Rightarrow> acc)"

text \<open>The list request has a client handle of its own, cleaned up whatever it answers.\<close>

definition fetch_list ::
  "'j json_api \<Rightarrow> string \<Rightarrow> list_reply \<Rightarrow> http_st \<Rightarrow> ((string \<times> string) list \<times> int) option \<times> http_st" where
  "fetch_list js url lr h =
     (case client_init url h of
        (None, h1) \<Rightarrow> (None, h1)
      | (Some client, h1) \<Rightarrow>
          (let h2 = client_perform client h1 in
           if lr_err lr \<noteq> ESP_OK then (None, client_cleanup client h2)
           else
             (let h3 = client_cleanup client h2 in
              case Option.bind (cJSON_Parse js (cstr (list_body lr))) (json_array js) of
                None \<Rightarrow> (None, h3)
              | Some items \<Rightarrow> (Some (fold (list_item js) items ([], 0)), h3))))"

definition show_progress :: "float_ops \<Rightarrow> u8 \<Rightarrow> dl \<Rightarrow> dl" where
  "show_progress fp p d = d\<lparr>prog := led_tick fp ((prog d)\<lparr>led_s := led_show_download_progress p (led_s (prog d))\<rparr>)\<rparr>"

text \<open>A file download changes nothing of the bus but the volume.\<close>

definition same_bus :: "dl \<Rightarrow> dl \<Rightarrow> bool" where
  "same_bus d e \<longleftrightarrow> (bus e)\<lparr>vol := vol (bus d)\<rparr> = bus d"

lemma same_bus_refl [simp]: "same_bus d d"
  by (simp add: same_bus_def)

lemma same_bus_trans: "same_bus a b \<Longrightarrow> same_bus b c \<Longrightarrow> same_bus a c"
  unfolding same_bus_def by (cases "bus a"; cases "bus b"; cases "bus c") simp

lemma same_bus_eq: "bus e = bus d \<Longrightarrow> same_bus d e"
  by (simp add: same_bus_def)

lemma same_bus_vol [simp]: "same_bus d (set_vol f d)" "on_vol g d = (r, e) \<Longrightarrow> same_bus d e" "same_bus d (snd (on_vol g d))"
  by (auto simp: same_bus_def set_vol_def on_vol_def split: prod.splits)

lemma free_both_frame [simp]: "bus (free_both d) = bus d" "http (free_both d) = http d" "buf0 (free_both d) = False"
  "buf1 (free_both d) = False" "mallocs (free_both d) = mallocs d" "s_buf_capacity (free_both d) = s_buf_capacity d"
  by (simp_all add: free_both_def)

lemma bus_alloc [simp]: "bus (alloc_halves ns d) = bus d"
  by (induction ns d rule: alloc_halves.induct) (auto simp: Let_def split: prod.splits)

lemma bus_ensure [simp]: "bus (ensure_pingpong_buffers d) = bus d"
  by (simp add: ensure_pingpong_buffers_def)

lemma bus_start: "start_sd_writer_task d = (ok, e) \<Longrightarrow> bus e = bus d"
  by (auto simp: start_sd_writer_task_def Let_def split: prod.splits if_splits)

lemma http_alloc [simp]: "http (alloc_halves ns d) = http d"
  by (induction ns d rule: alloc_halves.induct) (auto simp: Let_def split: prod.splits)

lemma http_ensure [simp]: "http (ensure_pingpong_buffers d) = http d"
  by (simp add: ensure_pingpong_buffers_def)

lemma start_frame:
  "start_sd_writer_task d = (ok, e) \<Longrightarrow> bus e = bus d \<and> http e = http d \<and> s_buf_capacity e = s_buf_capacity d"
  by (auto simp: start_sd_writer_task_def Let_def split: prod.splits if_splits)

lemma bus_release [simp]: "bus (release c f d) = bus d"
  by (simp add: release_def)

lemma prepare_output_bus:
  assumes "prepare_output p c d = (r, e)"
  shows "same_bus d e"
proof -
  define d1 where "d1 = ensure_pingpong_buffers d"
  obtain f d2 where o: "on_vol (fs_fopen_w p) d1 = (f, d2)" by fastforce
  obtain ok d3 where st: "start_sd_writer_task d2 = (ok, d3)" by fastforce
  have b: "same_bus d d2"
    using same_bus_trans [OF same_bus_eq same_bus_vol(2) [OF o], of d] by (simp add: d1_def)
  then have b3: "same_bus d d3" using bus_start [OF st] by (simp add: same_bus_def)
  have b4: "same_bus d (set_vol g d3)" for g using same_bus_trans [OF b3 same_bus_vol(1)] .
  have "(r, e) = (if \<not> buf0 d1 \<or> \<not> buf1 d1 then (Some OTHER_FAILED, release c True d1)
      else if \<not> f then (Some SD_FAILED, release c True d2)
      else if s_sd_task_handle d2 then (None, d2)
      else if ok then (None, d3)
      else (Some OTHER_FAILED, release c True (set_vol (fs_fclose p []) d3)))"
    using assms unfolding prepare_output_def Let_def d1_def [symmetric] o prod.case st by simp
  then show ?thesis
    using b b3 b4 [of "fs_fclose p []"] by (auto simp: same_bus_def d1_def split: if_splits)
qed

lemma finish_file_bus:
  assumes "finish_file fp p q n z d = (r, e)"
  shows "same_bus d e"
proof -
  define d1 where "d1 = set_vol (fs_fclose p (res_file z)) d"
  obtain ok d2 where o: "on_vol (fs_rename p q) d1 = (ok, d2)" by fastforce
  have b1: "same_bus d d1" by (simp add: d1_def)
  have b2: "same_bus d d2" using same_bus_trans [OF b1 same_bus_vol(2) [OF o]] .
  have u: "same_bus d (snd (on_vol g d1))" "same_bus d (snd (on_vol g d2))" for g :: "fs \<Rightarrow> bool \<times> fs"
    using same_bus_trans [OF b1] same_bus_trans [OF b2] by simp_all
  have "bus e = bus d1 \<or> bus e = bus d2 \<or> e = snd (on_vol (fs_unlink p) d1) \<or> e = snd (on_vol (fs_unlink p) d2)"
    using assms unfolding finish_file_def Let_def d1_def [symmetric] o prod.case by (auto split: if_splits)
  then show ?thesis using b1 b2 u by (auto simp: same_bus_def)
qed

lemma download_file_bus:
  assumes "download_file_standalone fp url out d = (r, e)"
  shows "same_bus d e"
proof -
  obtain c h where c: "http_connect url (http d) = (c, h)" by fastforce
  show ?thesis
  proof (cases c)
    case None
    then have "e = d\<lparr>http := h\<rparr>" using assms c by (simp add: download_file_standalone_def)
    then show ?thesis by (simp add: same_bus_def)
  next
    case (Some cx)
    obtain client x where cx: "cx = (client, x)" by fastforce
    obtain er d1 where p: "prepare_output (out @ ''.part'') client (d\<lparr>http := h\<rparr>) = (er, d1)" by fastforce
    have b1: "same_bus d d1" using prepare_output_bus [OF p] by (simp add: same_bus_def)
    obtain z d2 where t: "transfer fp x (d1\<lparr>http := client_read client (http d1)\<rparr>) = (z, d2)" by fastforce
    have "bus d2 = bus d1" using t by (auto simp: transfer_def Let_def)
    then have b2: "same_bus d (release client f d2)" for f using b1 by (simp add: same_bus_def)
    have fin: "er = None \<Longrightarrow> finish_file fp (out @ ''.part'') out (ses_clen x) z
        (release client (res_sd_error z \<or> res_net_error z) d2) = (r, e)"
      and err: "er \<noteq> None \<Longrightarrow> e = d1"
      using assms unfolding download_file_standalone_def Let_def c prod.case Some cx option.case p t by auto
    show ?thesis
      using b1 err same_bus_trans [OF b2 finish_file_bus [OF fin]] by (cases er) auto
  qed
qed

lemma same_bus_freq: "same_bus d e \<Longrightarrow> s_sd_freq_khz (bus e) = s_sd_freq_khz (bus d)"
  unfolding same_bus_def by (metis sd_st.select_convs(3) sd_st.surjective sd_st.update_convs(9))

lemma next_lower_less: "0 \<le> sd_next_lower_freq f \<Longrightarrow> sd_next_lower_freq f < f \<and> 0 < f"
  by (auto simp: sd_next_lower_freq_def SD_FREQ_LADDER_def split: if_splits)

lemma sd_retry_measure:
  assumes "(r, e) = download_file_standalone fp url out (snd (on_vol g (d\<lparr>bus := b\<lparr>s_sd_freq_khz := sd_next_lower_freq (s_sd_freq_khz (bus d))\<rparr>\<rparr>)))"
    and "\<not> sd_next_lower_freq (s_sd_freq_khz (bus d)) < 0"
  shows "nat (s_sd_freq_khz (bus e)) < nat (s_sd_freq_khz (bus d))"
proof -
  let ?d1 = "d\<lparr>bus := b\<lparr>s_sd_freq_khz := sd_next_lower_freq (s_sd_freq_khz (bus d))\<rparr>\<rparr>"
  have "same_bus ?d1 e" using same_bus_trans [OF same_bus_vol(3) download_file_bus [OF assms(1) [symmetric]]] .
  then have "s_sd_freq_khz (bus e) = sd_next_lower_freq (s_sd_freq_khz (bus d))" using same_bus_freq by fastforce
  then show ?thesis using next_lower_less [of "s_sd_freq_khz (bus d)"] assms(2) by simp
qed

text \<open>The retry loop: while the card fails and the clock can be lowered, lower it, drop the partial
  file and download again.\<close>

function sd_retry :: "float_ops \<Rightarrow> string \<Rightarrow> string \<Rightarrow> dl_result \<Rightarrow> dl \<Rightarrow> dl_result \<times> dl" where
  "sd_retry fp url out_final result d =
     (if result \<noteq> SD_FAILED then (result, d)
      else
        (let lower = sd_next_lower_freq (s_sd_freq_khz (bus d)) in
         if lower < 0 then (result, d)
         else
           (case set_sd_freq lower (bus d) of (ok, b) \<Rightarrow>
              if \<not> ok then (result, d\<lparr>bus := b\<rparr>)
              else
                (let d1 = d\<lparr>bus := b\<lparr>s_sd_freq_khz := lower\<rparr>\<rparr>;
                     d2 = snd (on_vol (fs_unlink (out_final @ ''.part'')) d1);
                     (result', d3) = download_file_standalone fp url out_final d2
                 in sd_retry fp url out_final result' d3))))"
  by pat_completeness auto

termination
proof (relation "measure (\<lambda>(fp, url, out, r, d). nat (s_sd_freq_khz (bus d)))", goal_cases)
  case 1
  show ?case by (rule wf_measure)
next
  case (2 fp url out r d lower ok b d1 d2 xc r' d3)
  have "(r', d3) = download_file_standalone fp url out (snd (on_vol (fs_unlink (out @ ''.part''))
      (d\<lparr>bus := b\<lparr>s_sd_freq_khz := sd_next_lower_freq (s_sd_freq_khz (bus d))\<rparr>\<rparr>)))"
    using 2 by metis
  from sd_retry_measure [OF this] 2 show ?case unfolding in_measure prod.case by blast
qed

declare sd_retry.simps [simp del]

text \<open>The loop over the files; the flags: all went well, the card failed.\<close>

fun download_all :: "float_ops \<Rightarrow> string \<Rightarrow> (string \<times> string) list \<Rightarrow> dl \<Rightarrow> bool \<times> bool \<times> dl" where
  "download_all fp tmp_dir [] d = (True, False, d)"
| "download_all fp tmp_dir ((name, url) # rest) d =
     (let d1 = d\<lparr>prog := update_led_progress fp (prog d)\<rparr>;
          out_final = tmp_dir @ ''/'' @ name;
          (result, d2) = download_file_standalone fp url out_final d1;
          (result2, d3) = sd_retry fp url out_final result d2
      in if result2 \<noteq> DL_OK then (False, result2 = SD_FAILED, d3)
         else download_all fp tmp_dir rest (snd (on_vol (fs_stat out_final) d3)))"

definition prepare_tmp :: "string \<Rightarrow> fs \<Rightarrow> bool \<times> fs" where
  "prepare_tmp tmp_dir v =
     (case fs_stat tmp_dir v of (st, v1) \<Rightarrow>
        fs_mkdir tmp_dir (if st \<noteq> None then rm_tree tmp_dir v1 else v1))"

text \<open>The swap: an existing folder is removed, the temporary one takes its name.\<close>

definition swap_in :: "string \<Rightarrow> string \<Rightarrow> fs \<Rightarrow> bool \<times> fs" where
  "swap_in tmp_dir final_dir v =
     (case fs_stat final_dir v of (st, v1) \<Rightarrow>
        (let v2 = (if st \<noteq> None then rm_tree final_dir v1 else v1) in
         case fs_rename tmp_dir final_dir v2 of (ok, v3) \<Rightarrow>
           if ok then (True, v3) else (False, rm_tree tmp_dir v3)))"

definition ok_text :: "byte list" where "ok_text = [0x4f, 0x4b, 0x0a]"

definition write_ok :: "string \<Rightarrow> fs \<Rightarrow> fs" where
  "write_ok final_dir v =
     (case fs_fopen_w (final_dir @ ''/.ok'') v of (ok, v1) \<Rightarrow>
        if ok then fs_fclose (final_dir @ ''/.ok'') ok_text v1 else v1)"

definition dl_cleanup :: "dl \<Rightarrow> dl" where
  "dl_cleanup d = free_pingpong_buffers (stop_sd_writer_task (d\<lparr>http := cleanup_http_pool (http d)\<rparr>))"

text \<open>\<^verbatim>\<open>download_simi_folder\<close> up to the verification of the temporary directory, and the rest. The
  results are whether to go on (the return value), \<^verbatim>\<open>*out_sd_failed\<close> and the state. The estimate for
  a list without sizes is computed in the 32-bit \<^verbatim>\<open>size_t\<close>.\<close>

definition estimate_bytes :: "nat \<Rightarrow> int" where
  "estimate_bytes n = (int n * 2 * 1024 * 1024) mod 2 ^ 32"

definition list_url :: "list_reply \<Rightarrow> string \<Rightarrow> string" where
  "list_url lr folder = lambda_url lr @ ''/?folder='' @ folder"

definition fetch_folder ::
  "float_ops \<Rightarrow> 'j json_api \<Rightarrow> list_reply \<Rightarrow> string \<Rightarrow> string \<Rightarrow> bool \<Rightarrow> dl \<Rightarrow> bool \<times> bool \<times> dl" where
  "fetch_folder fp js lr url tmp_dir out_sd_failed d =
     (let d0 = show_progress fp 0 (d\<lparr>prog := (prog d)\<lparr>s_total_expected_bytes := 0, s_total_downloaded_bytes := 0\<rparr>\<rparr>);
          (fl, h) = fetch_list js url lr (http d0);
          d1 = d0\<lparr>http := h\<rparr>
      in case fl of
           None \<Rightarrow> (False, out_sd_failed, d1)
         | Some (file_list, expected) \<Rightarrow>
             (let d2 = d1\<lparr>prog := (prog d1)\<lparr>s_total_expected_bytes := expected\<rparr>\<rparr> in
              if \<not> (\<exists>it \<in> set file_list. fst it = ''manifest.json'') then (False, out_sd_failed, d2)
              else
                (let d3 = (if expected = 0
                           then d2\<lparr>prog := (prog d2)\<lparr>s_total_expected_bytes := estimate_bytes (length file_list)\<rparr>\<rparr>
                           else d2) in
                 case on_vol (prepare_tmp tmp_dir) d3 of (ok, d4) \<Rightarrow>
                   if \<not> ok then (False, out_sd_failed, d4)
                   else
                     (case download_all fp tmp_dir file_list d4 of (all_ok, sd_failed, d5) \<Rightarrow>
                        (let d6 = dl_cleanup d5 in
                         if \<not> all_ok
                         then (False, sd_failed, if sd_failed then d6 else set_vol (rm_tree tmp_dir) d6)
                         else
                           (case on_vol (verify_download_integrity js tmp_dir) (show_progress fp 100 d6) of (good, d7) \<Rightarrow>
                              if \<not> good then (False, out_sd_failed, set_vol (rm_tree tmp_dir) d7)
                              else (True, out_sd_failed, d7)))))))"

definition download_simi_folder ::
  "float_ops \<Rightarrow> 'j json_api \<Rightarrow> list_reply \<Rightarrow> string \<Rightarrow> bool \<Rightarrow> dl \<Rightarrow> bool \<times> bool \<times> dl" where
  "download_simi_folder fp js lr folder out_sd_failed d =
     (let final_dir = ''/sdcard/'' @ folder;
          tmp_dir = final_dir @ ''.tmp''
      in case fetch_folder fp js lr (list_url lr folder) tmp_dir out_sd_failed d of (fetched, sd, d1) \<Rightarrow>
           if \<not> fetched then (False, sd, d1)
           else
             (case on_vol (swap_in tmp_dir final_dir) d1 of (swapped, d2) \<Rightarrow>
                if \<not> swapped then (False, sd, d2)
                else (True, False, set_vol (write_ok final_dir) d2)))"

section \<open>Cases of a file download\<close>

lemma prepare_outputE:
  assumes "prepare_output p c d = (r, e)"
  obtains (no_buffers) "r = Some OTHER_FAILED" "e = release c True (ensure_pingpong_buffers d)"
    | (no_file) v where "r = Some SD_FAILED" "fs_fopen_w p (vol (bus d)) = (False, v)" "vol (bus e) = v"
        "http e = release_http_client c True (http d)"
    | (no_task) v where "r = Some OTHER_FAILED" "fs_fopen_w p (vol (bus d)) = (True, v)"
        "vol (bus e) = fs_fclose p [] v" "http e = release_http_client c True (http d)"
    | (ready) v where "r = None" "fs_fopen_w p (vol (bus d)) = (True, v)" "vol (bus e) = v" "http e = http d"
        "buf0 (ensure_pingpong_buffers d)" "buf1 (ensure_pingpong_buffers d)"
        "s_buf_capacity e = s_buf_capacity (ensure_pingpong_buffers d)"
proof -
  define d1 where "d1 = ensure_pingpong_buffers d"
  obtain f v where f: "fs_fopen_w p (vol (bus d)) = (f, v)" by fastforce
  define d2 where "d2 = d1\<lparr>bus := (bus d)\<lparr>vol := v\<rparr>\<rparr>"
  have o: "on_vol (fs_fopen_w p) d1 = (f, d2)" using f by (simp add: on_vol_def d1_def d2_def)
  obtain ok d3 where st: "start_sd_writer_task d2 = (ok, d3)" by fastforce
  have http: "http d1 = http d" by (simp add: d1_def http_ensure)
  have d2: "vol (bus d2) = v" "http d2 = http d" "s_buf_capacity d2 = s_buf_capacity d1"
    using http by (simp_all add: d2_def)
  have d3: "vol (bus d3) = v" "http d3 = http d" "s_buf_capacity d3 = s_buf_capacity d1"
    using start_frame [OF st] d2 by simp_all
  have eq: "(r, e) = (if \<not> buf0 d1 \<or> \<not> buf1 d1 then (Some OTHER_FAILED, release c True d1)
      else if \<not> f then (Some SD_FAILED, release c True d2)
      else if s_sd_task_handle d2 then (None, d2)
      else if ok then (None, d3)
      else (Some OTHER_FAILED, release c True (set_vol (fs_fclose p []) d3)))"
    using assms unfolding prepare_output_def Let_def d1_def [symmetric] o prod.case st by simp
  show ?thesis
  proof (cases "\<not> buf0 d1 \<or> \<not> buf1 d1")
    case True
    then show ?thesis using no_buffers eq by (auto simp: d1_def)
  next
    case buf: False
    show ?thesis
    proof (cases f)
      case False
      then show ?thesis using no_file [of v] eq buf f d2 by (auto simp: release_def)
    next
      case True
      then show ?thesis
        using ready [of v] no_task [of v] eq buf f d2 d3
        by (auto simp: release_def set_vol_def d1_def split: if_splits)
    qed
  qed
qed

lemma finish_fileE:
  assumes "finish_file fp p q n z d = (r, e)"
  obtains (card) "res_sd_error z" "r = SD_FAILED" "vol (bus e) = fs_fclose p (res_file z) (vol (bus d))" "http e = http d"
    | (bad) "r \<in> {NET_FAILED, OTHER_FAILED}" "http e = http d"
        "vol (bus e) = snd (fs_unlink p (fs_fclose p (res_file z) (vol (bus d))))"
    | (no_rename) v where "r = SD_FAILED" "http e = http d"
        "fs_rename p q (fs_fclose p (res_file z) (vol (bus d))) = (False, v)" "vol (bus e) = snd (fs_unlink p v)"
    | (good) "r = DL_OK" "http e = http d" "\<not> res_sd_error z" "\<not> res_net_error z"
        "0 < n \<Longrightarrow> sint (res_total z) = n" "sint (res_total z) \<noteq> 0"
        "fs_rename p q (fs_fclose p (res_file z) (vol (bus d))) = (True, vol (bus e))"
proof -
  define d1 where "d1 = set_vol (fs_fclose p (res_file z)) d"
  obtain ok v where rn: "fs_rename p q (vol (bus d1)) = (ok, v)" by fastforce
  define d2 where "d2 = d1\<lparr>bus := (bus d1)\<lparr>vol := v\<rparr>\<rparr>"
  have o: "on_vol (fs_rename p q) d1 = (ok, d2)" using rn by (simp add: on_vol_def d2_def)
  have d1: "vol (bus d1) = fs_fclose p (res_file z) (vol (bus d))" "http d1 = http d"
    by (simp_all add: d1_def set_vol_def)
  have d2: "vol (bus d2) = v" "http d2 = http d" using d1 by (simp_all add: d2_def)
  have u: "vol (bus (snd (on_vol (fs_unlink p) x))) = snd (fs_unlink p (vol (bus x)))"
    "http (snd (on_vol (fs_unlink p) x)) = http x" for x
    by (simp_all add: on_vol_def split: prod.splits)
  let ?bad = "(n > 0 \<and> sint (res_total z) \<noteq> n) \<or> sint (res_total z) = 0"
  have eq: "(r, e) = (if res_sd_error z then (SD_FAILED, d1)
      else if res_net_error z then (NET_FAILED, snd (on_vol (fs_unlink p) d1))
      else if ?bad then (OTHER_FAILED, snd (on_vol (fs_unlink p) d1))
      else if \<not> ok then (SD_FAILED, snd (on_vol (fs_unlink p) d2))
      else (DL_OK, d2\<lparr>prog := update_led_progress fp (prog d2)\<rparr>))"
    using assms unfolding finish_file_def Let_def d1_def [symmetric] o prod.case by simp
  consider "res_sd_error z" | "\<not> res_sd_error z" "res_net_error z \<or> ?bad"
    | "\<not> res_sd_error z" "\<not> res_net_error z" "\<not> ?bad" by blast
  then show ?thesis
  proof cases
    case 1
    then show ?thesis using card eq d1 by simp
  next
    case 2
    then have "r \<in> {NET_FAILED, OTHER_FAILED} \<and> e = snd (on_vol (fs_unlink p) d1)"
      using eq by (auto split: if_splits)
    then show ?thesis using bad u [of d1] d1 by simp
  next
    case 3
    then show ?thesis
      using eq no_rename [of v] good rn d1 d2 u [of d2] by (cases ok) auto
  qed
qed

lemma download_fileE:
  assumes "download_file_standalone fp url out d = (r, e)"
  obtains (no_conn) h where "http_connect url (http d) = (None, h)" "r = NET_FAILED" "e = d\<lparr>http := h\<rparr>"
    | (unprepared) client x h er where "http_connect url (http d) = (Some (client, x), h)"
        "prepare_output (out @ ''.part'') client (d\<lparr>http := h\<rparr>) = (Some er, e)" "r = er"
    | (transferred) client x h d1 z d2 where "http_connect url (http d) = (Some (client, x), h)"
        "prepare_output (out @ ''.part'') client (d\<lparr>http := h\<rparr>) = (None, d1)" "transfer fp x (d1\<lparr>http := client_read client (http d1)\<rparr>) = (z, d2)"
        "finish_file fp (out @ ''.part'') out (ses_clen x) z
           (release client (res_sd_error z \<or> res_net_error z) d2) = (r, e)"
proof -
  obtain c h where c: "http_connect url (http d) = (c, h)" by fastforce
  show ?thesis
  proof (cases c)
    case None
    then show ?thesis using no_conn assms c by (simp add: download_file_standalone_def)
  next
    case (Some cx)
    obtain client x where cx: "cx = (client, x)" by fastforce
    obtain er d1 where p: "prepare_output (out @ ''.part'') client (d\<lparr>http := h\<rparr>) = (er, d1)" by fastforce
    obtain z d2 where t: "transfer fp x (d1\<lparr>http := client_read client (http d1)\<rparr>) = (z, d2)" by fastforce
    have "er = None \<Longrightarrow> finish_file fp (out @ ''.part'') out (ses_clen x) z
        (release client (res_sd_error z \<or> res_net_error z) d2) = (r, e)"
      and "er \<noteq> None \<Longrightarrow> e = d1 \<and> er = Some r"
      using assms unfolding download_file_standalone_def Let_def c prod.case Some cx option.case p t by auto
    then show ?thesis using unprepared transferred c Some cx p t by (cases er) auto
  qed
qed

text \<open>The resources a download holds, and the cases of a folder download.\<close>

definition held :: "dl \<Rightarrow> http_st \<times> bool \<times> bool \<times> bool \<times> bool \<times> bool \<times> int \<times> int" where
  "held d = (http d, buf0 d, buf1 d, s_sd_task_handle d, sem_ready d, sem_done d, psram_live d, sems_live d)"

lemma on_vol_eq: "on_vol f d = (fst (f (vol (bus d))), d\<lparr>bus := (bus d)\<lparr>vol := snd (f (vol (bus d)))\<rparr>\<rparr>)"
  by (simp add: on_vol_def split: prod.splits)

lemma vol_set_vol [simp]: "vol (bus (set_vol f d)) = f (vol (bus d))" "held (set_vol f d) = held d"
  by (simp_all add: set_vol_def held_def)

lemma vol_show [simp]: "bus (show_progress fp n d) = bus d" "held (show_progress fp n d) = held d"
  by (simp_all add: show_progress_def held_def)

lemma vol_cleanup [simp]: "bus (dl_cleanup d) = bus d"
  by (simp add: dl_cleanup_def free_pingpong_buffers_def stop_sd_writer_task_def)

lemma held_cleanup: "held (dl_cleanup d) = (cleanup_http_pool (http d), False, False, False, False, False,
    psram_live d - of_bool (buf0 d) - of_bool (buf1 d), sems_live d - of_bool (sem_ready d) - of_bool (sem_done d))"
  by (simp add: dl_cleanup_def free_pingpong_buffers_def free_both_def stop_sd_writer_task_def held_def)

definition listed :: "'j json_api \<Rightarrow> string \<Rightarrow> list_reply \<Rightarrow> dl \<Rightarrow> dl" where
  "listed js url lr d = d\<lparr>http := snd (fetch_list js url lr (http d))\<rparr>"

lemma fetch_folderE:
  assumes "fetch_folder fp js lr url tmp sd d = (ok, sd', e)"
  obtains (early) "\<not> ok" "bus e = bus d" "held e = held (listed js url lr d)"
    | (no_tmp) v where "\<not> ok" "prepare_tmp tmp (vol (bus d)) = (False, v)" "vol (bus e) = v" "held e = held (listed js url lr d)"
    | (failed) files d4 d5 where "\<not> ok" "prepare_tmp tmp (vol (bus d)) = (True, vol (bus d4))" "held d4 = held (listed js url lr d)"
        "download_all fp tmp files d4 = (False, sd', d5)" "held e = held (dl_cleanup d5)"
        "vol (bus e) = vol (bus d5) \<or> vol (bus e) = rm_tree tmp (vol (bus d5))"
    | (bad) files d4 sd5 d5 v where "\<not> ok" "prepare_tmp tmp (vol (bus d)) = (True, vol (bus d4))" "held d4 = held (listed js url lr d)"
        "download_all fp tmp files d4 = (True, sd5, d5)" "held e = held (dl_cleanup d5)"
        "verify_download_integrity js tmp (vol (bus d5)) = (False, v)" "vol (bus e) = rm_tree tmp v"
    | (verified) files d4 sd5 d5 where "ok" "prepare_tmp tmp (vol (bus d)) = (True, vol (bus d4))" "held d4 = held (listed js url lr d)"
        "download_all fp tmp files d4 = (True, sd5, d5)" "held e = held (dl_cleanup d5)"
        "verify_download_integrity js tmp (vol (bus d5)) = (True, vol (bus e))"
proof -
  define d0 where "d0 = show_progress fp 0 (d\<lparr>prog := (prog d)\<lparr>s_total_expected_bytes := 0, s_total_downloaded_bytes := 0\<rparr>\<rparr>)"
  obtain fl h where fh: "fetch_list js url lr (http d) = (fl, h)" by fastforce
  define d1 where "d1 = d0\<lparr>http := h\<rparr>"
  have d0: "http d0 = http d" by (simp add: d0_def show_progress_def)
  have d1: "bus d1 = bus d" "held d1 = held (listed js url lr d)"
    using fh by (simp_all add: d1_def d0_def listed_def show_progress_def held_def)
  show ?thesis
  proof (cases fl)
    case None
    then show ?thesis
      using assms(1) early d1 unfolding fetch_folder_def Let_def d0_def [symmetric] d0 fh prod.case d1_def [symmetric] by simp
  next
    case (Some x)
    obtain files expected where fe: "x = (files, expected)" by fastforce
    define d2 where "d2 = d1\<lparr>prog := (prog d1)\<lparr>s_total_expected_bytes := expected\<rparr>\<rparr>"
    define d3 where "d3 = (if expected = 0
                           then d2\<lparr>prog := (prog d2)\<lparr>s_total_expected_bytes := estimate_bytes (length files)\<rparr>\<rparr>
                           else d2)"
    have d3: "bus d2 = bus d" "held d2 = held (listed js url lr d)" "bus d3 = bus d" "held d3 = held (listed js url lr d)"
      using d1 by (simp_all add: d3_def d2_def held_def)
    obtain pok v where v: "prepare_tmp tmp (vol (bus d)) = (pok, v)" by fastforce
    define d4 where "d4 = d3\<lparr>bus := (bus d3)\<lparr>vol := v\<rparr>\<rparr>"
    have o4: "on_vol (prepare_tmp tmp) d3 = (pok, d4)" using v d3 by (simp add: on_vol_eq d4_def)
    have d4: "vol (bus d4) = v" "held d4 = held (listed js url lr d)" using d3 by (simp_all add: d4_def held_def)
    obtain all_ok sd5 d5 where d5: "download_all fp tmp files d4 = (all_ok, sd5, d5)" by (metis prod_cases3)
    define d6 where "d6 = dl_cleanup d5"
    obtain good w where w: "verify_download_integrity js tmp (vol (bus d5)) = (good, w)" by fastforce
    define d7 where "d7 = (show_progress fp 100 d6)\<lparr>bus := (bus d6)\<lparr>vol := w\<rparr>\<rparr>"
    have o7: "on_vol (verify_download_integrity js tmp) (show_progress fp 100 d6) = (good, d7)"
      using w by (simp add: on_vol_eq d7_def d6_def)
    have "held d7 = held (show_progress fp 100 d6)" by (simp add: d7_def held_def)
    then have d7: "vol (bus d7) = w" "held d7 = held d6" by (simp_all add: d7_def)
    have eq: "(ok, sd', e) =
        (if \<not> (\<exists>it \<in> set files. fst it = ''manifest.json'') then (False, sd, d2)
         else if \<not> pok then (False, sd, d4)
         else if \<not> all_ok then (False, sd5, if sd5 then d6 else set_vol (rm_tree tmp) d6)
         else if \<not> good then (False, sd, set_vol (rm_tree tmp) d7) else (True, sd, d7))"
      using assms(1) unfolding fetch_folder_def Let_def d0_def [symmetric] d0 fh prod.case d1_def [symmetric]
        Some option.case fe prod.case
        d2_def [symmetric] d3_def [symmetric] o4 d5 d6_def [symmetric] o7 by simp
    consider "\<not> (\<exists>it \<in> set files. fst it = ''manifest.json'')" | "\<exists>it \<in> set files. fst it = ''manifest.json''" "\<not> pok"
      | "\<exists>it \<in> set files. fst it = ''manifest.json''" "pok" by blast
    then show ?thesis
    proof cases
      case 1
      then show ?thesis using early eq d3 by simp
    next
      case 2
      then show ?thesis using no_tmp [of v] eq v d4 by simp
    next
      case 3
      then show ?thesis
        using eq failed [of d4 files d5] bad [of d4 files sd5 d5 w] verified [of d4 files sd5 d5] d4 v d5 w d7
        by (auto simp: d6_def split: if_splits)
    qed
  qed
qed

section \<open>What a download does to the volume\<close>

lemma transfer_frame: "transfer fp x d = (z, e) \<Longrightarrow> bus e = bus d \<and> http e = http d"
  by (auto simp: transfer_def Let_def)

lemma set_sd_freq_vol: "set_sd_freq f s = (ok, t) \<Longrightarrow> vol t = vol s"
  by (auto simp: set_sd_freq_def pop_clk_def emit_def split: if_splits list.splits)

text \<open>Whatever holds of the first result and is kept by a change of clock and by another attempt
  holds at the end of the retries.\<close>

lemma sd_retry_keeps:
  assumes "sd_retry fp url out r d = (r', e)" and "Q r d"
    and clk: "\<And>d b. Q SD_FAILED d \<Longrightarrow> set_sd_freq (sd_next_lower_freq (s_sd_freq_khz (bus d))) (bus d) = (False, b) \<Longrightarrow>
      Q SD_FAILED (d\<lparr>bus := b\<rparr>)"
    and again: "\<And>d l b r3 d3. Q SD_FAILED d \<Longrightarrow> 0 \<le> l \<Longrightarrow> set_sd_freq l (bus d) = (True, b) \<Longrightarrow>
      download_file_standalone fp url out
        (snd (on_vol (fs_unlink (out @ ''.part'')) (d\<lparr>bus := b\<lparr>s_sd_freq_khz := l\<rparr>\<rparr>))) = (r3, d3) \<Longrightarrow> Q r3 d3"
  shows "Q r' e"
  using assms(1,2) again
proof (induction fp url out r d arbitrary: r' e rule: sd_retry.induct)
  case (1 fp url out r d)
  define l where "l = sd_next_lower_freq (s_sd_freq_khz (bus d))"
  obtain ok b where b: "set_sd_freq l (bus d) = (ok, b)" by fastforce
  define d1 where "d1 = d\<lparr>bus := b\<lparr>s_sd_freq_khz := l\<rparr>\<rparr>"
  define d2 where "d2 = snd (on_vol (fs_unlink (out @ ''.part'')) d1)"
  obtain r3 d3 where d3: "download_file_standalone fp url out d2 = (r3, d3)" by fastforce
  have eq: "(r', e) = (if r \<noteq> SD_FAILED then (r, d) else if l < 0 then (r, d) else if \<not> ok then (r, d\<lparr>bus := b\<rparr>)
      else sd_retry fp url out r3 d3)"
    using 1(2) unfolding sd_retry.simps [of fp url out r d] Let_def l_def [symmetric] b prod.case
      d1_def [symmetric] d2_def [symmetric] d3 by simp
  show ?case
  proof (cases "r = SD_FAILED \<and> \<not> l < 0 \<and> ok")
    case True
    then have "Q r3 d3"
      using 1(4) [of d l b r3 d3] 1(3) b d3 by (simp add: d1_def d2_def)
    moreover have "sd_retry fp url out r3 d3 = (r', e)" using eq True by simp
    ultimately show ?thesis
      using 1(1) [OF _ l_def _ b [symmetric] _ d1_def d2_def d3 [symmetric] refl] 1(4) True by auto
  next
    case False
    then show ?thesis using eq 1(3) clk [of d b] b by (auto simp: l_def split: if_splits)
  qed
qed

context file_area
begin

lemma R_prepare:
  assumes "A p" and "prepare_output p c d = (r, e)"
  shows "R (vol (bus d)) (vol (bus e))"
  using assms(2)
proof (cases rule: prepare_outputE)
  case no_buffers
  then show ?thesis by (simp add: R_refl)
qed (use R_open [OF assms(1), of "vol (bus d)"] R_write [OF assms(1)] in auto)

lemma R_finish:
  assumes "A p" "A q" and "fs_fopen_w p v = (True, vol (bus d))" and "finish_file fp p q n z d = (r, e)"
  shows "R v (vol (bus e))"
proof -
  have c: "R v (fs_fclose p (res_file z) (vol (bus d)))" using R_write [OF assms(1,3)] .
  from assms(4) show ?thesis
  proof (cases rule: finish_fileE)
    case (no_rename w)
    then have "R v w" using R_trans [OF c R_rename [OF assms(1,2)]] by simp
    then show ?thesis using no_rename R_trans R_unlink [OF assms(1)] by simp
  next
    case good
    then show ?thesis using R_trans [OF c R_rename [OF assms(1,2)]] by simp
  qed (use c R_trans R_unlink [OF assms(1)] in auto)
qed

lemma R_download_file:
  assumes "A (out @ ''.part'')" "A out" and "download_file_standalone fp url out d = (r, e)"
  shows "R (vol (bus d)) (vol (bus e))"
  using assms(3)
proof (cases rule: download_fileE)
  case (no_conn h)
  then show ?thesis by (simp add: R_refl)
next
  case (unprepared client x h er)
  from R_prepare [OF assms(1) unprepared(2)] show ?thesis by simp
next
  case (transferred client x h d1 z d2)
  from transferred(2) have "fs_fopen_w (out @ ''.part'') (vol (bus d)) = (True, vol (bus d1))"
    by (cases rule: prepare_outputE) auto
  then have "fs_fopen_w (out @ ''.part'') (vol (bus d)) =
      (True, vol (bus (release client (res_sd_error z \<or> res_net_error z) d2)))"
    using transfer_frame [OF transferred(3)] by simp
  from R_finish [OF assms(1,2) this transferred(4)] show ?thesis .
qed

lemma R_sd_retry:
  assumes "A (out @ ''.part'')" "A out" and "sd_retry fp url out r d = (r', e)"
  shows "R (vol (bus d)) (vol (bus e))"
  using assms(3)
proof (rule sd_retry_keeps [where Q = "\<lambda>_ x. R (vol (bus d)) (vol (bus x))"])
  fix x l b r3 d3
  assume x: "R (vol (bus d)) (vol (bus x))" and b: "set_sd_freq l (bus x) = (True, b)"
    and d: "download_file_standalone fp url out
        (snd (on_vol (fs_unlink (out @ ''.part'')) (x\<lparr>bus := b\<lparr>s_sd_freq_khz := l\<rparr>\<rparr>))) = (r3, d3)"
  have "vol (bus (snd (on_vol (fs_unlink (out @ ''.part'')) (x\<lparr>bus := b\<lparr>s_sd_freq_khz := l\<rparr>\<rparr>)))) =
      snd (fs_unlink (out @ ''.part'') (vol (bus x)))"
    using set_sd_freq_vol [OF b] by (simp add: on_vol_def split: prod.splits)
  then show "R (vol (bus d)) (vol (bus d3))"
    using R_download_file [OF assms(1,2) d] R_unlink [OF assms(1), of "vol (bus x)"] x R_trans by metis
qed (simp_all add: R_refl set_sd_freq_vol)

lemma R_download_all:
  "A tmp \<Longrightarrow> download_all fp tmp fs d = (ok, sd, e) \<Longrightarrow> R (vol (bus d)) (vol (bus e))"
proof (induction fp tmp fs d arbitrary: ok sd e rule: download_all.induct)
  case (1 fp tmp d)
  then show ?case by (simp add: R_refl)
next
  case (2 fp tmp name url rest d)
  define d1 where "d1 = d\<lparr>prog := update_led_progress fp (prog d)\<rparr>"
  define out where "out = tmp @ ''/'' @ name"
  obtain r2 d2 where d2: "download_file_standalone fp url out d1 = (r2, d2)" by fastforce
  obtain r3 d3 where d3: "sd_retry fp url out r2 d2 = (r3, d3)" by fastforce
  define d4 where "d4 = snd (on_vol (fs_stat out) d3)"
  have A: "A out" "A (out @ ''.part'')" using A_child [OF 2(2)] by (simp_all add: out_def)
  have "R (vol (bus d)) (vol (bus d2))" using R_download_file [OF A(2,1) d2] by (simp add: d1_def)
  then have R3: "R (vol (bus d)) (vol (bus d3))" using R_trans R_sd_retry [OF A(2,1) d3] by blast
  have "vol (bus d4) = snd (fs_stat out (vol (bus d3)))" by (simp add: d4_def on_vol_def split: prod.splits)
  then have R4: "R (vol (bus d)) (vol (bus d4))" using R_trans [OF R3 R_stat] by simp
  have eq: "(ok, sd, e) = (if r3 \<noteq> DL_OK then (False, r3 = SD_FAILED, d3) else download_all fp tmp rest d4)"
    using 2(3) unfolding download_all.simps Let_def d1_def [symmetric] out_def [symmetric] d2 prod.case d3
      d4_def [symmetric] by simp
  show ?case
  proof (cases "r3 = DL_OK")
    case True
    then have "download_all fp tmp rest d4 = (ok, sd, e)" using eq by simp
    then show ?thesis
      using 2(1) [OF d1_def out_def d2 [symmetric] refl d3 [symmetric] refl] True 2(2) R_trans [OF R4]
      unfolding d4_def by blast
  next
    case False
    then show ?thesis using eq R3 by simp
  qed
qed

lemma R_prepare_tmp:
  assumes "A tmp"
  shows "R v (snd (prepare_tmp tmp v))"
proof -
  obtain st v1 where st: "fs_stat tmp v = (st, v1)" by fastforce
  have "R v v1" using R_stat [of v tmp] st by simp
  moreover have "R v1 (if st \<noteq> None then rm_tree tmp v1 else v1)" using R_refl R_rm_tree [OF assms] by simp
  ultimately have "R v (snd (fs_mkdir tmp (if st \<noteq> None then rm_tree tmp v1 else v1)))"
    using R_trans R_mkdir [OF assms] by blast
  then show ?thesis unfolding prepare_tmp_def st prod.case .
qed

lemma R_check_entries: "R v (snd (fold (check_entry js folder) items (b, v)))"
proof (induction items arbitrary: b v)
  case (Cons x xs)
  obtain c w where w: "check_entry js folder x (b, v) = (c, w)" by fastforce
  have "w = v \<or> (\<exists>p. w = snd (fs_stat p v))"
    using w by (auto simp: check_entry_def file_size_bytes_def split: option.splits prod.splits; metis snd_conv)
  then have "R v w" using R_refl R_stat by auto
  then show ?case using Cons [of w c] R_trans w by simp
qed (simp add: R_refl)

lemma R_verify: "R v (snd (verify_download_integrity js folder v))"
proof -
  obtain c w where c: "read_text_file (folder @ ''/manifest.json'') v = (c, w)" by fastforce
  then have "R v w" using R_read [of v "folder @ ''/manifest.json''"] by simp
  moreover have "R w (snd (fold (check_entry js folder) items (True, w)))" for items by (rule R_check_entries)
  ultimately show ?thesis using R_trans c
    by (auto simp: verify_download_integrity_def split: option.splits)
qed

lemma R_fetch_folder:
  assumes "A tmp" and "fetch_folder fp js lr url tmp sd d = (ok, sd', e)"
  shows "R (vol (bus d)) (vol (bus e))"
proof -
  note pre = R_prepare_tmp [OF assms(1), of "vol (bus d)"] and ver = R_verify [of _ js tmp]
  have all: "R (vol (bus d)) (vol (bus y))"
    if "prepare_tmp tmp (vol (bus d)) = (True, vol (bus x))" "download_all fp tmp files x = (a, b, y)" for x y files a b
    using pre that(1) R_trans R_download_all [OF assms(1) that(2)] by simp
  from assms(2) show ?thesis
  proof (cases rule: fetch_folderE)
    case early
    then show ?thesis by (simp add: R_refl)
  next
    case (no_tmp v)
    then show ?thesis using pre by simp
  next
    case (failed files d4 d5)
    then show ?thesis using all [OF failed(2,4)] R_trans R_rm_tree [OF assms(1)] by auto
  next
    case (bad files d4 sd5 d5 v)
    then show ?thesis using all [OF bad(2,4)] R_trans R_rm_tree [OF assms(1)] ver [of "vol (bus d5)"] by (metis snd_conv)
  next
    case (verified files d4 sd5 d5)
    then show ?thesis using all [OF verified(2,4)] R_trans ver [of "vol (bus d5)"] by (metis snd_conv)
  qed
qed

lemma R_swap_in:
  assumes "A tmp" "A final"
  shows "R v (snd (swap_in tmp final v))"
proof -
  obtain st v1 where st: "fs_stat final v = (st, v1)" by fastforce
  define v2 where "v2 = (if st \<noteq> None then rm_tree final v1 else v1)"
  obtain ok v3 where v3: "fs_rename tmp final v2 = (ok, v3)" by fastforce
  have "R v v1" using R_stat [of v final] st by simp
  moreover have "R v1 v2" using R_refl R_rm_tree [OF assms(2)] by (simp add: v2_def)
  moreover have "R v2 v3" using R_rename [OF assms] v3 by (metis snd_conv)
  ultimately have "R v v3" using R_trans by blast
  then show ?thesis
    using R_trans R_rm_tree [OF assms(1)] unfolding swap_in_def Let_def st prod.case v2_def [symmetric] v3 by simp
qed

lemma R_write_ok: "A final \<Longrightarrow> R v (write_ok final v)"
  using R_open [of "final @ ''/.ok''" v] R_write [of "final @ ''/.ok''" v] A_child [of final]
  by (auto simp: write_ok_def split: prod.splits)

lemma R_folder:
  assumes "A (''/sdcard/'' @ folder @ ''.tmp'')" "A (''/sdcard/'' @ folder)"
    and "download_simi_folder fp js lr folder sd d = (ok, sd', e)"
  shows "R (vol (bus d)) (vol (bus e))"
proof -
  let ?f = "''/sdcard/'' @ folder"
  obtain f sd1 d1 where f: "fetch_folder fp js lr (list_url lr folder) (?f @ ''.tmp'') sd d = (f, sd1, d1)" by (metis prod_cases3)
  have tmp: "A (?f @ ''.tmp'')" using assms(1) by simp
  have R1: "R (vol (bus d)) (vol (bus d1))" using R_fetch_folder [OF tmp f] .
  obtain w v where w: "swap_in (?f @ ''.tmp'') ?f (vol (bus d1)) = (w, v)" by fastforce
  have R2: "R (vol (bus d)) v" using R_trans [OF R1 R_swap_in [OF tmp assms(2)]] w by (metis snd_conv)
  have "vol (bus e) \<in> {vol (bus d1), v, write_ok ?f v}"
    using assms(3) unfolding download_simi_folder_def Let_def f prod.case on_vol_eq w
    by (auto split: if_splits)
  then show ?thesis using R1 R2 R_trans [OF R2 R_write_ok [OF assms(2)]] by auto
qed

end

end
