(* ===== verification/DownloadCorrect.thy ===== *)
theory DownloadCorrect
  imports Download
begin

text \<open>
  Properties of the folder download: what it does to the SD card, which resources it gives back,
  what a successful result means, how the SD-clock retries end, and the percentage shown.
\<close>

section \<open>Resources\<close>

lemma http_attempt_session:
  assumes "pool_ok s" and "http_attempt n url s = (r, again, t)"
  shows "set (sessions t) \<subseteq> set (sessions s)" and "r = Some (h, x) \<Longrightarrow> x \<in> set (sessions s)"
proof -
  obtain c s1 where g: "get_http_client url s = (c, s1)" by fastforce
  note gok = get_http_client_ok [OF assms(1) g]
  have "set (sessions t) \<subseteq> set (sessions s) \<and> (r = Some (h, x) \<longrightarrow> x \<in> set (sessions s))"
  proof (cases c)
    case None
    then show ?thesis using assms(2) g gok by (auto simp: http_attempt_def)
  next
    case (Some k)
    obtain y s2 where o: "client_open k s1 = (y, s2)" by fastforce
    have p1: "pool_ok s1" "s_http_client s1 = Some k" "sessions s1 = sessions s" using gok Some by auto
    note op = client_open_ok [OF p1(1,2) o]
    have y: "ses_err y = ESP_OK \<Longrightarrow> y \<in> set (sessions s)"
      using op(4) p1(3) by (auto simp: no_session_def split: list.splits)
    have s2: "set (sessions s2) \<subseteq> set (sessions s)"
      using o p1(3) by (auto simp: client_open_def Let_def client_use_def split: list.splits if_splits)
    have u: "client_use k s2 = s2" using op(1,2) by (simp add: client_use_live pool_ok_def)
    show ?thesis using assms(2) g Some o op y s2 release_ok(3) [OF op(1,2), of True]
      by (auto simp: http_attempt_def client_calls Let_def u split: if_splits)
  qed
  then show "set (sessions t) \<subseteq> set (sessions s)" "r = Some (h, x) \<Longrightarrow> x \<in> set (sessions s)" by auto
qed

lemma http_connect_session:
  assumes "pool_ok s" and "http_connect url s = (Some (h, x), t)"
  shows "x \<in> set (sessions s)"
proof -
  obtain r1 again s1 where a: "http_attempt 0 url s = (r1, again, s1)" by (metis prod_cases3)
  obtain r2 ag2 s2 where b: "http_attempt 1 url s1 = (r2, ag2, s2)" by (metis prod_cases3)
  note a1 = http_attempt_session [OF assms(1) a]
  note b1 = http_attempt_session [OF http_attempt_ok(1) [OF assms(1) a] b]
  have "(Some (h, x), t) = (if again then (r2, s2) else (r1, s1))"
    using assms(2) unfolding http_connect_def a prod.case b by simp
  then show ?thesis using a1 b1(2) [of h x] by (auto split: if_splits)
qed

text \<open>A file download leaves the pool in order: every handle it got is pooled or given back.\<close>

lemma download_file_pool:
  assumes "pool_ok (http d)" and "download_file_standalone fp url out d = (r, e)"
  shows "pool_ok (http e)"
  using assms(2)
proof (cases rule: download_fileE)
  case (no_conn h)
  then show ?thesis using http_connect_ok(1) [OF assms(1)] by simp
next
  case (unprepared client x h er)
  note c = http_connect_ok [OF assms(1) unprepared(1)]
  have "http e = release_http_client client True h"
    using unprepared(2) by (cases rule: prepare_outputE) (simp_all add: release_def)
  then show ?thesis using release_ok(1) [OF c(1)] c(2) by simp
next
  case (transferred client x h d1 z d2)
  note c = http_connect_ok [OF assms(1) transferred(1)]
  have "http d1 = h" using transferred(2) by (cases rule: prepare_outputE) simp_all
  moreover have "client_read client h = h"
    using c(1) c(2) by (simp add: client_read_def client_use_live pool_ok_def)
  ultimately have h2: "http d2 = h" using transfer_frame [OF transferred(3)] by simp
  have "http e = release_http_client client (res_sd_error z \<or> res_net_error z) (http d2)"
    using transferred(4) by (cases rule: finish_fileE) (simp_all add: release_def)
  then show ?thesis using release_ok(1) [OF c(1)] c(2) h2 by simp
qed

lemma set_sd_freq_http: "http (d\<lparr>bus := b\<rparr>) = http d" "http (snd (on_vol g d)) = http d"
  by (simp_all add: on_vol_eq)

lemma sd_retry_pool:
  assumes "pool_ok (http d)" and "sd_retry fp url out r d = (r', e)"
  shows "pool_ok (http e)"
  using assms(2)
proof (rule sd_retry_keeps [where Q = "\<lambda>_ x. pool_ok (http x)"])
  fix x l b r3 d3
  assume "pool_ok (http x)" and "download_file_standalone fp url out
      (snd (on_vol (fs_unlink (out @ ''.part'')) (x\<lparr>bus := b\<lparr>s_sd_freq_khz := l\<rparr>\<rparr>))) = (r3, d3)"
  then show "pool_ok (http d3)" by (elim download_file_pool [rotated]) (simp add: set_sd_freq_http)
qed (use assms(1) in simp_all)

lemma download_all_pool:
  "pool_ok (http d) \<Longrightarrow> download_all fp tmp fs d = (ok, sd, e) \<Longrightarrow> pool_ok (http e)"
proof (induction fp tmp fs d arbitrary: ok sd e rule: download_all.induct)
  case (2 fp tmp name url rest d)
  define d1 where "d1 = d\<lparr>prog := update_led_progress fp (prog d)\<rparr>"
  define out where "out = tmp @ ''/'' @ name"
  obtain r2 d2 where d2: "download_file_standalone fp url out d1 = (r2, d2)" by fastforce
  obtain r3 d3 where d3: "sd_retry fp url out r2 d2 = (r3, d3)" by fastforce
  define d4 where "d4 = snd (on_vol (fs_stat out) d3)"
  have "pool_ok (http d1)" using 2(2) by (simp add: d1_def)
  then have p3: "pool_ok (http d3)" using sd_retry_pool [OF download_file_pool [OF _ d2] d3] by simp
  then have p4: "pool_ok (http d4)" by (simp add: d4_def set_sd_freq_http)
  have eq: "(ok, sd, e) = (if r3 \<noteq> DL_OK then (False, r3 = SD_FAILED, d3) else download_all fp tmp rest d4)"
    using 2(3) unfolding download_all.simps Let_def d1_def [symmetric] out_def [symmetric] d2 prod.case d3
      d4_def [symmetric] by simp
  show ?case
  proof (cases "r3 = DL_OK")
    case True
    then have "download_all fp tmp rest d4 = (ok, sd, e)" using eq by simp
    then show ?thesis
      using 2(1) [OF d1_def out_def d2 [symmetric] refl d3 [symmetric] refl] True p4 unfolding d4_def by blast
  next
    case False
    then show ?thesis using eq p3 by simp
  qed
qed simp

text \<open>The buffers and semaphores that are live are the ones the pointers know, and there is no
  semaphore without its task when the next file starts.\<close>

definition counts_ok :: "dl \<Rightarrow> bool" where
  "counts_ok d \<longleftrightarrow> psram_live d = of_bool (buf0 d) + of_bool (buf1 d) \<and> buf0 d = buf1 d \<and>
     sems_live d = of_bool (sem_ready d) + of_bool (sem_done d)"

definition task_fresh :: "dl \<Rightarrow> bool" where
  "task_fresh d \<longleftrightarrow> s_sd_task_handle d \<or> \<not> sem_ready d \<and> \<not> sem_done d"

lemma counts_frame [simp]:
  "counts_ok (d\<lparr>bus := b\<rparr>) = counts_ok d" "counts_ok (d\<lparr>http := h\<rparr>) = counts_ok d"
  "counts_ok (d\<lparr>prog := p\<rparr>) = counts_ok d" "counts_ok (d\<lparr>fwrites := w\<rparr>) = counts_ok d"
  "task_fresh (d\<lparr>bus := b\<rparr>) = task_fresh d" "task_fresh (d\<lparr>http := h\<rparr>) = task_fresh d"
  "task_fresh (d\<lparr>prog := p\<rparr>) = task_fresh d" "task_fresh (d\<lparr>fwrites := w\<rparr>) = task_fresh d"
  by (simp_all add: counts_ok_def task_fresh_def)

lemma counts_calls [simp]:
  "counts_ok (snd (on_vol f d)) = counts_ok d" "counts_ok (set_vol g d) = counts_ok d"
  "counts_ok (release c b d) = counts_ok d" "task_fresh (snd (on_vol f d)) = task_fresh d"
  "task_fresh (set_vol g d) = task_fresh d" "task_fresh (release c b d) = task_fresh d"
  by (simp_all add: on_vol_eq set_vol_def release_def)

lemma alloc_halves_counts:
  "counts_ok d \<Longrightarrow> \<not> buf0 d \<Longrightarrow> counts_ok (alloc_halves ns d) \<and> task_fresh (alloc_halves ns d) = task_fresh d"
proof (induction ns d rule: alloc_halves.induct)
  case (2 n ns d)
  obtain a m1 where a: "pop_bool (mallocs d) = (a, m1)" by fastforce
  obtain b m2 where b: "pop_bool m1 = (b, m2)" by fastforce
  define d1 where "d1 = d\<lparr>mallocs := m2, buf0 := a, buf1 := b, psram_live := psram_live d + of_bool a + of_bool b\<rparr>"
  have d1: "psram_live d1 = of_bool a + of_bool b" "buf0 d1 = a" "buf1 d1 = b" "task_fresh d1 = task_fresh d"
    "sems_live d1 = of_bool (sem_ready d1) + of_bool (sem_done d1)"
    using 2(2,3) by (simp_all add: d1_def counts_ok_def task_fresh_def)
  have eq: "alloc_halves (n # ns) d = (if a \<and> b then d1\<lparr>s_buf_capacity := n\<rparr> else alloc_halves ns (free_both d1))"
    by (simp add: a b d1_def Let_def)
  show ?case
  proof (cases "a \<and> b")
    case True
    then show ?thesis using eq d1 by (simp add: counts_ok_def task_fresh_def)
  next
    case False
    have "counts_ok (free_both d1)" "\<not> buf0 (free_both d1)" "task_fresh (free_both d1) = task_fresh d"
      using d1 by (simp_all add: free_both_def counts_ok_def task_fresh_def)
    then show ?thesis using 2(1) [OF a [symmetric] b [symmetric] d1_def False] eq False by simp
  qed
qed simp

lemma ensure_counts:
  "counts_ok d \<Longrightarrow> counts_ok (ensure_pingpong_buffers d) \<and> task_fresh (ensure_pingpong_buffers d) = task_fresh d"
  using alloc_halves_counts [of d try_halves] by (simp add: ensure_pingpong_buffers_def)

lemma start_counts:
  assumes "counts_ok d" "\<not> s_sd_task_handle d" "task_fresh d" "start_sd_writer_task d = (ok, e)"
  shows "counts_ok e \<and> (ok \<longrightarrow> task_fresh e)"
  using assms
  by (auto simp: start_sd_writer_task_def Let_def counts_ok_def task_fresh_def split: prod.splits if_splits)

lemma prepare_counts:
  assumes "counts_ok d" "task_fresh d" "prepare_output p c d = (r, e)"
  shows "counts_ok e \<and> (r = Some OTHER_FAILED \<or> task_fresh e)"
proof -
  define d1 where "d1 = ensure_pingpong_buffers d"
  have d1: "counts_ok d1" "task_fresh d1" using ensure_counts assms(1,2) by (simp_all add: d1_def)
  obtain f d2 where o: "on_vol (fs_fopen_w p) d1 = (f, d2)" by fastforce
  have "d2 = snd (on_vol (fs_fopen_w p) d1)" using o by simp
  then have d2: "counts_ok d2" "task_fresh d2" using d1 by simp_all
  obtain ok d3 where st: "start_sd_writer_task d2 = (ok, d3)" by fastforce
  have eq: "(r, e) = (if \<not> buf0 d1 \<or> \<not> buf1 d1 then (Some OTHER_FAILED, release c True d1)
      else if \<not> f then (Some SD_FAILED, release c True d2)
      else if s_sd_task_handle d2 then (None, d2)
      else if ok then (None, d3)
      else (Some OTHER_FAILED, release c True (set_vol (fs_fclose p []) d3)))"
    using assms(3) unfolding prepare_output_def Let_def d1_def [symmetric] o prod.case st by simp
  show ?thesis
    using eq d1 d2 start_counts [OF d2(1) _ d2(2) st] by (auto split: if_splits)
qed

lemma finish_counts:
  assumes "finish_file fp p q n z d = (r, e)"
  shows "counts_ok e = counts_ok d \<and> task_fresh e = task_fresh d"
proof -
  define d1 where "d1 = set_vol (fs_fclose p (res_file z)) d"
  obtain ok d2 where o: "on_vol (fs_rename p q) d1 = (ok, d2)" by fastforce
  have "d2 = snd (on_vol (fs_rename p q) d1)" using o by simp
  then have d: "counts_ok d1 = counts_ok d" "task_fresh d1 = task_fresh d" "counts_ok d2 = counts_ok d"
    "task_fresh d2 = task_fresh d"
    by (simp_all add: d1_def)
  show ?thesis
    using assms d unfolding finish_file_def Let_def d1_def [symmetric] o prod.case by (auto split: if_splits)
qed

lemma download_file_counts:
  assumes "counts_ok d" "task_fresh d" "download_file_standalone fp url out d = (r, e)"
  shows "counts_ok e \<and> (r = OTHER_FAILED \<or> task_fresh e)"
  using assms(3)
proof (cases rule: download_fileE)
  case (no_conn h)
  then show ?thesis using assms(1,2) by simp
next
  case (unprepared client x h er)
  then show ?thesis using prepare_counts [OF _ _ unprepared(2)] assms(1,2) by simp
next
  case (transferred client x h d1 z d2)
  have "counts_ok d1 \<and> task_fresh d1" using prepare_counts [OF _ _ transferred(2)] assms(1,2) by simp
  then have "counts_ok d2 \<and> task_fresh d2" using transferred(3) by (auto simp: transfer_def Let_def)
  then show ?thesis using finish_counts [OF transferred(4)] by simp
qed

lemma sd_retry_counts:
  assumes "counts_ok d" "r = OTHER_FAILED \<or> task_fresh d" "sd_retry fp url out r d = (r', e)"
  shows "counts_ok e \<and> (r' = OTHER_FAILED \<or> task_fresh e)"
  using assms(3)
proof (rule sd_retry_keeps [where Q = "\<lambda>r x. counts_ok x \<and> (r = OTHER_FAILED \<or> task_fresh x)"])
  fix x l b r3 d3
  assume "counts_ok x \<and> (SD_FAILED = OTHER_FAILED \<or> task_fresh x)" and d: "download_file_standalone fp url out
      (snd (on_vol (fs_unlink (out @ ''.part'')) (x\<lparr>bus := b\<lparr>s_sd_freq_khz := l\<rparr>\<rparr>))) = (r3, d3)"
  then show "counts_ok d3 \<and> (r3 = OTHER_FAILED \<or> task_fresh d3)" using download_file_counts [OF _ _ d] by simp
qed (use assms(1,2) in simp_all)

lemma download_all_counts:
  "counts_ok d \<Longrightarrow> task_fresh d \<Longrightarrow> download_all fp tmp fs d = (ok, sd, e) \<Longrightarrow> counts_ok e"
proof (induction fp tmp fs d arbitrary: ok sd e rule: download_all.induct)
  case (2 fp tmp name url rest d)
  define d1 where "d1 = d\<lparr>prog := update_led_progress fp (prog d)\<rparr>"
  define out where "out = tmp @ ''/'' @ name"
  obtain r2 d2 where d2: "download_file_standalone fp url out d1 = (r2, d2)" by fastforce
  obtain r3 d3 where d3: "sd_retry fp url out r2 d2 = (r3, d3)" by fastforce
  define d4 where "d4 = snd (on_vol (fs_stat out) d3)"
  have "counts_ok d1" "task_fresh d1" using 2(2,3) by (simp_all add: d1_def)
  then have p3: "counts_ok d3 \<and> (r3 = OTHER_FAILED \<or> task_fresh d3)"
    using sd_retry_counts [OF _ _ d3] download_file_counts [OF _ _ d2] by blast
  have eq: "(ok, sd, e) = (if r3 \<noteq> DL_OK then (False, r3 = SD_FAILED, d3) else download_all fp tmp rest d4)"
    using 2(4) unfolding download_all.simps Let_def d1_def [symmetric] out_def [symmetric] d2 prod.case d3
      d4_def [symmetric] by simp
  show ?case
  proof (cases "r3 = DL_OK")
    case True
    then have "download_all fp tmp rest d4 = (ok, sd, e)" "counts_ok d4" "task_fresh d4"
      using eq p3 by (simp_all add: d4_def)
    then show ?thesis
      using 2(1) [OF d1_def out_def d2 [symmetric] refl d3 [symmetric] refl] True unfolding d4_def by blast
  next
    case False
    then show ?thesis using eq p3 by simp
  qed
qed simp

text \<open>The list request leaves the pool as it found it.\<close>

lemma fetch_list_pool:
  assumes "pool_ok h"
  shows "pool_ok (snd (fetch_list js url lr h)) \<and> live (snd (fetch_list js url lr h)) = live h"
proof -
  obtain c h1 where i: "client_init url h = (c, h1)" by fastforce
  note ci = client_init_cases [OF i]
  show ?thesis
  proof (cases c)
    case None
    then show ?thesis using i ci assms by (auto simp: fetch_list_def pool_ok_def split: option.splits)
  next
    case (Some k)
    define h3 where "h3 = client_cleanup k (client_perform k h1)"
    have "k \<in> set (live h1)" using ci Some by simp
    then have "live h3 = live h" "misuse h3 = misuse h" "s_http_client h3 = s_http_client h"
      using ci Some by (simp_all add: h3_def client_cleanup_def client_perform_def client_use_def)
    moreover have "snd (fetch_list js url lr h) = h3"
      by (simp add: fetch_list_def i Some h3_def Let_def split: option.splits)
    ultimately show ?thesis using assms by (simp add: pool_ok_def)
  qed
qed

definition idle_res :: "http_st \<times> bool \<times> bool \<times> bool \<times> bool \<times> bool \<times> int \<times> int \<Rightarrow> bool" where
  "idle_res = (\<lambda>(h, r). pool_ok h \<and> live h = [] \<and> r = (False, False, False, False, False, 0, 0))"

lemma idle_cleanup: "pool_ok (http d) \<Longrightarrow> counts_ok d \<Longrightarrow> idle_res (held (dl_cleanup d))"
  using cleanup_pool_ok [of "http d"] by (simp add: held_cleanup idle_res_def counts_ok_def)

lemma fetch_folder_idle:
  assumes "idle_res (held d)" and "fetch_folder fp js lr url tmp sd d = (ok, sd', e)"
  shows "idle_res (held e)"
proof -
  have idle: "idle_res (held (listed js url lr d))"
    using assms(1) fetch_list_pool [of "http d" js url lr] by (simp add: idle_res_def held_def listed_def)
  have p5: "pool_ok (http d5) \<and> counts_ok d5"
    if "held d4 = held (listed js url lr d)" "download_all fp tmp files d4 = (a, b, d5)" for d4 files a b d5
  proof -
    have "pool_ok (http d4) \<and> counts_ok d4 \<and> task_fresh d4"
      using idle unfolding that(1) [symmetric] by (simp add: idle_res_def held_def counts_ok_def task_fresh_def)
    then show ?thesis using download_all_pool [OF _ that(2)] download_all_counts [OF _ _ that(2)] by blast
  qed
  from assms(2) show ?thesis
    by (cases rule: fetch_folderE) (use idle idle_cleanup p5 in \<open>simp_all\<close>)
qed

section \<open>Contents\<close>

lemma tmp_not_final: "under (f @ ''.tmp'') q \<Longrightarrow> under f q \<Longrightarrow> False"
  by (auto simp: under_def inside_def prefix_def)

lemma part_not_out: "\<not> under out (out @ ''.part'')"
  by (auto simp: under_def inside_def prefix_def)

lemma stat_some: "fs_stat p v = (Some n, w) \<Longrightarrow> lookup v p = Some n"
  by (auto simp: fs_stat_def split: prod.splits if_splits)

text \<open>An entry is good when its file exists with the size listed.\<close>

definition entry_good :: "'j json_api \<Rightarrow> string \<Rightarrow> fs \<Rightarrow> 'j \<Rightarrow> bool" where
  "entry_good js folder v item =
     (case entry_of js item of
        None \<Rightarrow> True
      | Some (nm, sz) \<Rightarrow>
          (case lookup v (folder @ ''/'' @ nm) of None \<Rightarrow> False | Some n \<Rightarrow> int (node_size n) = sz))"

definition same_files :: "fs \<Rightarrow> fs \<Rightarrow> bool" where
  "same_files v w \<longleftrightarrow> (\<forall>q. lookup w q = lookup v q)"

lemma entry_good_same: "same_files v w \<Longrightarrow> entry_good js folder w item = entry_good js folder v item"
  unfolding entry_good_def same_files_def by presburger

lemma check_entry_sound:
  assumes "check_entry js folder item (ok, v) = (ok', w)"
  shows "same_files v w" and "ok' \<Longrightarrow> ok \<and> entry_good js folder v item"
    and "fs_io v = [] \<Longrightarrow> w = v \<and> (ok' \<longleftrightarrow> ok \<and> entry_good js folder v item)"
proof -
  have "same_files v w \<and> (ok' \<longrightarrow> ok \<and> entry_good js folder v item) \<and>
    (fs_io v = [] \<longrightarrow> w = v \<and> (ok' \<longleftrightarrow> ok \<and> entry_good js folder v item))"
  proof (cases "entry_of js item")
    case None
    then show ?thesis using assms by (simp add: check_entry_def entry_good_def same_files_def)
  next
    case (Some e)
    obtain nm sz where e: "e = (nm, sz)" by fastforce
    obtain n v1 where st: "fs_stat (folder @ ''/'' @ nm) v = (n, v1)" by fastforce
    have sf: "same_files v v1" using stat_lookup [of "folder @ ''/'' @ nm" v] st by (simp add: same_files_def)
    have q: "fs_io v = [] \<Longrightarrow> v1 = v \<and> n = lookup v (folder @ ''/'' @ nm)" using st by (auto simp: fs_stat_def)
    have r: "w = v1" "ok' = (case n of None \<Rightarrow> False | Some x \<Rightarrow> int (node_size x) = sz \<and> ok)"
      using assms unfolding check_entry_def Some e option.case prod.case file_size_bytes_def snd_conv st
      by (simp_all split: option.splits if_splits)
    have eg: "entry_good js folder v item =
        (case lookup v (folder @ ''/'' @ nm) of None \<Rightarrow> False | Some x \<Rightarrow> int (node_size x) = sz)"
      unfolding entry_good_def Some e by simp
    show ?thesis
    proof (intro conjI impI)
      show "same_files v w" using sf r(1) by simp
      assume ok: ok'
      then obtain x where x: "n = Some x" using r(2) by (cases n) simp_all
      then have "lookup v (folder @ ''/'' @ nm) = Some x" using stat_some st by metis
      then show "ok" "entry_good js folder v item" using ok r(2) x eg by simp_all
    next
      assume "fs_io v = []"
      then show "w = v" "ok' \<longleftrightarrow> ok \<and> entry_good js folder v item"
        using q r eg by (simp_all split: option.splits) blast
    qed
  qed
  then show "same_files v w" "ok' \<Longrightarrow> ok \<and> entry_good js folder v item"
    "fs_io v = [] \<Longrightarrow> w = v \<and> (ok' \<longleftrightarrow> ok \<and> entry_good js folder v item)" by blast+
qed

lemma check_entries_sound:
  "fold (check_entry js folder) items (ok, v) = (ok', w) \<Longrightarrow>
     same_files v w \<and> (ok' \<longrightarrow> ok \<and> (\<forall>item \<in> set items. entry_good js folder v item)) \<and>
     (fs_io v = [] \<longrightarrow> w = v \<and> (ok' \<longleftrightarrow> ok \<and> (\<forall>item \<in> set items. entry_good js folder v item)))"
proof (induction items arbitrary: ok v)
  case (Cons x xs)
  obtain c u where c: "check_entry js folder x (ok, v) = (c, u)" by fastforce
  note s = check_entry_sound [OF c]
  have "fold (check_entry js folder) xs (c, u) = (ok', w)" using Cons.prems c by simp
  note IH = Cons.IH [OF this]
  have eg: "(\<forall>item \<in> set xs. entry_good js folder u item) = (\<forall>item \<in> set xs. entry_good js folder v item)"
    by (simp add: entry_good_same [OF s(1)])
  have "same_files v w" using IH s(1) by (simp add: same_files_def)
  moreover have "ok' \<Longrightarrow> ok \<and> (\<forall>item \<in> set (x # xs). entry_good js folder v item)"
    using IH s(2) unfolding eg set_ConsD by simp
  moreover have "fs_io v = [] \<Longrightarrow> w = v \<and> (ok' \<longleftrightarrow> ok \<and> (\<forall>item \<in> set (x # xs). entry_good js folder v item))"
    using IH s(3) unfolding eg by (metis list.set_intros(1,2) set_ConsD)
  ultimately show ?case by blast
qed (simp add: same_files_def)

text \<open>The entries of the manifest of a folder.\<close>

definition manifest_items :: "'j json_api \<Rightarrow> string \<Rightarrow> fs \<Rightarrow> 'j list option" where
  "manifest_items js folder v =
     (case lookup v (folder @ ''/manifest.json'') of
        Some (FileN bytes) \<Rightarrow>
          Option.bind (Option.bind (cJSON_Parse js (cstr (map (\<lambda>b. char_of (unat b)) bytes)))
            (\<lambda>doc. json_get js doc ''files'')) (json_array js)
      | _ \<Rightarrow> None)"

lemma read_text_sound:
  assumes "read_text_file p v = (c, w)"
  shows "same_files v w" and "c = Some bs \<Longrightarrow> lookup v p = Some (FileN bs)"
    and "fs_io v = [] \<Longrightarrow> w = v \<and> c = (case lookup v p of Some (FileN bs) \<Rightarrow> Some bs | _ \<Rightarrow> None)"
proof -
  obtain a s1 where n: "next_io v = (a, s1)" by fastforce
  obtain b s2 where m: "next_io s1 = (b, s2)" by fastforce
  show "same_files v w" using read_lookup [of p v] assms by (simp add: same_files_def)
  show "c = Some bs \<Longrightarrow> lookup v p = Some (FileN bs)"
    using assms n m
    by (auto simp: read_text_file_def Let_def split: if_splits option.splits node.splits io.splits)
  show "fs_io v = [] \<Longrightarrow> w = v \<and> c = (case lookup v p of Some (FileN bs) \<Rightarrow> Some bs | _ \<Rightarrow> None)"
    using assms by (auto simp: read_text_file_def Let_def split: option.splits node.splits)
qed

lemma verify_sound:
  assumes "verify_download_integrity js folder v = (ok, w)"
  shows "same_files v w"
    and "ok \<Longrightarrow> \<exists>items. manifest_items js folder v = Some items \<and> (\<forall>item \<in> set items. entry_good js folder v item)"
    and "fs_io v = [] \<Longrightarrow> w = v \<and>
      (ok \<longleftrightarrow> (\<exists>items. manifest_items js folder v = Some items \<and> (\<forall>item \<in> set items. entry_good js folder v item)))"
proof -
  obtain c v1 where c: "read_text_file (folder @ ''/manifest.json'') v = (c, v1)" by fastforce
  note rd = read_text_sound [OF c]
  let ?good = "\<exists>items. manifest_items js folder v = Some items \<and> (\<forall>item \<in> set items. entry_good js folder v item)"
  have "same_files v w \<and> (ok \<longrightarrow> ?good) \<and> (fs_io v = [] \<longrightarrow> w = v \<and> (ok \<longleftrightarrow> ?good))"
  proof (cases c)
    case None
    then show ?thesis using assms c rd
      by (auto simp: verify_download_integrity_def manifest_items_def split: option.splits node.splits)
  next
    case (Some bytes)
    define its where "its = Option.bind (Option.bind (cJSON_Parse js (cstr (map (\<lambda>b. char_of (unat b)) bytes)))
            (\<lambda>doc. json_get js doc ''files'')) (json_array js)"
    have mi: "manifest_items js folder v = its"
      using rd(2) [OF Some] by (simp add: manifest_items_def its_def)
    show ?thesis
    proof (cases its)
      case None
      then have "w = v1 \<and> \<not> ok"
        using assms c Some by (auto simp: verify_download_integrity_def its_def split: option.splits bind_splits)
      then show ?thesis using rd(1,3) mi None by simp
    next
      case (Some items)
      then have "fold (check_entry js folder) items (True, v1) = (ok, w)"
        using assms c \<open>c = Some bytes\<close>
        by (auto simp: verify_download_integrity_def its_def split: option.splits bind_splits)
      from check_entries_sound [OF this] show ?thesis
        using rd mi Some entry_good_same [OF rd(1), of js folder] unfolding same_files_def by auto
    qed
  qed
  then show "same_files v w" "ok \<Longrightarrow> ?good" "fs_io v = [] \<Longrightarrow> w = v \<and> (ok \<longleftrightarrow> ?good)" by blast+
qed

section \<open>A file that was downloaded\<close>

lemma fopen_io: "fs_io s = [] \<Longrightarrow> fs_fopen_w p s = (ok, t) \<Longrightarrow> fs_io t = []"
  by (auto simp: fs_fopen_w_def put_node_def split: if_splits)

definition staging_ok :: "dl \<Rightarrow> bool" where
  "staging_ok d \<longleftrightarrow> (buf0 d \<longrightarrow> 0 < s_buf_capacity d)"

lemma alloc_halves_ok: "(\<forall>n \<in> set ns. 0 < n) \<Longrightarrow> \<not> buf0 d \<Longrightarrow> staging_ok (alloc_halves ns d)"
  by (induction ns d rule: alloc_halves.induct) (auto simp: staging_ok_def Let_def split: prod.splits)

lemma ensure_staging_ok: "staging_ok d \<Longrightarrow> staging_ok (ensure_pingpong_buffers d)"
  using alloc_halves_ok [of try_halves d]
  by (simp add: ensure_pingpong_buffers_def try_halves_def PSRAM_STAGING_BUFFER_SIZE_def del: alloc_halves.simps)

lemma sint_small_nat: "n < 2 ^ 31 \<Longrightarrow> sint (of_nat n :: u32) = int n"
  by (simp add: signed_of_nat signed_take_bit_int_eq_self)

lemma transfer_file:
  assumes "0 < s_buf_capacity d" and "transfer fp x d = (z, e)" and "\<not> res_net_error z" "\<not> res_sd_error z"
  shows "res_file z = body_bytes (ses_body x)" "\<not> body_fails (ses_body x)"
    "res_total z = of_nat (length (body_bytes (ses_body x)))"
  using seq_loop_file [OF assms(1), of "ses_body x" "on_read fp" "[]" "fwrites d" False 0 "prog d"] assms(2-4)
  by (auto simp: transfer_def Let_def)

lemma renamed_file:
  assumes "fs_wf v" and "fs_rename (out @ ''.part'') out v = (True, w)"
  shows "lookup w out = lookup v (out @ ''.part'')" and "lookup w (out @ ''.part'') = None"
  using rename_lookup [OF assms] part_not_out [of out] by simp_all

lemma download_file_good:
  assumes wf: "fs_wf (vol (bus d))" and pool: "pool_ok (http d)" and buf: "staging_ok d"
    and ok: "download_file_standalone fp url out d = (DL_OK, e)"
  obtains x k where "x \<in> set (sessions (http d))" "ses_status x = 200" "\<not> body_fails (ses_body x)"
    "lookup (vol (bus e)) out = Some (FileN (take k (body_bytes (ses_body x))))"
    "fs_io (vol (bus d)) = [] \<Longrightarrow> length (body_bytes (ses_body x)) \<le> k"
    "lookup (vol (bus e)) (out @ ''.part'') = None"
    "0 < ses_clen x \<Longrightarrow> sint (of_nat (length (body_bytes (ses_body x))) :: u32) = ses_clen x"
  using ok
proof (cases rule: download_fileE)
  case (transferred client x h d1 z d2)
  let ?part = "out @ ''.part''"
  from transferred(2) obtain v where v: "fs_fopen_w ?part (vol (bus d)) = (True, v)" "vol (bus d1) = v"
    and cap: "0 < s_buf_capacity d1"
    using ensure_staging_ok [of "d\<lparr>http := h\<rparr>"] buf by (cases rule: prepare_outputE) (auto simp: staging_ok_def)
  note tr = transfer_frame [OF transferred(3)]
  define c where "c = fs_fclose ?part (res_file z) v"
  from transferred(4) have g: "\<not> res_sd_error z" "\<not> res_net_error z" "0 < ses_clen x \<Longrightarrow> sint (res_total z) = ses_clen x"
    and rn: "fs_rename ?part out c = (True, vol (bus e))"
    using tr v(2) by (cases rule: finish_fileE; simp add: c_def)+
  have cap': "0 < s_buf_capacity (d1\<lparr>http := client_read client (http d1)\<rparr>)" using cap by simp
  note f = transfer_file [OF cap' transferred(3) g(2,1)]
  have wfc: "fs_wf c"
    using formed.R_write [OF _ v(1)] wf by (simp add: c_def)
  note mv = renamed_file [OF wfc rn]
  obtain k0 where k0: "lookup c ?part = Some (FileN (take k0 (res_file z)))"
    unfolding c_def using fclose_same by blast
  have quiet: "fs_io (vol (bus d)) = [] \<Longrightarrow> lookup c ?part = Some (FileN (res_file z))"
    using fclose_quiet [OF fopen_io [OF _ v(1)]] by (simp add: c_def)
  define k where "k = (if fs_io (vol (bus d)) = [] then length (res_file z) else k0)"
  show ?thesis
  proof (rule that)
    show "x \<in> set (sessions (http d))" using http_connect_session [OF pool transferred(1)] .
    show "ses_status x = 200" using http_connect_ok(2) [OF pool transferred(1)] by simp
    show "lookup (vol (bus e)) out = Some (FileN (take k (body_bytes (ses_body x))))"
      using mv(1) k0 quiet f(1) by (simp add: k_def)
    show "fs_io (vol (bus d)) = [] \<Longrightarrow> length (body_bytes (ses_body x)) \<le> k" using f(1) by (simp add: k_def)
  qed (use f g mv in simp_all)
next
  case (unprepared client x h er)
  from unprepared(2) show ?thesis using unprepared(3) by (cases rule: prepare_outputE) auto
qed simp_all

section \<open>Retries and swap\<close>

definition clock_refused :: "dl \<Rightarrow> bool" where
  "clock_refused e \<longleftrightarrow>
     (\<exists>b. set_sd_freq (sd_next_lower_freq (s_sd_freq_khz b)) b = (False, bus e) \<and> s_sd_freq_khz b = s_sd_freq_khz (bus e))"

lemma set_sd_freq_keeps: "set_sd_freq f s = (ok, t) \<Longrightarrow> s_sd_freq_khz t = s_sd_freq_khz s"
  by (auto simp: set_sd_freq_def pop_clk_def emit_def split: if_splits list.splits)

lemma sd_retry_end:
  "sd_retry fp url out r d = (r', e) \<Longrightarrow>
     s_sd_freq_khz (bus e) \<le> s_sd_freq_khz (bus d) \<and>
     (r' \<noteq> SD_FAILED \<or> sd_next_lower_freq (s_sd_freq_khz (bus e)) < 0 \<or> clock_refused e)"
proof (induction fp url out r d arbitrary: r' e rule: sd_retry.induct)
  case (1 fp url out r d)
  define l where "l = sd_next_lower_freq (s_sd_freq_khz (bus d))"
  obtain ok b where b: "set_sd_freq l (bus d) = (ok, b)" by fastforce
  define d1 where "d1 = d\<lparr>bus := b\<lparr>s_sd_freq_khz := l\<rparr>\<rparr>"
  define d2 where "d2 = snd (on_vol (fs_unlink (out @ ''.part'')) d1)"
  obtain r3 d3 where d3: "download_file_standalone fp url out d2 = (r3, d3)" by fastforce
  have eq: "(r', e) = (if r \<noteq> SD_FAILED then (r, d) else if l < 0 then (r, d) else if \<not> ok then (r, d\<lparr>bus := b\<rparr>)
      else sd_retry fp url out r3 d3)"
    using 1(2) unfolding sd_retry.simps [of fp url out r d] Let_def l_def [symmetric] b prod.case
      d1_def [symmetric] d2_def [symmetric] d3 by simp
  consider "r \<noteq> SD_FAILED \<or> l < 0" | "r = SD_FAILED" "\<not> l < 0" "\<not> ok" | "r = SD_FAILED" "\<not> l < 0" "ok" by blast
  then show ?case
  proof cases
    case 1
    then show ?thesis using eq by (auto simp: l_def split: if_splits)
  next
    case 2
    then have e: "e = d\<lparr>bus := b\<rparr>" using eq by simp
    have "clock_refused e"
      unfolding clock_refused_def using b 2(3) set_sd_freq_keeps [OF b] by (intro exI [of _ "bus d"]) (simp add: e l_def)
    then show ?thesis using set_sd_freq_keeps [OF b] by (simp add: e)
  next
    case 3
    then have "sd_retry fp url out r3 d3 = (r', e)" using eq by simp
    from 1(1) [OF _ l_def _ b [symmetric] _ d1_def d2_def d3 [symmetric] refl this] 3
    have "s_sd_freq_khz (bus e) \<le> s_sd_freq_khz (bus d3) \<and>
      (r' \<noteq> SD_FAILED \<or> sd_next_lower_freq (s_sd_freq_khz (bus e)) < 0 \<or> clock_refused e)" by auto
    moreover have "s_sd_freq_khz (bus d3) = l"
      using same_bus_freq [OF same_bus_trans [OF same_bus_vol(3) download_file_bus [OF d3 [unfolded d2_def]]]]
      by (simp add: d1_def)
    moreover have "l \<le> s_sd_freq_khz (bus d)" using next_lower_less [of "s_sd_freq_khz (bus d)"] 3(2) by (simp add: l_def)
    ultimately show ?thesis by simp
  qed
qed

lemma swap_in_true:
  assumes "fs_wf v" and "swap_in (f @ ''.tmp'') f v = (True, w)" and f: "f \<noteq> []"
  shows "lookup w (f @ ''/'' @ e) = lookup v (f @ ''.tmp/'' @ e)" and "fs_wf w"
proof -
  obtain st v1 where st: "fs_stat f v = (st, v1)" by fastforce
  define v2 where "v2 = (if st \<noteq> None then rm_tree f v1 else v1)"
  obtain ok v3 where v3: "fs_rename (f @ ''.tmp'') f v2 = (ok, v3)" by fastforce
  have r: "fs_rename (f @ ''.tmp'') f v2 = (True, w)"
    using assms(2) v3 unfolding swap_in_def Let_def st prod.case v2_def [symmetric] v3 by (auto split: if_splits)
  have "fs_wf v1" using formed.R_stat [of v f] assms(1) st by simp
  then have wf2: "fs_wf v2" using fs_wf_rm_tree by (simp add: v2_def)
  then show "fs_wf w" using fs_wf_rename [OF _ r] by simp
  have "\<not> under f (f @ ''.tmp/'' @ e)" by (auto simp: under_def inside_def prefix_def)
  then have "lookup v2 (f @ ''.tmp/'' @ e) = lookup v (f @ ''.tmp/'' @ e)"
    using rm_tree_lookup stat_lookup [of f v] st by (simp add: v2_def)
  then show "lookup w (f @ ''/'' @ e) = lookup v (f @ ''.tmp/'' @ e)"
    using rename_lookup [OF wf2 r, of "f @ ''/'' @ e"] by simp
qed

lemma write_ok_others: "q \<noteq> f @ ''/.ok'' \<Longrightarrow> lookup (write_ok f v) q = lookup v q"
  using fopen_w_lookup [of "f @ ''/.ok''" v] fclose_lookup [of q "f @ ''/.ok''"]
  by (auto simp: write_ok_def split: prod.splits)

lemma folder_success:
  assumes wf: "fs_wf (vol (bus d))" and "download_simi_folder fp js lr folder sd d = (True, sd', e)"
  shows "\<exists>items. manifest_items js (''/sdcard/'' @ folder) (vol (bus e)) = Some items \<and>
    (\<forall>item \<in> set items. \<forall>nm sz. entry_of js item = Some (nm, sz) \<and> nm \<noteq> ''.ok'' \<longrightarrow>
       (\<exists>n. lookup (vol (bus e)) (''/sdcard/'' @ folder @ ''/'' @ nm) = Some n \<and> int (node_size n) = sz))"
proof -
  define f where "f = ''/sdcard/'' @ folder"
  obtain fe sd1 d1 where fe: "fetch_folder fp js lr (list_url lr folder) (f @ ''.tmp'') sd d = (fe, sd1, d1)" by (metis prod_cases3)
  obtain w v where w: "swap_in (f @ ''.tmp'') f (vol (bus d1)) = (w, v)" by fastforce
  have ok: "fe" "w" "vol (bus e) = write_ok f v"
    using assms(2) unfolding download_simi_folder_def Let_def f_def [symmetric] fe prod.case on_vol_eq w
    by (auto split: if_splits)
  have wf1: "fs_wf (vol (bus d1))" using formed.R_fetch_folder [OF _ fe] wf by (simp add: f_def)
  from fe obtain v5 where ver: "verify_download_integrity js (f @ ''.tmp'') v5 = (True, vol (bus d1))"
    using ok(1) by (cases rule: fetch_folderE) auto
  note vs = verify_sound [OF ver]
  obtain items where it: "manifest_items js (f @ ''.tmp'') v5 = Some items"
    "\<forall>item \<in> set items. entry_good js (f @ ''.tmp'') v5 item" using vs(2) by auto
  have mv: "lookup (vol (bus e)) (f @ ''/'' @ nm) = lookup v5 ((f @ ''.tmp'') @ ''/'' @ nm)" if "nm \<noteq> ''.ok''" for nm
    using swap_in_true(1) [OF wf1, of f v nm] w ok write_ok_others [of "f @ ''/'' @ nm" f v] that vs(1)
    by (simp add: same_files_def f_def)
  have "manifest_items js f (vol (bus e)) = Some items"
    using it(1) mv [of "''manifest.json''"] by (simp add: manifest_items_def)
  moreover have "\<exists>n. lookup (vol (bus e)) (f @ ''/'' @ nm) = Some n \<and> int (node_size n) = sz"
    if "item \<in> set items" "entry_of js item = Some (nm, sz)" "nm \<noteq> ''.ok''" for item nm sz
    using it(2) that mv [OF that(3)] by (fastforce simp: entry_good_def split: option.splits)
  ultimately show ?thesis unfolding f_def by auto
qed

section \<open>Without faults a download succeeds\<close>

text \<open>No call fails that depends on neither the network nor the contents of the card.\<close>

definition no_faults :: "dl \<Rightarrow> bool" where
  "no_faults d \<longleftrightarrow> fs_io (vol (bus d)) = [] \<and> fwrites d = [] \<and> mallocs d = [] \<and> sem_oks d = [] \<and> task_oks d = [] \<and>
     (buf0 d \<longrightarrow> buf1 d \<and> 0 < s_buf_capacity d)"

lemma no_faults_ensure:
  "no_faults d \<Longrightarrow> no_faults (ensure_pingpong_buffers d) \<and> buf0 (ensure_pingpong_buffers d) \<and>
     buf1 (ensure_pingpong_buffers d) \<and> 0 < s_buf_capacity (ensure_pingpong_buffers d)"
  by (auto simp: no_faults_def ensure_pingpong_buffers_def try_halves_def PSRAM_STAGING_BUFFER_SIZE_def)

lemma no_faults_start:
  "no_faults d \<Longrightarrow> \<exists>e. start_sd_writer_task d = (True, e) \<and> no_faults e \<and> bus e = bus d \<and> http e = http d \<and>
     s_buf_capacity e = s_buf_capacity d"
  by (simp add: no_faults_def start_sd_writer_task_def Let_def)

lemma part_name:
  "parent (out @ ''.part'') = parent out" "valid_name (out @ ''.part'')"
  by (simp_all add: parent_def valid_name_def)

lemma parent_not_part: "parent out \<noteq> out @ ''.part''"
proof
  assume "parent out = out @ ''.part''"
  then have "length (parent out) = length out + 5" by simp
  moreover have "length (parent out) \<le> length out"
    using length_dropWhile_le [of "\<lambda>c. c \<noteq> CHR ''/''" "rev out"] by (simp add: parent_def)
  ultimately show False by simp
qed

lemma no_faults_prepare:
  assumes "no_faults d" and "lookup (vol (bus d)) (parent out) = Some DirN"
    and "lookup (vol (bus d)) (out @ ''.part'') \<noteq> Some DirN"
  shows "\<exists>e. prepare_output (out @ ''.part'') c d = (None, e) \<and> no_faults e \<and> 0 < s_buf_capacity e \<and>
    http e = http d \<and> vol (bus e) = put_node (out @ ''.part'') (FileN []) (vol (bus d))"
proof -
  define d1 where "d1 = ensure_pingpong_buffers d"
  note d1 = no_faults_ensure [OF assms(1), folded d1_def]
  define d2 where "d2 = d1\<lparr>bus := (bus d)\<lparr>vol := put_node (out @ ''.part'') (FileN []) (vol (bus d))\<rparr>\<rparr>"
  have b1: "bus d1 = bus d" "http d1 = http d" by (simp_all add: d1_def)
  have io: "fs_io (vol (bus d)) = []" using assms(1) by (simp add: no_faults_def)
  have o: "on_vol (fs_fopen_w (out @ ''.part'')) d1 = (True, d2)"
    using io assms(2,3) b1 by (simp add: on_vol_def fs_fopen_w_def part_name d2_def)
  have d2: "no_faults d2" "s_buf_capacity d2 = s_buf_capacity d1" "http d2 = http d"
    "vol (bus d2) = put_node (out @ ''.part'') (FileN []) (vol (bus d))"
    using d1 io b1 by (simp_all add: no_faults_def d2_def put_node_def)
  obtain d3 where st: "start_sd_writer_task d2 = (True, d3)" and d3: "no_faults d3" "bus d3 = bus d2" "http d3 = http d2"
    "s_buf_capacity d3 = s_buf_capacity d2" using no_faults_start [OF d2(1)] by blast
  have "prepare_output (out @ ''.part'') c d = (None, if s_sd_task_handle d2 then d2 else d3)"
    using d1 unfolding prepare_output_def Let_def d1_def [symmetric] o prod.case st by simp
  then show ?thesis using d1 d2 d3 by auto
qed

lemma seq_loop_wr: "w = [] \<Longrightarrow> res_wr (seq_loop tick cap r f w jerr tot x) = []"
proof (induction tick cap r f w jerr tot x rule: seq_loop.induct)
  case (1 tick cap r f w jerr tot x)
  obtain r' acc tot' x' nerr where fb: "fill_buf tick cap r [] tot x = (r', acc, tot', x', nerr)"
    by (metis prod_cases5)
  have sw: "sd_write acc 0 w f = (f @ acc, [], False)" using sd_write_no_faults [of 0 acc f] 1(2) by simp
  show ?case
  proof (cases "nerr \<or> acc = [] \<or> jerr \<or> length acc < cap")
    case True
    then show ?thesis by (subst seq_loop.simps) (use fb sw 1(2) in auto)
  next
    case False
    then have "res_wr (seq_loop tick cap r' (f @ acc) [] False tot' x') = []"
      using 1(1) [OF fb [symmetric] refl refl refl _ _ sw [symmetric] refl _ refl] by simp
    then show ?thesis using False by (subst seq_loop.simps) (simp add: fb sw)
  qed
qed

lemma no_faults_transfer:
  assumes "no_faults d" and "0 < s_buf_capacity d" and "\<not> body_fails (ses_body x)"
  shows "\<exists>z e. transfer fp x d = (z, e) \<and> no_faults e \<and> bus e = bus d \<and> http e = http d \<and>
    \<not> res_sd_error z \<and> \<not> res_net_error z \<and> res_file z = body_bytes (ses_body x) \<and>
    res_total z = of_nat (length (body_bytes (ses_body x)))"
proof -
  define z where "z = seq_loop (on_read fp) (s_buf_capacity d) (ses_body x) [] (fwrites d) False 0 (prog d)"
  have w: "fwrites d = []" using assms(1) by (simp add: no_faults_def)
  have z: "\<not> res_sd_error z" "\<not> res_net_error z" "res_file z = body_bytes (ses_body x)"
    "res_total z = of_nat (length (body_bytes (ses_body x)))"
    using seq_loop_file [OF assms(2), of "ses_body x" "on_read fp" "[]" "fwrites d" False 0 "prog d"] assms(3) w
    by (auto simp: z_def)
  have "res_wr z = []" using seq_loop_wr w
    by (simp add: z_def)
  then have "no_faults (d\<lparr>prog := res_progress z, fwrites := res_wr z\<rparr>)" using assms(1) by (simp add: no_faults_def)
  moreover have "transfer fp x d = (z, d\<lparr>prog := res_progress z, fwrites := res_wr z\<rparr>)"
    unfolding transfer_def Let_def z_def ..
  ultimately show ?thesis using z by auto
qed

lemma renamed_lookup:
  assumes wf: "fs_wf v" and io: "fs_io v = []" and dirs: "lookup v (parent out) = Some DirN"
    and name: "out \<noteq> []" "valid_name out" and "lookup v out = None" and part: "lookup v (out @ ''.part'') = Some (FileN bs)"
  shows "\<exists>w. fs_rename (out @ ''.part'') out v = (True, w) \<and> fs_wf w \<and> fs_io w = [] \<and>
    (\<forall>q. lookup w q = (if q = out then Some (FileN bs) else if q = out @ ''.part'' then None else lookup v q))"
proof -
  have "\<not> prefix ((out @ ''.part'') @ ''/'') out"
    using prefix_length_le [of "(out @ ''.part'') @ ''/''" out] by auto
  then obtain w where w: "fs_rename (out @ ''.part'') out v = (True, w)" "fs_io w = []"
    using assms parent_not_part [of out] by (auto simp: fs_rename_def inside_def)
  have bare: "lookup v q = None" if ins: "inside out q \<or> inside (out @ ''.part'') q" for q
  proof (rule ccontr)
    assume "lookup v q \<noteq> None"
    then have q: "q \<in> fst ` set (fs_nodes v)" using lookup_None [of v q] by simp
    obtain p where ip: "inside p q" "p \<in> {out, out @ ''.part''}" using ins by blast
    then obtain r where "q = p @ CHR ''/'' # r" by (auto simp: inside_def prefix_def)
    with ip(2) show False using fs_wfD [OF wf, of p r] q assms(6) part name(1) by auto
  qed
  have "lookup w q = (if q = out then Some (FileN bs) else if q = out @ ''.part'' then None else lookup v q)" for q
  proof (cases "under out q")
    case True
    then consider "q = out" | r where "q = out @ CHR ''/'' # r" by (auto simp: under_def inside_def prefix_def)
    then show ?thesis
    proof cases
      case 1
      then show ?thesis using rename_lookup [OF wf w(1), of q] part by simp
    next
      case (2 r)
      have "inside (out @ ''.part'') ((out @ ''.part'') @ CHR ''/'' # r)" "inside out q"
        using 2 by (simp_all add: inside_def prefix_def)
      then have "lookup v ((out @ ''.part'') @ CHR ''/'' # r) = None" "lookup v q = None" using bare by blast+
      then show ?thesis using rename_lookup [OF wf w(1), of q] True 2 by simp
    qed
  next
    case False
    then have "q \<noteq> out" by auto
    moreover have "under (out @ ''.part'') q \<Longrightarrow> q = out @ ''.part'' \<or> lookup v q = None"
      using bare by (auto simp: under_def)
    ultimately show ?thesis using rename_lookup [OF wf w(1), of q] False by auto
  qed
  then show ?thesis using w fs_wf_rename [OF wf w(1)] by blast
qed

lemma sint_len_pos: "0 < n \<Longrightarrow> n < 2 ^ 31 \<Longrightarrow> sint (of_nat n :: u32) \<noteq> 0"
  using sint_small_nat [of n] by simp

lemma no_faults_finish:
  assumes nf: "no_faults d" and wf: "fs_wf v" and vol: "vol (bus d) = put_node (out @ ''.part'') (FileN []) v"
    and dirs: "lookup v (parent out) = Some DirN" and name: "out \<noteq> []" "valid_name out" and free: "lookup v out = None"
    and npart: "lookup v (out @ ''.part'') \<noteq> Some DirN"
    and z: "\<not> res_sd_error z" "\<not> res_net_error z" "res_file z = body" "res_total z = of_nat (length body)"
    and len: "0 < length body" "length body < 2 ^ 31" "clen \<le> 0 \<or> clen = int (length body)"
  shows "\<exists>e. finish_file fp (out @ ''.part'') out clen z d = (DL_OK, e) \<and> no_faults e \<and> http e = http d \<and>
    fs_wf (vol (bus e)) \<and>
    (\<forall>q. lookup (vol (bus e)) q = (if q = out then Some (FileN body) else if q = out @ ''.part'' then None else lookup v q))"
proof -
  let ?part = "out @ ''.part''"
  define c where "c = fs_fclose ?part body (vol (bus d))"
  have io: "fs_io (vol (bus d)) = []" using nf by (simp add: no_faults_def)
  have c: "c = put_node ?part (FileN body) (vol (bus d))" using io by (simp add: c_def fs_fclose_def)
  have "fs_wf (vol (bus d))" unfolding vol by (rule fs_wf_put) (use wf dirs npart in \<open>simp_all add: part_name\<close>)
  then have wfc: "fs_wf c" unfolding c_def by (rule fs_wf_fclose) (simp add: vol)
  have ioc: "fs_io c = []" using io by (simp add: c put_node_def)
  have cl: "lookup c (parent out) = Some DirN" "lookup c out = None" "lookup c ?part = Some (FileN body)"
    using dirs free parent_not_part [of out] by (simp_all add: c vol)
  obtain w where w: "fs_rename ?part out c = (True, w)" "fs_wf w" "fs_io w = []"
    "\<forall>q. lookup w q = (if q = out then Some (FileN body) else if q = ?part then None else lookup c q)"
    using renamed_lookup [OF wfc ioc cl(1) name cl(2,3)] by blast
  have tot: "\<not> ((clen > 0 \<and> sint (res_total z) \<noteq> clen) \<or> sint (res_total z) = 0)"
    using sint_small_nat [OF len(2)] len z(4) by auto
  define d1 where "d1 = set_vol (fs_fclose ?part body) d"
  have d1: "vol (bus d1) = c" "http d1 = http d" by (simp_all add: d1_def c_def set_vol_def)
  define d2 where "d2 = d1\<lparr>bus := (bus d1)\<lparr>vol := w\<rparr>\<rparr>"
  have "on_vol (fs_rename ?part out) d1 = (True, d2)" using w(1) d1 by (simp add: on_vol_eq d2_def)
  then have "finish_file fp ?part out clen z d = (DL_OK, d2\<lparr>prog := update_led_progress fp (prog d2)\<rparr>)"
    unfolding finish_file_def Let_def z(3) d1_def [symmetric] using z tot by auto
  moreover have "no_faults (d2\<lparr>prog := update_led_progress fp (prog d2)\<rparr>)"
    using nf w(3) by (simp add: no_faults_def d2_def d1_def set_vol_def)
  ultimately show ?thesis using w d1 by (auto simp: d2_def c vol)
qed

lemma no_faults_download:
  assumes "no_faults d" and "fs_wf (vol (bus d))" and "http_connect url (http d) = (Some (client, x), h)"
    and "\<not> body_fails (ses_body x)" and "body_bytes (ses_body x) \<noteq> []" "length (body_bytes (ses_body x)) < 2 ^ 31"
    and "ses_clen x \<le> 0 \<or> ses_clen x = int (length (body_bytes (ses_body x)))"
    and "out \<noteq> []" "valid_name out" and "lookup (vol (bus d)) (parent out) = Some DirN"
    and "lookup (vol (bus d)) out = None" and "lookup (vol (bus d)) (out @ ''.part'') \<noteq> Some DirN"
  shows "\<exists>e. download_file_standalone fp url out d = (DL_OK, e) \<and> no_faults e \<and> fs_wf (vol (bus e)) \<and>
    (\<forall>q. lookup (vol (bus e)) q = (if q = out then Some (FileN (body_bytes (ses_body x)))
       else if q = out @ ''.part'' then None else lookup (vol (bus d)) q))"
proof -
  let ?d0 = "d\<lparr>http := h\<rparr>" and ?v = "vol (bus d)"
  have nf0: "no_faults ?d0" using assms(1) by (simp add: no_faults_def)
  obtain d1 where p: "prepare_output (out @ ''.part'') client ?d0 = (None, d1)" and d1: "no_faults d1" "0 < s_buf_capacity d1"
    "vol (bus d1) = put_node (out @ ''.part'') (FileN []) ?v"
    using no_faults_prepare [OF nf0, of out client] assms(10,12) by auto
  define d1r where "d1r = d1\<lparr>http := client_read client (http d1)\<rparr>"
  have d1r: "no_faults d1r" "0 < s_buf_capacity d1r" "bus d1r = bus d1"
    using d1 by (simp_all add: d1r_def no_faults_def)
  obtain z d2 where t: "transfer fp x d1r = (z, d2)" and d2: "no_faults d2" "bus d2 = bus d1"
    and z: "\<not> res_sd_error z" "\<not> res_net_error z" "res_file z = body_bytes (ses_body x)"
      "res_total z = of_nat (length (body_bytes (ses_body x)))"
    using no_faults_transfer [OF d1r(1,2) assms(4), of fp] d1r(3) by auto
  let ?d3 = "release client (res_sd_error z \<or> res_net_error z) d2"
  have d3: "no_faults ?d3" "vol (bus ?d3) = put_node (out @ ''.part'') (FileN []) ?v"
    using d2 d1(3) by (simp_all add: no_faults_def release_def)
  obtain e where e: "finish_file fp (out @ ''.part'') out (ses_clen x) z ?d3 = (DL_OK, e)" "no_faults e" "fs_wf (vol (bus e))"
    "\<forall>q. lookup (vol (bus e)) q = (if q = out then Some (FileN (body_bytes (ses_body x)))
       else if q = out @ ''.part'' then None else lookup ?v q)"
    using no_faults_finish [OF d3(1) assms(2) d3(2) assms(10,8,9,11,12) z _ assms(6,7)] assms(5) by blast
  have "download_file_standalone fp url out d = (DL_OK, e)"
    unfolding download_file_standalone_def Let_def assms(3) prod.case option.case p d1r_def [symmetric] t using e(1) by simp
  then show ?thesis using e by blast
qed

section \<open>Properties\<close>

text \<open>C6. A file download that reports success has stored, under the final name, what a server
  answered with status 200: a prefix of the body received, and all of it when no call on the card
  failed unnoticed (the results of the final flush and close are not tested); the length is the
  announced one, and the partial file is gone.\<close>

theorem download_file_result:
  assumes "fs_wf (vol (bus d))" and "pool_ok (http d)" and "staging_ok d"
    and "fst (download_file_standalone fp url out d) = DL_OK"
  shows "\<exists>x \<in> set (sessions (http d)). \<exists>k.
    ses_status x = 200 \<and> \<not> body_fails (ses_body x) \<and>
    lookup (vol (bus (snd (download_file_standalone fp url out d)))) out = Some (FileN (take k (body_bytes (ses_body x)))) \<and>
    lookup (vol (bus (snd (download_file_standalone fp url out d)))) (out @ ''.part'') = None \<and>
    (fs_io (vol (bus d)) = [] \<longrightarrow> length (body_bytes (ses_body x)) \<le> k) \<and>
    (0 < ses_clen x \<longrightarrow> sint (of_nat (length (body_bytes (ses_body x))) :: u32) = ses_clen x)"
proof -
  obtain e where e: "download_file_standalone fp url out d = (DL_OK, e)"
    using assms(4) by (metis prod.collapse)
  from download_file_good [OF assms(1-3) e] show ?thesis unfolding e snd_conv by (smt (verit))
qed

text \<open>C26. Without faults a file download succeeds: when a server answers with status 200 and a
  complete non-empty body of the announced length, the directory exists and the name is free, the
  result is success, the file holds the body, and no other path of the card has changed.\<close>

theorem download_file_succeeds:
  assumes "no_faults d" and "fs_wf (vol (bus d))" and "http_connect url (http d) = (Some (client, x), h)"
    and "\<not> body_fails (ses_body x)" and "body_bytes (ses_body x) \<noteq> []" "length (body_bytes (ses_body x)) < 2 ^ 31"
    and "ses_clen x \<le> 0 \<or> ses_clen x = int (length (body_bytes (ses_body x)))"
    and "out \<noteq> []" "valid_name out" and "lookup (vol (bus d)) (parent out) = Some DirN"
    and "lookup (vol (bus d)) out = None" and "lookup (vol (bus d)) (out @ ''.part'') \<noteq> Some DirN"
  shows "\<exists>e. download_file_standalone fp url out d = (DL_OK, e) \<and> fs_wf (vol (bus e)) \<and>
    (\<forall>q. lookup (vol (bus e)) q = (if q = out then Some (FileN (body_bytes (ses_body x)))
       else if q = out @ ''.part'' then None else lookup (vol (bus d)) q))"
  using no_faults_download [OF assms] by blast

text \<open>C4. Whatever fails, a folder download changes nothing outside the folder and its temporary
  directory, and up to the verification nothing outside the temporary directory: a download that
  fails before the swap leaves the old folder as it was.\<close>

theorem folder_download_contained:
  "let final_dir = ''/sdcard/'' @ folder; tmp_dir = final_dir @ ''.tmp'';
       fetched = fetch_folder fp js lr (list_url lr folder) tmp_dir sd d; result = download_simi_folder fp js lr folder sd d
   in (under tmp_dir q \<or> lookup (vol (bus (snd (snd fetched)))) q = lookup (vol (bus d)) q) \<and>
      (under final_dir q \<or> under tmp_dir q \<or> lookup (vol (bus (snd (snd result)))) q = lookup (vol (bus d)) q) \<and>
      (fst fetched \<or> result = fetched) \<and> \<not> (under final_dir p \<and> under tmp_dir p)"
proof -
  define f where "f = ''/sdcard/'' @ folder"
  obtain fe sd1 d1 where fe: "fetch_folder fp js lr (list_url lr folder) (f @ ''.tmp'') sd d = (fe, sd1, d1)" by (metis prod_cases3)
  obtain ok sd2 e where r: "download_simi_folder fp js lr folder sd d = (ok, sd2, e)" by (metis prod_cases3)
  have "changes_only (under (f @ ''.tmp'')) (vol (bus d)) (vol (bus d1))"
    by (rule outside.R_fetch_folder [OF _ fe]) simp
  moreover have "changes_only (\<lambda>q. under f q \<or> under (f @ ''.tmp'') q) (vol (bus d)) (vol (bus e))"
    by (rule outside.R_folder [OF _ _ r]) (auto simp: f_def)
  moreover have "fe \<or> (ok, sd2, e) = (fe, sd1, d1)"
    using r unfolding download_simi_folder_def Let_def f_def [symmetric] fe prod.case by auto
  ultimately show ?thesis
    using tmp_not_final [of f p] unfolding Let_def f_def [symmetric] fe r changes_only_def by auto
qed

text \<open>C15. Every resource a folder download takes is given back, on every path: no HTTP handle is
  live (neither the pooled one nor that of the list request) and none was used or cleaned up when
  it was not live; no block of the PSRAM buffers is left allocated, a partial allocation included,
  and none was freed twice; the writer task is gone and its semaphores are deleted.\<close>

theorem folder_download_resources:
  assumes "idle_res (held d)"
  shows "idle_res (held (snd (snd (download_simi_folder fp js lr folder sd d))))"
proof -
  define f where "f = ''/sdcard/'' @ folder"
  obtain fe sd1 d1 where fe: "fetch_folder fp js lr (list_url lr folder) (f @ ''.tmp'') sd d = (fe, sd1, d1)" by (metis prod_cases3)
  obtain ok sd2 e where r: "download_simi_folder fp js lr folder sd d = (ok, sd2, e)" by (metis prod_cases3)
  have "held e = held d1"
    using r unfolding download_simi_folder_def Let_def f_def [symmetric] fe prod.case on_vol_eq
    by (auto simp: held_def set_vol_def split: if_splits)
  then show ?thesis using fetch_folder_idle [OF assms fe] r by simp
qed

text \<open>C3. A folder download that reports success leaves a folder whose manifest can be read and
  parsed and in which every file the manifest lists exists with the size listed (the marker
  \<^verbatim>\<open>.ok\<close> apart, which is written afterwards).\<close>

theorem folder_download_complete:
  assumes "fs_wf (vol (bus d))" and "download_simi_folder fp js lr folder sd d = (True, sd', e)"
  shows "\<exists>items. manifest_items js (''/sdcard/'' @ folder) (vol (bus e)) = Some items \<and>
    (\<forall>item \<in> set items. \<forall>nm sz. entry_of js item = Some (nm, sz) \<and> nm \<noteq> ''.ok'' \<longrightarrow>
       (\<exists>n. lookup (vol (bus e)) (''/sdcard/'' @ folder @ ''/'' @ nm) = Some n \<and> int (node_size n) = sz))"
  by (rule folder_success [OF assms])

text \<open>C27. The integrity check decides exactly this, when no call on the card fails: the manifest can
  be read and parsed, and every complete entry names a file of the size listed. It changes no
  file.\<close>

theorem verify_download_integrity_spec:
  assumes "fs_io v = []"
  shows "(fst (verify_download_integrity js folder v) \<longleftrightarrow>
      (\<exists>items. manifest_items js folder v = Some items \<and> (\<forall>item \<in> set items. entry_good js folder v item))) \<and>
    lookup (snd (verify_download_integrity js folder v)) q = lookup v q"
proof -
  obtain ok w where ok: "verify_download_integrity js folder v = (ok, w)" by fastforce
  note vs = verify_sound [OF ok]
  show ?thesis using vs(1,3) assms ok by (simp add: same_files_def)
qed

text \<open>C28. The retries after card errors always end, never raise the SD clock, and report a card
  error only when no lower clock is left or the clock cannot be changed.\<close>

theorem sd_retry_outcome:
  "case sd_retry fp url out r d of (r', e) \<Rightarrow>
     s_sd_freq_khz (bus e) \<le> s_sd_freq_khz (bus d) \<and>
     (r' \<in> {DL_OK, NET_FAILED, OTHER_FAILED} \<or> sd_next_lower_freq (s_sd_freq_khz (bus e)) < 0 \<or> clock_refused e)"
proof -
  obtain r' e where "sd_retry fp url out r d = (r', e)" by fastforce
  from sd_retry_end [OF this] this show ?thesis by (cases r') auto
qed

text \<open>C40. The percentage shown never exceeds 100, and it is the rounded-down share of the bytes
  expected as long as less than 256 percent of them have arrived; from there on the cast to 8 bits
  wraps it around.\<close>

theorem progress_percent_range:
  assumes "0 < expected" and "0 \<le> downloaded"
  shows "unat (progress_percent_of downloaded expected) \<le> 100 \<and>
    (downloaded * 100 < 256 * expected \<longrightarrow>
       int (unat (progress_percent_of downloaded expected)) = min 100 (downloaded * 100 div expected)) \<and>
    progress_percent_of (256 * expected) (100 * expected) = 0"
proof (intro conjI impI)
  define p where "p = downloaded * 100 div expected"
  have pos: "0 \<le> p" using assms by (simp add: p_def pos_imp_zdiv_nonneg_iff)
  have u: "unat (of_int p :: u8) = nat (p mod 256)" by (simp add: unat_eq_nat_uint uint_word_of_int)
  show "unat (progress_percent_of downloaded expected) \<le> 100"
    by (simp add: progress_percent_of_def Let_def word_less_nat_alt)
  assume "downloaded * 100 < 256 * expected"
  moreover have "p * expected \<le> downloaded * 100"
    using minus_mod_eq_div_mult [of "downloaded * 100" expected] pos_mod_sign [OF assms(1), of "downloaded * 100"]
    by (simp add: p_def)
  ultimately have "p * expected < 256 * expected" by simp
  then have "p < 256" using assms(1) by simp
  then have "p mod 256 = p" using pos by simp
  then show "int (unat (progress_percent_of downloaded expected)) = min 100 (downloaded * 100 div expected)"
    using u pos unfolding progress_percent_of_def Let_def p_def [symmetric] by (auto simp: word_less_nat_alt uint_word_of_int)
next
  have "256 * expected * 100 div (100 * expected) = 256" using assms(1) by simp
  then show "progress_percent_of (256 * expected) (100 * expected) = 0" by (simp add: progress_percent_of_def)
qed

section \<open>A concrete run\<close>

text \<open>A JSON library for two documents, and a card with an empty volume.\<close>

datatype demo_json = JArr "demo_json list" | JObj "(string \<times> demo_json) list" | JStr string | JNum rat

definition demo_list :: demo_json where
  "demo_list = JArr [JObj [(''filename'', JStr ''manifest.json''), (''url'', JStr ''https://h/m'')]]"

definition demo_manifest :: demo_json where
  "demo_manifest = JObj [(''files'', JArr [JObj [(''name'', JStr ''manifest.json''), (''size'', JNum 1)]])]"

definition demo_js :: "demo_json json_api" where
  "demo_js = \<lparr>cJSON_Parse = (\<lambda>t. if t = ''L'' then Some demo_list else if t = ''M'' then Some demo_manifest else None),
     json_array = (\<lambda>j. case j of JArr xs \<Rightarrow> Some xs | _ \<Rightarrow> None),
     json_get = (\<lambda>j k. case j of JObj xs \<Rightarrow> map_of xs k | _ \<Rightarrow> None),
     json_string = (\<lambda>j. case j of JStr t \<Rightarrow> Some t | _ \<Rightarrow> None),
     json_number = (\<lambda>j. case j of JNum q \<Rightarrow> Some q | _ \<Rightarrow> None)\<rparr>"

definition demo_reply :: list_reply where
  "demo_reply = \<lparr>lambda_url = ''https://l'', lr_err = ESP_OK, lr_chunked = False, lr_data = [''L'']\<rparr>"

definition demo_session :: http_session where
  "demo_session = \<lparr>ses_err = ESP_OK, ses_clen = 1, ses_status = 200, ses_body = [RdData [0x4d]]\<rparr>"

definition demo_bus :: sd_st where
  "demo_bus = \<lparr>s_card = True, s_spi_bus_initialized = True, s_sd_freq_khz = 10000, ops = [], spi_rets = [],
     mount_rets = [], has_set_card_clk = True, clk_rets = [],
     vol = \<lparr>fs_nodes = [(''/sdcard'', DirN)], fs_io = [], fs_replace = False\<rparr>\<rparr>"

definition demo_dl :: dl where
  "demo_dl = \<lparr>http = http_boot [] [demo_session], bus = demo_bus,
     prog = \<lparr>s_total_expected_bytes = 0, s_total_downloaded_bytes = 0, led_s = led_boot, ticks = []\<rparr>,
     buf0 = False, buf1 = False, s_buf_capacity = 0, mallocs = [], s_sd_task_handle = False,
     sem_ready = False, sem_done = False, sem_oks = [], task_oks = [], fwrites = [],
     psram_live = 0, sems_live = 0\<rparr>"

lemma demo_vol_wf: "fs_wf (vol (bus demo_dl))"
  by (auto simp: fs_wf_def demo_dl_def demo_bus_def lookup_def Cons_eq_append_conv)

lemma demo_idle: "idle_res (held demo_dl)" "no_faults demo_dl" "staging_ok demo_dl" "pool_ok (http demo_dl)"
  by (simp_all add: idle_res_def held_def no_faults_def staging_ok_def demo_dl_def demo_bus_def pool_ok_boot)
    (simp add: http_boot_def)

lemma demo_boot: "http demo_dl = http_boot [] [demo_session]" "vol (bus demo_dl) = vol demo_bus"
  by (simp_all add: demo_dl_def)

text \<open>The download of the one file of the demonstration list.\<close>

abbreviation demo_out :: string where "demo_out \<equiv> ''/sdcard/x.tmp/manifest.json''"

lemma demo_connect:
  "http_connect ''https://h/m'' (http_boot [] [demo_session]) =
     (Some (0, demo_session), snd (http_connect ''https://h/m'' (http_boot [] [demo_session])))"
  by code_simp

text \<open>The pool after the list request.\<close>

definition demo_asked :: http_st where
  "demo_asked = snd (fetch_list demo_js (list_url demo_reply ''x'') demo_reply (http_boot [] [demo_session]))"

lemma demo_connect_asked:
  "http_connect ''https://h/m'' demo_asked =
     (Some (1, demo_session), snd (http_connect ''https://h/m'' demo_asked))"
  by code_simp

lemma demo_body: "body_bytes (ses_body demo_session) = [0x4d]" "\<not> body_fails (ses_body demo_session)"
  "ses_clen demo_session = 1"
  by (simp_all add: demo_session_def)

lemma demo_download:
  assumes "no_faults d" "http d = http_boot [] [demo_session] \<or> http d = demo_asked"
    "vol (bus d) = \<lparr>fs_nodes = [(''/sdcard/x.tmp'', DirN), (''/sdcard'', DirN)], fs_io = [], fs_replace = False\<rparr>"
  shows "\<exists>e. download_file_standalone fp ''https://h/m'' demo_out d = (DL_OK, e) \<and> no_faults e \<and> fs_wf (vol (bus e)) \<and>
    (\<forall>q. lookup (vol (bus e)) q = (if q = demo_out then Some (FileN [0x4d])
       else if q = demo_out @ ''.part'' then None else lookup (vol (bus d)) q))"
proof -
  have wf: "fs_wf (vol (bus d))"
    unfolding assms(3) by (auto simp: fs_wf_def lookup_def Cons_eq_append_conv)
  have names: "valid_name demo_out" "parent demo_out = ''/sdcard/x.tmp''" by code_simp+
  obtain c where con: "http_connect ''https://h/m'' (http d) = (Some (c, demo_session), snd (http_connect ''https://h/m'' (http d)))"
    using demo_connect demo_connect_asked assms(2) by metis
  have look: "lookup (vol (bus d)) ''/sdcard/x.tmp'' = Some DirN" "lookup (vol (bus d)) demo_out = None"
    "lookup (vol (bus d)) (demo_out @ ''.part'') \<noteq> Some DirN"
    by (simp_all add: assms(3) lookup_def)
  from no_faults_download [OF assms(1) wf con demo_body(2) _ _ _ _ names(1) _ look(2,3)]
  show ?thesis unfolding demo_body names(2) using look(1) by simp
qed

lemma demo_folder:
  assumes d0: "no_faults d0" "http d0 = http_boot [] [demo_session]" "vol (bus d0) = vol demo_bus"
  shows "\<exists>e. download_simi_folder fp demo_js demo_reply ''x'' False d0 = (True, False, e)"
proof -
  let ?url = "''https://h/m''" and ?tmp = "''/sdcard/x.tmp''"
  let ?asked = "list_url demo_reply ''x''"
  have fl: "fetch_list demo_js ?asked demo_reply (http_boot [] [demo_session]) = (Some ([(''manifest.json'', ?url)], 0), demo_asked)"
    unfolding demo_asked_def by code_simp
  define v where "v = \<lparr>fs_nodes = [(?tmp, DirN), (''/sdcard'', DirN)], fs_io = [], fs_replace = False\<rparr>"
  have pt: "prepare_tmp ?tmp (vol demo_bus) = (True, v)" unfolding v_def by code_simp
  have next_d: "\<exists>e. download_all fp ?tmp [(''manifest.json'', ?url)] d = (True, False, e) \<and> no_faults e \<and> fs_wf (vol (bus e)) \<and>
      (\<forall>q. lookup (vol (bus e)) q = (if q = demo_out then Some (FileN [0x4d])
         else if q = demo_out @ ''.part'' then None else lookup v q))"
    if d: "no_faults d" "http d = demo_asked" "vol (bus d) = v" for d
  proof -
    let ?d1 = "d\<lparr>prog := update_led_progress fp (prog d)\<rparr>"
    have d1: "no_faults ?d1" "http ?d1 = demo_asked" "vol (bus ?d1) = v"
      using d by (simp_all add: no_faults_def)
    from demo_download [OF d1(1) disjI2 [OF d1(2)] d1(3) [unfolded v_def], of fp] obtain e where
      e: "download_file_standalone fp ?url demo_out ?d1 = (DL_OK, e)" "no_faults e" "fs_wf (vol (bus e))"
        "\<forall>q. lookup (vol (bus e)) q = (if q = demo_out then Some (FileN [0x4d])
         else if q = demo_out @ ''.part'' then None else lookup v q)"
      unfolding d1(3) by blast
    have "snd (on_vol (fs_stat demo_out) e) = e"
      using e(2) by (simp add: on_vol_eq fs_stat_def no_faults_def)
    then have "download_all fp ?tmp [(''manifest.json'', ?url)] d = (True, False, e)"
      using e(1) by (simp add: sd_retry.simps)
    then show ?thesis using e by blast
  qed
  define da where "da = show_progress fp 0 (d0\<lparr>prog := (prog d0)\<lparr>s_total_expected_bytes := 0, s_total_downloaded_bytes := 0\<rparr>\<rparr>)"
  define d1 where "d1 = da\<lparr>http := demo_asked\<rparr>"
  define d2 where "d2 = d1\<lparr>prog := (prog d1)\<lparr>s_total_expected_bytes := 0\<rparr>\<rparr>"
  define d3 where "d3 = d2\<lparr>prog := (prog d2)\<lparr>s_total_expected_bytes := estimate_bytes (Suc 0)\<rparr>\<rparr>"
  define d4 where "d4 = d3\<lparr>bus := (bus d3)\<lparr>vol := v\<rparr>\<rparr>"
  note states = d4_def d3_def d2_def d1_def da_def show_progress_def
  have b3: "vol (bus d3) = vol demo_bus" using d0(3) by (simp add: states)
  have o4: "on_vol (prepare_tmp ?tmp) d3 = (True, d4)" using pt b3 by (simp add: on_vol_eq d4_def)
  have d4: "no_faults d4" "http d4 = demo_asked" "vol (bus d4) = v"
    using d0 by (simp_all add: states no_faults_def v_def)
  obtain d5 where d5: "download_all fp ?tmp [(''manifest.json'', ?url)] d4 = (True, False, d5)" "no_faults d5" "fs_wf (vol (bus d5))"
    and look: "\<And>q. lookup (vol (bus d5)) q = (if q = demo_out then Some (FileN [0x4d])
         else if q = demo_out @ ''.part'' then None else lookup v q)"
    using next_d [OF d4] by blast
  have io: "fs_io (vol (bus d5)) = []" using d5(2) by (simp add: no_faults_def)
  define d7 where "d7 = show_progress fp 100 (dl_cleanup d5)"
  have d7: "vol (bus d7) = vol (bus d5)" by (simp add: d7_def)
  have mi: "manifest_items demo_js ?tmp (vol (bus d5)) = Some [JObj [(''name'', JStr ''manifest.json''), (''size'', JNum 1)]]"
    using look [of demo_out] by (simp add: manifest_items_def) code_simp
  have en: "entry_of demo_js (JObj [(''name'', JStr ''manifest.json''), (''size'', JNum 1)]) = Some (''manifest.json'', 1)"
    by code_simp
  obtain good w where gw: "verify_download_integrity demo_js ?tmp (vol (bus d5)) = (good, w)" by fastforce
  have "w = vol (bus d5)" "good"
    using verify_sound(3) [OF gw io] mi en look [of demo_out] by (simp_all add: entry_good_def node_size_def)
  then have o7: "on_vol (verify_download_integrity demo_js ?tmp) d7 = (True, d7)"
    using gw d7 by (simp add: on_vol_eq)
  have ha: "http da = http_boot [] [demo_session]" using d0(2) by (simp add: da_def show_progress_def)
  have ff: "fetch_folder fp demo_js demo_reply ?asked ?tmp False d0 = (True, False, d7)"
    unfolding fetch_folder_def Let_def da_def [symmetric] ha fl prod.case d1_def [symmetric] option.case d2_def [symmetric]
    using o4 d5(1) o7 by (simp add: d3_def [symmetric] d7_def [symmetric] del: download_all.simps)
  have nm: "valid_name ''/sdcard/x''" "parent ''/sdcard/x'' = ''/sdcard''" by code_simp+
  have "lookup v ''/sdcard/x'' = None" "lookup v ?tmp = Some DirN" "lookup v ''/sdcard'' = Some DirN"
    by (simp_all add: v_def lookup_def)
  then have "lookup (vol (bus d5)) ''/sdcard/x'' = None" "lookup (vol (bus d5)) ?tmp = Some DirN"
    "lookup (vol (bus d5)) ''/sdcard'' = Some DirN" by (simp_all add: look)
  then obtain u where "swap_in ?tmp ''/sdcard/x'' (vol (bus d5)) = (True, u)"
    using io nm by (simp add: swap_in_def fs_stat_def fs_rename_def inside_def)
  then show ?thesis
    using ff d7 by (simp add: download_simi_folder_def on_vol_eq)
qed

subsection \<open>Witnesses\<close>

lemma download_file_result_witness:
  "\<exists>d. fst (download_file_standalone fix_ops ''https://h/m'' demo_out d) = DL_OK \<and>
     (\<exists>x \<in> set (sessions (http d)). ses_status x = 200 \<and>
        lookup (vol (bus (snd (download_file_standalone fix_ops ''https://h/m'' demo_out d)))) (demo_out @ ''.part'') = None)"
proof -
  let ?v = "\<lparr>fs_nodes = [(''/sdcard/x.tmp'', DirN), (''/sdcard'', DirN)], fs_io = [], fs_replace = False\<rparr>"
  let ?d = "demo_dl\<lparr>bus := demo_bus\<lparr>vol := ?v\<rparr>\<rparr>"
  have d: "no_faults ?d" "http ?d = http_boot [] [demo_session]" "vol (bus ?d) = ?v"
    by (simp_all add: no_faults_def demo_dl_def)
  have wf: "fs_wf (vol (bus ?d))" by (auto simp: fs_wf_def lookup_def Cons_eq_append_conv)
  have ok: "fst (download_file_standalone fix_ops ''https://h/m'' demo_out ?d) = DL_OK"
    using demo_download [OF d(1) disjI1 [OF d(2)] d(3), of fix_ops] by auto
  have "pool_ok (http ?d)" "staging_ok ?d" using demo_idle by (simp_all add: staging_ok_def)
  from download_file_result [OF wf this ok] show ?thesis using ok by blast
qed

lemma download_file_succeeds_witness:
  "\<exists>d e. download_file_standalone fix_ops ''https://h/m'' ''/sdcard/x'' d = (DL_OK, e) \<and>
     lookup (vol (bus e)) ''/sdcard/x'' = Some (FileN [0x4d])"
proof -
  have con: "http_connect ''https://h/m'' (http demo_dl) = (Some (0, demo_session), snd (http_connect ''https://h/m'' (http demo_dl)))"
    using demo_connect by (simp add: demo_dl_def)
  have nm: "valid_name ''/sdcard/x''" "parent ''/sdcard/x'' = ''/sdcard''" by code_simp+
  have look: "lookup (vol (bus demo_dl)) ''/sdcard'' = Some DirN" "lookup (vol (bus demo_dl)) ''/sdcard/x'' = None"
    "lookup (vol (bus demo_dl)) (''/sdcard/x'' @ ''.part'') \<noteq> Some DirN"
    by (simp_all add: demo_dl_def demo_bus_def lookup_def)
  from download_file_succeeds [OF demo_idle(2) demo_vol_wf con demo_body(2) _ _ _ _ nm(1) _ look(2,3), of fix_ops]
  obtain e where "download_file_standalone fix_ops ''https://h/m'' ''/sdcard/x'' demo_dl = (DL_OK, e)"
    "\<forall>q. lookup (vol (bus e)) q = (if q = ''/sdcard/x'' then Some (FileN [0x4d])
       else if q = ''/sdcard/x'' @ ''.part'' then None else lookup (vol (bus demo_dl)) q)"
    unfolding demo_body nm(2) using look(1) by auto
  then show ?thesis by (intro exI [of _ demo_dl] exI [of _ e]) simp
qed

lemma folder_download_resources_witness:
  "live (http (snd (snd (download_simi_folder fix_ops demo_js demo_reply ''x'' False demo_dl)))) = []"
  using folder_download_resources [OF demo_idle(1), of fix_ops demo_js demo_reply "''x''" False]
  by (simp add: idle_res_def held_def)

lemma folder_download_complete_witness:
  "\<exists>e items. download_simi_folder fix_ops demo_js demo_reply ''x'' False demo_dl = (True, False, e) \<and>
     manifest_items demo_js ''/sdcard/x'' (vol (bus e)) = Some items"
proof -
  obtain e where e: "download_simi_folder fix_ops demo_js demo_reply ''x'' False demo_dl = (True, False, e)"
    using demo_folder [OF demo_idle(2) demo_boot] by blast
  from folder_download_complete [OF demo_vol_wf e] show ?thesis using e by auto
qed

lemma verify_download_integrity_spec_witness:
  "\<not> fst (verify_download_integrity demo_js ''/s'' demo_fs)"
  using verify_download_integrity_spec [of demo_fs demo_js "''/s''"]
  by (simp add: demo_fs_def manifest_items_def lookup_def)

lemma progress_percent_range_witness: "uint (progress_percent_of 50 200) = 25"
  using progress_percent_range [of 200 50] by simp

end
