(* ===== verification/AppMain.thy ===== *)
theory AppMain
  imports BootManager WifiCreds DownloadCorrect
begin

text \<open>
  The main program of the downloader, \<^verbatim>\<open>src/src/downloader_main.cpp\<close>: recovery of NVS, the boot
  counter, the guards of a download request, the Wi-Fi connection with its second source of
  credentials, the download with its reports to the boot manager, and the return to the main
  firmware. The state gathers the statics of the modules it calls; NVS, the Wi-Fi driver, the
  LEDC driver, the partition table and the JSON library are parameters, gathered in \<open>env\<close>.
  A run ends in a restart, in the abort of a failing \<^verbatim>\<open>ESP_ERROR_CHECK\<close>, or (a debug build only)
  in an endless idle loop. The compile-time switches of \<^verbatim>\<open>downloader_config.h\<close> are a record, so that
  both builds are covered.
\<close>

section \<open>Configuration\<close>

record build_cfg =
  FORCE_DOWNLOAD :: bool
  SEED_WIFI_CREDS :: bool
  STAY_IN_DOWNLOADER :: bool
  SKIP_WIFI_SCAN :: bool

definition build_cfg_of :: "bool \<Rightarrow> build_cfg" where
  "build_cfg_of DOWNLOADER_DEV_MODE =
     (if DOWNLOADER_DEV_MODE
      then \<lparr>FORCE_DOWNLOAD = True, SEED_WIFI_CREDS = True, STAY_IN_DOWNLOADER = False, SKIP_WIFI_SCAN = True\<rparr>
      else \<lparr>FORCE_DOWNLOAD = False, SEED_WIFI_CREDS = False, STAY_IN_DOWNLOADER = False, SKIP_WIFI_SCAN = False\<rparr>)"

definition TEST_FOLDER :: string where "TEST_FOLDER = ''mozart''"
definition TEST_WIFI_SSID :: string where "TEST_WIFI_SSID = ''Parcela 41''"
definition TEST_WIFI_PASS :: string where "TEST_WIFI_PASS = ''parcela41wifi''"

definition MAIN_LABEL :: string where "MAIN_LABEL = ''musicbox''"

datatype app_subtype = FACTORY | OTA nat | TEST_APP

definition MAIN_SUB :: app_subtype where "MAIN_SUB = OTA 0"

record part =
  part_label :: string
  part_subtype :: app_subtype

section \<open>State and environment\<close>

text \<open>\<open>parts\<close>: the application partitions in table order; \<open>led_hw\<close>: what the LEDC driver and the
  task creation answer to \<^verbatim>\<open>led_init\<close>.\<close>

record ('w, 'j) env =
  cfg :: build_cfg
  nvs :: "'w nvs_api"
  wapi :: "'w wifi_api"
  fpo :: float_ops
  json :: "'j json_api"
  list_resp :: list_reply
  parts :: "part list"
  set_boot_ret :: esp_err
  led_hw :: "bool \<times> esp_err \<times> esp_err list \<times> bool"

text \<open>\<open>reports\<close> records what the calls of \<^verbatim>\<open>boot_mgr_report_\<close> returned; the code does not look at
  it.\<close>

record 'w app =
  wifi :: "'w wifi_st"
  dev :: dl
  wifi_handle :: wifi_creds_handle_t
  boot_state :: boot_state_t
  bmgr :: boot_mgr
  boot_partition :: "part option"
  reports :: "esp_err list"

datatype outcome = Restart | Abort | Idle

abbreviation world :: "'w app \<Rightarrow> 'w" where "world s \<equiv> ww (wifi s)"

definition on_nvs :: "('w \<Rightarrow> 'w) \<Rightarrow> 'w app \<Rightarrow> 'w app" where
  "on_nvs f s = s\<lparr>wifi := (wifi s)\<lparr>ww := f (world s)\<rparr>\<rparr>"

definition on_led :: "(led_st \<Rightarrow> led_st) \<Rightarrow> 'w app \<Rightarrow> 'w app" where
  "on_led f s = s\<lparr>dev := (dev s)\<lparr>prog := (prog (dev s))\<lparr>led_s := f (led_s (prog (dev s)))\<rparr>\<rparr>\<rparr>"

definition on_bus :: "(sd_st \<Rightarrow> sd_st) \<Rightarrow> 'w app \<Rightarrow> 'w app" where
  "on_bus f s = s\<lparr>dev := (dev s)\<lparr>bus := f (bus (dev s))\<rparr>\<rparr>"

definition led_tick_app :: "('w, 'j) env \<Rightarrow> 'w app \<Rightarrow> 'w app" where
  "led_tick_app en s = s\<lparr>dev := (dev s)\<lparr>prog := led_tick (fpo en) (prog (dev s))\<rparr>\<rparr>"

text \<open>\<^verbatim>\<open>vTaskDelay\<close> while the Wi-Fi driver runs: the events it delivers reach the handler.\<close>

definition wifi_idle :: "('w, 'j) env \<Rightarrow> nat \<Rightarrow> 'w app \<Rightarrow> 'w app" where
  "wifi_idle en ms s =
     (case on_world (wait_events (wapi en) ms) (wifi s) of (es, s1) \<Rightarrow>
        s\<lparr>wifi := snd (deliver (wapi en) es s1)\<rparr>)"

definition report_failure :: "('w, 'j) env \<Rightarrow> download_error_t \<Rightarrow> 'w app \<Rightarrow> 'w app" where
  "report_failure en e s =
     (case boot_mgr_report_failure (nvs en) e (bmgr s) (world s) of (r, b, w) \<Rightarrow>
        (on_nvs (\<lambda>_. w) s)\<lparr>bmgr := b, reports := reports s @ [r]\<rparr>)"

definition report_success :: "('w, 'j) env \<Rightarrow> 'w app \<Rightarrow> 'w app" where
  "report_success en s =
     (case boot_mgr_report_success (nvs en) (bmgr s) (world s) of (r, b, w) \<Rightarrow>
        (on_nvs (\<lambda>_. w) s)\<lparr>bmgr := b, reports := reports s @ [r]\<rparr>)"

section \<open>Debug build: fixed credentials\<close>

definition seed_wifi_credentials :: "'w nvs_api \<Rightarrow> 'w \<Rightarrow> 'w" where
  "seed_wifi_credentials api w =
     (case nvs_open api ''wifi_creds'' NVS_READWRITE w of ((ret, h), w1) \<Rightarrow>
        if ret \<noteq> ESP_OK then w1
        else
          (let w2 = snd (nvs_erase_all api h w1);
               w3 = snd (nvs_set_u8 api h ''count'' 1 w2);
               w4 = snd (nvs_set_str api h ''ssid_0'' TEST_WIFI_SSID w3);
               w5 = snd (nvs_set_str api h ''pass_0'' TEST_WIFI_PASS w4);
               w6 = snd (nvs_commit api h w5)
           in nvs_close api h w6))"

text \<open>The polling loop; the flag: connected.\<close>

fun debug_poll :: "('w, 'j) env \<Rightarrow> nat \<Rightarrow> 'w app \<Rightarrow> bool \<times> 'w app" where
  "debug_poll en 0 s = (False, s)"
| "debug_poll en (Suc n) s =
     (let s1 = wifi_idle en 100 (led_tick_app en s) in
      if fst (esp_wifi_sta_get_ap_info (wapi en) (world s1)) = ESP_OK then (True, s1)
      else debug_poll en n s1)"

definition connect_to_wifi_debug_mode :: "('w, 'j) env \<Rightarrow> 'w app \<Rightarrow> (bool \<times> 'w app) option" where
  "connect_to_wifi_debug_mode en s =
     (case wifi_creds_init (nvs en) (wapi en) (wifi (on_led led_show_wifi_connecting s)) of
        None \<Rightarrow> None
      | Some (ret, hn, w1) \<Rightarrow>
          if ret \<noteq> ESP_OK then None
          else
            (let s1 = (on_led led_show_wifi_connecting s)\<lparr>wifi := w1, wifi_handle := hn\<rparr> in
             case on_world (esp_wifi_set_config (wapi en) (strncpy (zero_buf 32) (TEST_WIFI_SSID @ [NUL]) 32)
                    (strncpy (zero_buf 64) (TEST_WIFI_PASS @ [NUL]) 64)) (wifi s1) of
               (e, w2) \<Rightarrow>
               if e \<noteq> ESP_OK then None
               else
                 (case on_world (esp_wifi_connect (wapi en)) w2 of (e2, w3) \<Rightarrow>
                    if e2 \<noteq> ESP_OK then None
                    else
                      (case debug_poll en 300 (s1\<lparr>wifi := w3\<rparr>) of (ok, s2) \<Rightarrow>
                         if ok
                         then Some (True, wifi_idle en 1000 (on_led (led_show_solid 0 (of_nat LEDC_MAX_DUTY) 0)
                                (s2\<lparr>boot_state := (boot_state s2)\<lparr>last_ssid :=
                                   strncpy (last_ssid (boot_state s2)) (TEST_WIFI_SSID @ [NUL]) 31\<rparr>\<rparr>)))
                         else Some (False, on_led led_show_error s2)))))"

section \<open>Partitions and restart\<close>

definition find_musicbox_partition :: "part list \<Rightarrow> part option" where
  "find_musicbox_partition ps =
     (case List.find (\<lambda>p. part_label p = MAIN_LABEL) ps of
        Some p \<Rightarrow> Some p
      | None \<Rightarrow> List.find (\<lambda>p. part_subtype p = MAIN_SUB) ps)"

definition boot_musicbox_and_restart :: "('w, 'j) env \<Rightarrow> 'w app \<Rightarrow> outcome \<times> 'w app" where
  "boot_musicbox_and_restart en s =
     (if STAY_IN_DOWNLOADER (cfg en) then (Restart, s)
      else
        (case find_musicbox_partition (parts en) of
           None \<Rightarrow> (Restart, s)
         | Some mainp \<Rightarrow>
             if set_boot_ret en \<noteq> ESP_OK then (Abort, s)
             else (Restart, s\<lparr>boot_partition := Some mainp\<rparr>)))"

section \<open>Wi-Fi\<close>

definition CONNECT_TIMEOUT_MS :: nat where "CONNECT_TIMEOUT_MS = 10000"

fun led_ticks :: "('w, 'j) env \<Rightarrow> nat \<Rightarrow> 'w app \<Rightarrow> 'w app" where
  "led_ticks en 0 s = s"
| "led_ticks en (Suc n) s = led_ticks en n (led_tick_app en s)"

text \<open>The short pause between attempts ends early when the connection comes late.\<close>

fun respite :: "('w, 'j) env \<Rightarrow> nat \<Rightarrow> 'w app \<Rightarrow> 'w app" where
  "respite en 0 s = s"
| "respite en (Suc n) s =
     (if wifi_creds_is_connected (wapi en) (world s) then s
      else respite en n (wifi_idle en 100 (led_tick_app en s)))"

fun connect_attempts :: "('w, 'j) env \<Rightarrow> nat \<Rightarrow> esp_err \<Rightarrow> 'w app \<Rightarrow> esp_err \<times> 'w app" where
  "connect_attempts en 0 ret s = (ret, s)"
| "connect_attempts en (Suc n) ret s =
     (if ret = ESP_OK then (ret, s)
      else
        (case wifi_creds_wait_for_connection (wapi en) CONNECT_TIMEOUT_MS (wifi s) of (ret1, w1) \<Rightarrow>
           if ret1 = ESP_OK then (ret1, s\<lparr>wifi := w1\<rparr>)
           else
             (let s2 = respite en 10 (s\<lparr>wifi := w1\<rparr>) in
              connect_attempts en n
                (if wifi_creds_is_connected (wapi en) (world s2) then ESP_OK else ret1) s2)))"

text \<open>The networks saved by the main firmware.\<close>

definition second_source :: "('w, 'j) env \<Rightarrow> esp_err \<Rightarrow> 'w app \<Rightarrow> esp_err \<times> 'w app" where
  "second_source en ret s =
     (if ret = ESP_OK then (ret, s)
      else
        (let s1 = on_led led_show_wifi_connecting s in
         case wifi_creds_load (nvs en) (wifi_handle s1) (wifi s1) of (e, hn, w1) \<Rightarrow>
           (let s2 = s1\<lparr>wifi_handle := hn, wifi := w1\<rparr> in
            if e = ESP_OK \<and> net_count hn > 0
            then (case wifi_creds_connect_best (wapi en) 20000 hn (wifi s2) of (r, hn2, w2) \<Rightarrow>
                    (r, s2\<lparr>wifi_handle := hn2, wifi := w2\<rparr>))
            else (ret, s2))))"

text \<open>\<open>None\<close>: a failing \<^verbatim>\<open>ESP_ERROR_CHECK\<close> of \<^verbatim>\<open>wifi_creds_init\<close>.\<close>

definition connect_to_wifi_with_feedback :: "('w, 'j) env \<Rightarrow> 'w app \<Rightarrow> (bool \<times> 'w app) option" where
  "connect_to_wifi_with_feedback en s =
     (if SKIP_WIFI_SCAN (cfg en) \<and> SEED_WIFI_CREDS (cfg en) then connect_to_wifi_debug_mode en s
      else
        (let s1 = led_ticks en 20 (on_led led_show_wifi_connecting s) in
         case wifi_creds_init (nvs en) (wapi en) (wifi s1) of
           None \<Rightarrow> None
         | Some (e, hn, w1) \<Rightarrow>
             (let s2 = s1\<lparr>wifi := w1, wifi_handle := hn\<rparr> in
              if e \<noteq> ESP_OK then Some (False, on_led led_show_error s2)
              else
                (case connect_attempts en 3 ESP_FAIL s2 of (ret, s3) \<Rightarrow>
                   (case second_source en ret s3 of (ret2, s4) \<Rightarrow>
                      if ret2 \<noteq> ESP_OK then Some (False, on_led led_show_error s4)
                      else
                        (let ssid = snd (wifi_creds_get_current_ssid (wapi en) (zero_buf 33) 33 (world s4));
                             s5 = s4\<lparr>boot_state := (boot_state s4)\<lparr>last_ssid :=
                                    strncpy (last_ssid (boot_state s4)) ssid 31\<rparr>\<rparr>
                         in Some (True, wifi_idle en 500 (on_led (led_show_solid 0 (of_nat LEDC_MAX_DUTY) 0) s5))))))))"

section \<open>Download\<close>

text \<open>The colours of the success animation.\<close>

definition success_color :: "nat \<Rightarrow> led_st \<Rightarrow> led_st" where
  "success_color i l =
     (let h = (i * 12) mod 360; m = of_nat LEDC_MAX_DUTY :: u16 in
      led_set_color (if h < 120 then m else 0) (if 120 \<le> h \<and> h < 240 then m else 0) (if 240 \<le> h then m else 0) l)"

definition handle_download_with_retry :: "('w, 'j) env \<Rightarrow> 'w app \<Rightarrow> bool \<times> 'w app" where
  "handle_download_with_retry en s =
     (let s1 = on_bus force_clean_sd_bus (on_led led_show_downloading s) in
      case mount_sd ''/sdcard'' (bus (dev s1)) of (mounted, b) \<Rightarrow>
        (let s2 = on_bus (\<lambda>_. b) s1 in
         if \<not> mounted
         then (False, report_failure en DOWNLOAD_ERROR_SD_CARD
                (on_bus (unmount_sd ''/sdcard'' False) (wifi_idle en 2000 (on_led led_show_error s2))))
         else
           (case download_simi_folder (fpo en) (json en) (list_resp en) (cstr (folder (boot_state s2))) False (dev s2) of
              (success, sd_failed, d) \<Rightarrow>
              (let s3 = wifi_idle en 1000 (on_bus (unmount_sd ''/sdcard'' (\<not> sd_failed)) (s2\<lparr>dev := d\<rparr>)) in
               if success
               then (True, on_led (\<lambda>l. fold success_color [0..<30] l) (wifi_idle en 2000 (on_led led_show_success s3)))
               else (False, report_failure en
                      (if sd_failed then DOWNLOAD_ERROR_SD_CARD else DOWNLOAD_ERROR_DOWNLOAD_FAILED)
                      (led_ticks en 10 (on_led led_show_error s3)))))))"

section \<open>Start-up\<close>

definition nvs_erase_namespace :: "'w nvs_api \<Rightarrow> string \<Rightarrow> 'w \<Rightarrow> 'w" where
  "nvs_erase_namespace api n w =
     (case nvs_open api n NVS_READWRITE w of ((e, h), w1) \<Rightarrow>
        if e = ESP_OK then nvs_close api h (snd (nvs_commit api h (snd (nvs_erase_all api h w1)))) else w1)"

definition erase_safe_namespaces :: "'w nvs_api \<Rightarrow> 'w \<Rightarrow> 'w" where
  "erase_safe_namespaces api w =
     nvs_erase_namespace api ''known_nets'' (nvs_erase_namespace api ''wifi_creds''
       (nvs_erase_namespace api ''bootmgr'' w))"

text \<open>\<open>None\<close>: a failing \<^verbatim>\<open>ESP_ERROR_CHECK\<close>.\<close>

definition nvs_startup :: "'w nvs_api \<Rightarrow> 'w \<Rightarrow> 'w option" where
  "nvs_startup api w =
     (case nvs_flash_init api w of (err, w1) \<Rightarrow>
        if err = ESP_ERR_NVS_NO_FREE_PAGES \<or> err = ESP_ERR_NVS_NEW_VERSION_FOUND
        then
          (case nvs_flash_init api (erase_safe_namespaces api w1) of (err2, w2) \<Rightarrow>
             if err2 = ESP_OK then Some w2
             else
               (case nvs_flash_erase api w2 of (e3, w3) \<Rightarrow>
                  if e3 \<noteq> ESP_OK then None
                  else (case nvs_flash_init api w3 of (e4, w4) \<Rightarrow> if e4 \<noteq> ESP_OK then None else Some w4)))
        else Some w1)"

definition set_boot_count :: "'w nvs_api \<Rightarrow> u8 \<Rightarrow> 'w \<Rightarrow> 'w" where
  "set_boot_count api n w =
     (case nvs_open api SIMIBOX_NVS_NAMESPACE NVS_READWRITE w of ((e, h), w1) \<Rightarrow>
        if e = ESP_OK
        then nvs_close api h (snd (nvs_commit api h (snd (nvs_set_u8 api h NVS_KEY_BOOT_COUNT n w1))))
        else w1)"

text \<open>The counter of this boot; \<open>None\<close> when the namespace cannot be opened.\<close>

definition bump_boot_count :: "'w nvs_api \<Rightarrow> 'w \<Rightarrow> u8 option \<times> 'w" where
  "bump_boot_count api w =
     (case nvs_open api SIMIBOX_NVS_NAMESPACE NVS_READWRITE w of ((e, h), w1) \<Rightarrow>
        if e \<noteq> ESP_OK then (None, w1)
        else
          (let boot_count = get_u8_into api h NVS_KEY_BOOT_COUNT w1 0 + 1 in
           (Some boot_count,
            nvs_close api h (snd (nvs_commit api h (snd (nvs_set_u8 api h NVS_KEY_BOOT_COUNT boot_count w1)))))))"

definition app_led_init :: "('w, 'j) env \<Rightarrow> 'w app \<Rightarrow> 'w app option" where
  "app_led_init en s =
     (case led_hw en of (mutex_ok, timer, chans, created) \<Rightarrow>
        map_option (\<lambda>(_, l). on_led (\<lambda>_. l) s) (led_init mutex_ok timer chans created (led_s (prog (dev s)))))"

text \<open>Too many boots without a completed download: reset the counter and leave.\<close>

definition give_up :: "('w, 'j) env \<Rightarrow> 'w app \<Rightarrow> outcome \<times> 'w app" where
  "give_up en s =
     (case app_led_init en (on_nvs (set_boot_count (nvs en) 0) s) of
        None \<Rightarrow> (Abort, on_nvs (set_boot_count (nvs en) 0) s)
      | Some s1 \<Rightarrow> boot_musicbox_and_restart en (led_ticks en 30 (on_led led_show_error s1)))"

text \<open>From the guards on.\<close>

definition run_request :: "('w, 'j) env \<Rightarrow> 'w app \<Rightarrow> outcome \<times> 'w app" where
  "run_request en s =
     (if \<not> boot_mgr_needs_download (bmgr s) then boot_musicbox_and_restart en s
      else if retry_count (boot_state s) \<ge> 3
      then boot_musicbox_and_restart en (on_led led_show_error (report_failure en DOWNLOAD_ERROR_DOWNLOAD_FAILED s))
      else
        (case connect_to_wifi_with_feedback en s of
           None \<Rightarrow> (Abort, s)
         | Some (online, s1) \<Rightarrow>
             if \<not> online
             then boot_musicbox_and_restart en (wifi_idle en 3000 (report_failure en DOWNLOAD_ERROR_WIFI_CONNECT s1))
             else
               (case handle_download_with_retry en s1 of (success, s2) \<Rightarrow>
                  if success
                  then
                    (let s3 = on_nvs (set_boot_count (nvs en) 0) (report_success en s2) in
                     if STAY_IN_DOWNLOADER (cfg en) then (Idle, on_led led_show_success s3)
                     else boot_musicbox_and_restart en s3)
                  else boot_musicbox_and_restart en (wifi_idle en 2000 s2))))"

text \<open>Between the boot counter and the guards.\<close>

definition load_request :: "('w, 'j) env \<Rightarrow> 'w app \<Rightarrow> 'w app option" where
  "load_request en s =
     (case app_led_init en s of
        None \<Rightarrow> None
      | Some s1 \<Rightarrow>
          (let s2 = on_led (led_set_color (of_nat LEDC_MAX_DUTY) 0 (of_nat LEDC_MAX_DUTY)) s1 in
           case boot_mgr_init (nvs en) (bmgr s2) (world s2) of (e, b, w) \<Rightarrow>
             if e \<noteq> ESP_OK then None
             else
               (case boot_mgr_load_state (nvs en) (Some (boot_state s2)) b w of (e2, st, b2) \<Rightarrow>
                  if e2 \<noteq> ESP_OK then None
                  else
                    (let s3 = (on_nvs (\<lambda>_. w) s2)\<lparr>bmgr := b2, boot_state := the st\<rparr> in
                     if FORCE_DOWNLOAD (cfg en)
                     then
                       (case boot_mgr_request_download (nvs en) (Some (TEST_FOLDER @ [NUL])) 0 (bmgr s3) (world s3) of
                          (_, b4, w4) \<Rightarrow>
                          (case boot_mgr_load_state (nvs en) (Some (boot_state s3)) b4 w4 of (_, st5, b5) \<Rightarrow>
                             Some ((on_nvs (\<lambda>_. w4) s3)\<lparr>bmgr := b5, boot_state := the st5\<rparr>)))
                     else Some s3))))"

definition app_main :: "('w, 'j) env \<Rightarrow> 'w app \<Rightarrow> outcome \<times> 'w app" where
  "app_main en s =
     (case nvs_startup (nvs en) (world s) of
        None \<Rightarrow> (Abort, s)
      | Some w1 \<Rightarrow>
          (let w2 = (if SEED_WIFI_CREDS (cfg en) then seed_wifi_credentials (nvs en) w1 else w1);
               (boot_count, w3) = bump_boot_count (nvs en) w2;
               s1 = on_nvs (\<lambda>_. w3) s
           in if (case boot_count of None \<Rightarrow> False | Some c \<Rightarrow> c \<ge> MAX_BOOT_FAILURES) then give_up en s1
              else
                (case load_request en s1 of
                   None \<Rightarrow> (Abort, s1)
                 | Some s2 \<Rightarrow> run_request en s2)))"

section \<open>Wi-Fi and the boot namespace\<close>

text \<open>The boot protocol in NVS is untouched: its values stay, and handles open on it stay open.\<close>

definition keeps_boot ::
  "('w \<Rightarrow> nvs_handle \<Rightarrow> string option) \<Rightarrow> ('w \<Rightarrow> string \<Rightarrow> string \<Rightarrow> nvs_value option) \<Rightarrow> 'w \<Rightarrow> 'w \<Rightarrow> bool" where
  "keeps_boot ns val w w' \<longleftrightarrow>
     (\<forall>k. val w' SIMIBOX_NVS_NAMESPACE k = val w SIMIBOX_NVS_NAMESPACE k) \<and>
     (\<forall>h. ns w h = Some SIMIBOX_NVS_NAMESPACE \<longrightarrow> ns w' h = Some SIMIBOX_NVS_NAMESPACE)"

lemma keeps_boot_refl [simp]: "keeps_boot ns val w w"
  by (simp add: keeps_boot_def)

lemma keeps_boot_trans: "keeps_boot ns val a b \<Longrightarrow> keeps_boot ns val b c \<Longrightarrow> keeps_boot ns val a c"
  by (simp add: keeps_boot_def)

text \<open>What the program relies on: the Wi-Fi driver stores its own data elsewhere in NVS, and a
  second \<^verbatim>\<open>nvs_flash_init\<close> closes no handle.\<close>

locale wifi_world = nvs_store api ns val
  for api :: "'w nvs_api" and ns :: "'w \<Rightarrow> nvs_handle \<Rightarrow> string option"
    and val :: "'w \<Rightarrow> string \<Rightarrow> string \<Rightarrow> nvs_value option" +
  fixes drv :: "'w wifi_api"
  assumes init_ns: "nvs_flash_init api w = (e, w') \<Longrightarrow> ns w' = ns w"
    and setup_kb: "keeps_boot ns val w (snd (wifi_setup drv op w))"
    and connect_kb: "keeps_boot ns val w (snd (esp_wifi_connect drv w))"
    and disconnect_kb: "keeps_boot ns val w (snd (esp_wifi_disconnect drv w))"
    and config_kb: "keeps_boot ns val w (snd (esp_wifi_set_config drv a b w))"
    and scan_kb: "keeps_boot ns val w (snd (esp_wifi_scan_start drv w))"
    and records_kb: "keeps_boot ns val w (snd (esp_wifi_scan_get_ap_records drv n w))"
    and events_kb: "keeps_boot ns val w (snd (wait_events drv t w))"
begin

abbreviation kb :: "'w wifi_st \<Rightarrow> 'w wifi_st \<Rightarrow> bool" where
  "kb s t \<equiv> keeps_boot ns val (ww s) (ww t)"

lemmas kb_trans = keeps_boot_trans [of ns val]
lemmas kb_calls = setup_kb connect_kb disconnect_kb config_kb scan_kb records_kb events_kb

lemma on_world_ww: "on_world f s = (r, t) \<Longrightarrow> ww t = snd (f (ww s))"
  by (auto simp: on_world_def split: prod.splits)

lemma snd_on_world_ww: "ww (snd (on_world f s)) = snd (f (ww s))"
  by (simp add: on_world_def split: prod.splits)

lemma kb_handler: "kb s (wifi_event_handler drv e s)"
  by (cases e) (simp_all add: Let_def snd_on_world_ww connect_kb)

lemma kb_deliver: "deliver drv es s = (b, t) \<Longrightarrow> kb s t"
proof (induction es arbitrary: s b)
  case (Cons e es)
  obtain b1 where "deliver drv es (wifi_event_handler drv e s) = (b1, t)"
    using Cons.prems by (auto simp: Let_def split: prod.splits)
  from Cons.IH [OF this] show ?case using kb_trans [OF kb_handler] by blast
qed simp

lemma kb_wait_connected:
  assumes "wait_connected drv n s = (b, t)"
  shows "kb s t"
proof -
  obtain es s1 where o: "on_world (wait_events drv n) s = (es, s1)" by fastforce
  have "kb s s1" using on_world_ww [OF o] events_kb by simp
  then show ?thesis
    using assms kb_deliver [of es s1 b t] kb_trans by (auto simp: wait_connected_def o split: if_splits)
qed

lemma kb_wait_for_connection:
  assumes "wifi_creds_wait_for_connection drv n s = (e, t)"
  shows "kb s t"
proof -
  let ?s1 = "snd (on_world (esp_wifi_connect drv) (s\<lparr>s_is_connecting := True\<rparr>))"
  obtain b s2 where w: "wait_connected drv n ?s1 = (b, s2)" by fastforce
  have "kb s ?s1" by (simp add: snd_on_world_ww connect_kb)
  then have "kb s s2" using kb_trans kb_wait_connected [OF w] by blast
  then show ?thesis using assms w by (auto simp: wifi_creds_wait_for_connection_def Let_def split: if_splits)
qed

lemma kb_run_checked: "run_checked drv acts s = Some t \<Longrightarrow> kb s t"
proof (induction acts arbitrary: s)
  case (Cons act acts)
  obtain e s1 where o: "on_world (wifi_setup drv act) s = (e, s1)" by fastforce
  have "kb s s1" using on_world_ww [OF o] setup_kb by simp
  moreover have "run_checked drv acts s1 = Some t" using Cons.prems o by (auto split: if_splits)
  ultimately show ?case using Cons.IH kb_trans by blast
qed simp

lemma kb_init:
  assumes "wifi_creds_init api drv s = Some (e, h, t)"
  shows "kb s t"
proof -
  define s1 where "s1 = snd (on_world (nvs_flash_init api) s)"
  have k1: "kb s s1"
    using init_val [of "ww s"] init_ns [of "ww s"]
    by (cases "nvs_flash_init api (ww s)") (simp add: s1_def snd_on_world_ww keeps_boot_def)
  obtain s2 where s2: "run_checked drv [NETIF_INIT, EVENT_LOOP, CREATE_STA, WIFI_INIT] s1 = Some s2"
    using assms unfolding wifi_creds_init_def Let_def s1_def [symmetric] by (auto split: option.splits)
  obtain s4 where s4: "run_checked drv [REGISTER_WIFI, REGISTER_IP, SET_MODE_STA, SET_PS_NONE, SET_BW_HT40,
      SET_PROTOCOL_BGN, WIFI_START] (s2\<lparr>connected_bit := False, disconnected_bit := False\<rparr>) = Some s4"
      "t = s4\<lparr>s_wifi_initialized := True\<rparr>"
    using assms s2 unfolding wifi_creds_init_def Let_def s1_def [symmetric] by (auto split: option.splits)
  have "keeps_boot ns val (ww s2) (ww t)" using kb_run_checked [OF s4(1)] s4(2) by simp
  then show ?thesis by (rule kb_trans [OF kb_trans [OF k1 kb_run_checked [OF s2]]])
qed

lemma kb_load:
  assumes "wifi_creds_load api hn s = (e, hn', t)"
  shows "kb s t"
proof (cases "initialized hn")
  case False
  then show ?thesis using assms by (auto simp: wifi_creds_load_def)
next
  case True
  obtain e1 h s1 where o: "on_world (nvs_open api CREDS_NAMESPACE NVS_READONLY) s = ((e1, h), s1)"
    by (metis prod_cases3 surj_pair)
  obtain w1 where w1: "nvs_open api CREDS_NAMESPACE NVS_READONLY (ww s) = ((e1, h), w1)" "ww s1 = w1"
    using o by (auto simp: on_world_def split: prod.splits)
  have k1: "kb s s1" using open_val [OF w1(1)] open_others [OF w1(1)] w1(2) by (simp add: keeps_boot_def)
  have "keeps_boot ns val (ww s1) (nvs_close api h (ww s1))" if "e1 = ESP_OK"
  proof -
    have "ns w1 h = Some CREDS_NAMESPACE" using open_handle w1(1) that by blast
    then have "ns w1 h' = Some SIMIBOX_NVS_NAMESPACE \<Longrightarrow> h' \<noteq> h" for h'
      by (auto simp: CREDS_NAMESPACE_def SIMIBOX_NVS_NAMESPACE_def)
    then show ?thesis using w1(2) close_val close_others by (auto simp: keeps_boot_def)
  qed
  then have "keeps_boot ns val (ww s) (nvs_close api h (ww s1))" if "e1 = ESP_OK" using kb_trans k1 that by blast
  then show ?thesis
    using assms True o k1 by (auto simp: wifi_creds_load_def split: if_splits prod.splits)
qed

lemma kb_scan:
  assumes "wifi_creds_scan_and_match drv hn s = (e, hn', t)"
  shows "kb s t"
proof -
  obtain e1 s1 where o: "on_world (esp_wifi_scan_start drv) s = (e1, s1)" by fastforce
  obtain r s2 where o2: "on_world (esp_wifi_scan_get_ap_records drv WIFI_SCAN_MAX_AP) s1 = (r, s2)" by fastforce
  have k1: "kb s s1" using on_world_ww [OF o] scan_kb by simp
  have "kb s1 s2" using on_world_ww [OF o2] records_kb by simp
  then have "kb s s2" using kb_trans k1 by blast
  moreover have "t \<in> {s, s1, s2}"
    using assms o o2 by (auto simp: wifi_creds_scan_and_match_def Let_def split: if_splits prod.splits)
  ultimately show ?thesis using k1 by auto
qed

lemma kb_try_network:
  assumes "try_network drv ms n s = (ok, t)"
  shows "kb s t"
proof (cases "net_rssi n \<le> - 100")
  case True
  then show ?thesis using assms by (auto simp: try_network_def)
next
  case False
  define s0 where "s0 = s\<lparr>tried := tried s @ [n]\<rparr>"
  define s1 where "s1 = snd (on_world (esp_wifi_disconnect drv) s0)"
  obtain e s2 where o2: "on_world (esp_wifi_set_config drv (sta_ssid n) (sta_password n)) s1 = (e, s2)" by fastforce
  obtain e2 s3 where o3: "on_world (esp_wifi_connect drv) s2 = (e2, s3)" by fastforce
  define s4 where "s4 = snd (on_world (wifi_setup drv SET_PS_NONE) s3)"
  define s5 where "s5 = snd (on_world (wifi_setup drv SET_BW_HT40) s4)"
  obtain b s6 where w: "wait_connected drv ms (s5\<lparr>connected_bit := False\<rparr>) = (b, s6)" by fastforce
  have k2: "kb s s2"
    using kb_trans [OF disconnect_kb config_kb, of "ww s"] on_world_ww [OF o2]
    by (simp add: s1_def s0_def snd_on_world_ww)
  have k3: "kb s s3" using kb_trans [OF k2 connect_kb] on_world_ww [OF o3] by simp
  have "kb s s5" using kb_trans [OF kb_trans [OF k3 setup_kb] setup_kb] by (simp add: s5_def s4_def snd_on_world_ww)
  then have k6: "kb s s6" using kb_trans kb_wait_connected [OF w] by simp
  have "t \<in> {s2, s3, s6}"
    using assms False unfolding try_network_def Let_def s0_def [symmetric] s1_def [symmetric] o2 prod.case o3
      s4_def [symmetric] s5_def [symmetric] w by (auto split: if_splits)
  then show ?thesis using k2 k3 k6 by auto
qed

lemma kb_try_networks: "try_networks drv ms nets s = (ok, t) \<Longrightarrow> kb s t"
proof (induction nets arbitrary: s)
  case (Cons n nets)
  obtain b s1 where t: "try_network drv ms n s = (b, s1)" by fastforce
  show ?case using Cons.prems Cons.IH [of s1] t kb_try_network [OF t] kb_trans by (auto split: if_splits)
qed simp

lemma kb_connect_best:
  assumes "wifi_creds_connect_best drv ms hn s = (e, hn', t)"
  shows "kb s t"
proof -
  obtain r hn1 s1 where sc: "wifi_creds_scan_and_match drv hn s = (r, hn1, s1)" by (metis prod_cases3)
  let ?hn2 = "hn1\<lparr>networks := blind_first (net_count hn1) (networks hn1)\<rparr>"
  obtain ok s3 where tn: "try_networks drv (ms div net_count ?hn2) (take (net_count ?hn2) (networks ?hn2))
      (s1\<lparr>s_is_connecting := True\<rparr>) = (ok, s3)" by fastforce
  have "kb s1 s3" using kb_try_networks [OF tn] by simp
  then have "kb s s3" using kb_trans kb_scan [OF sc] by blast
  moreover have "ww t \<in> {ww s, ww s3}"
    using assms sc tn by (auto simp: wifi_creds_connect_best_def Let_def split: if_splits)
  ultimately show ?thesis by auto
qed

end

section \<open>What a run does to the boot protocol\<close>

text \<open>The boot protocol, the boot manager's statics and the record of reports are as before.\<close>

definition steady ::
  "('w \<Rightarrow> nvs_handle \<Rightarrow> string option) \<Rightarrow> ('w \<Rightarrow> string \<Rightarrow> string \<Rightarrow> nvs_value option) \<Rightarrow> 'w app \<Rightarrow> 'w app \<Rightarrow> bool" where
  "steady ns val s t \<longleftrightarrow> keeps_boot ns val (world s) (world t) \<and> bmgr t = bmgr s \<and> reports t = reports s"

lemma steady_trans: "steady ns val a b \<Longrightarrow> steady ns val b c \<Longrightarrow> steady ns val a c"
  unfolding steady_def using keeps_boot_trans by metis

lemma steady_local [simp]:
  "steady ns val s s" "steady ns val s (on_led f s)" "steady ns val s (on_bus g s)" "steady ns val s (led_tick_app en s)"
  "steady ns val s (s\<lparr>dev := d\<rparr>)" "steady ns val s (s\<lparr>boot_state := b\<rparr>)" "steady ns val s (s\<lparr>wifi_handle := h\<rparr>)"
  by (simp_all add: steady_def on_led_def on_bus_def led_tick_app_def)

lemma steady_ticks [simp]: "steady ns val s (led_ticks en n s)"
proof (induction n arbitrary: s)
  case (Suc n)
  show ?case using steady_trans [OF steady_local(4) Suc.IH] by simp
qed simp

lemma world_local [simp]:
  "wifi (on_led f s) = wifi s" "wifi (on_bus g s) = wifi s" "wifi (led_tick_app en s) = wifi s"
  "bmgr (on_led f s) = bmgr s" "reports (on_led f s) = reports s" "dev (on_nvs h s) = dev s"
  "bmgr (on_nvs h s) = bmgr s" "reports (on_nvs h s) = reports s" "world (on_nvs h s) = h (world s)"
  by (simp_all add: on_led_def on_bus_def led_tick_app_def on_nvs_def)

text \<open>The states a report leaves in NVS for a request \<open>st0\<close>.\<close>

definition answer_of :: "boot_state_t \<Rightarrow> boot_state_t \<Rightarrow> bool" where
  "answer_of st0 st \<longleftrightarrow> folder st = folder st0 \<and>
     (reason st = BOOT_REASON_DOWNLOAD_SUCCESS \<and> last_error st = DOWNLOAD_ERROR_NONE \<and>
        download_progress st = 100 \<and> retry_count st = retry_count st0 \<or>
      reason st = BOOT_REASON_DOWNLOAD_FAILED \<and> retry_count st = retry_count st0 + 1 \<and>
        last_error st \<in> {DOWNLOAD_ERROR_WIFI_CONNECT, DOWNLOAD_ERROR_SD_CARD, DOWNLOAD_ERROR_DOWNLOAD_FAILED})"

definition answered ::
  "('w \<Rightarrow> string \<Rightarrow> string \<Rightarrow> nvs_value option) \<Rightarrow> 'w app \<Rightarrow> 'w app \<Rightarrow> bool" where
  "answered val s t \<longleftrightarrow>
     answer_of (g_current_state (bmgr s)) (g_current_state (bmgr t)) \<and>
     (\<exists>r. reports t = reports s @ [r] \<and> (r = ESP_OK \<longrightarrow> nvs_mirrors val (world t) (g_current_state (bmgr t))))"

lemma save_state_current:
  "boot_mgr_save_state api (Some st) b w = (r, b', w') \<Longrightarrow> g_current_state b = st \<Longrightarrow> g_current_state b' = st"
  by (auto simp: boot_mgr_save_state_def split: if_splits prod.splits)

lemma restart_frame:
  "boot_musicbox_and_restart en s = (oc, t) \<Longrightarrow> wifi t = wifi s \<and> reports t = reports s \<and> bmgr t = bmgr s \<and> dev t = dev s"
  by (auto simp: boot_musicbox_and_restart_def split: if_splits option.splits)

lemma answered_cong:
  "answered val s t \<Longrightarrow> reports u = reports t \<Longrightarrow> bmgr u = bmgr t \<Longrightarrow> (\<And>k. val (world u) SIMIBOX_NVS_NAMESPACE k = val (world t) SIMIBOX_NVS_NAMESPACE k) \<Longrightarrow>
     answered val s u"
  unfolding answered_def nvs_mirrors_iff by simp

lemma answered_from: "steady ns val s u \<Longrightarrow> answered val u t \<Longrightarrow> answered val s t"
  by (simp add: answered_def steady_def)

lemma steady_bm_open: "steady ns val s t \<Longrightarrow> bm_open ns (bmgr s) (world s) \<Longrightarrow> bm_open ns (bmgr t) (world t)"
  by (simp add: steady_def bm_open_def keeps_boot_def)

context wifi_world
begin

lemma report_failure_answers:
  assumes "nvs en = api" and "bm_open ns (bmgr s) (world s)"
    and "e \<in> {DOWNLOAD_ERROR_WIFI_CONNECT, DOWNLOAD_ERROR_SD_CARD, DOWNLOAD_ERROR_DOWNLOAD_FAILED}"
  shows "answered val s (report_failure en e s)"
proof -
  let ?st = "(g_current_state (bmgr s))\<lparr>reason := BOOT_REASON_DOWNLOAD_FAILED, last_error := e,
                   retry_count := retry_count (g_current_state (bmgr s)) + 1\<rparr>"
  let ?b = "(bmgr s)\<lparr>g_current_state := ?st\<rparr>"
  obtain r b w where sv: "boot_mgr_save_state api (Some ?st) ?b (world s) = (r, b, w)" by (metis prod_cases3)
  have open': "bm_open ns ?b (world s)" using assms(2) by (simp add: bm_open_def)
  have eq: "report_failure en e s = (on_nvs (\<lambda>_. w) s)\<lparr>bmgr := b, reports := reports s @ [r]\<rparr>"
    using sv assms(1) by (simp add: report_failure_def boot_mgr_report_failure_def Let_def)
  have "g_current_state b = ?st" using save_state_current [OF sv] by simp
  moreover have "r = ESP_OK \<Longrightarrow> nvs_mirrors val w ?st" using save_state_ok(1) [OF open'] sv by simp
  moreover have "answer_of (g_current_state (bmgr s)) ?st" using assms(3) by (simp add: answer_of_def)
  ultimately show ?thesis unfolding eq answered_def by auto
qed

lemma report_success_answers:
  assumes "nvs en = api" and "bm_open ns (bmgr s) (world s)"
  shows "answered val s (report_success en s)"
proof -
  let ?st = "(g_current_state (bmgr s))\<lparr>reason := BOOT_REASON_DOWNLOAD_SUCCESS, last_error := DOWNLOAD_ERROR_NONE,
                   download_progress := 100\<rparr>"
  let ?b = "(bmgr s)\<lparr>g_current_state := ?st\<rparr>"
  obtain r b w where sv: "boot_mgr_save_state api (Some ?st) ?b (world s) = (r, b, w)" by (metis prod_cases3)
  have open': "bm_open ns ?b (world s)" using assms(2) by (simp add: bm_open_def)
  have eq: "report_success en s = (on_nvs (\<lambda>_. w) s)\<lparr>bmgr := b, reports := reports s @ [r]\<rparr>"
    using sv assms(1) by (simp add: report_success_def boot_mgr_report_success_def Let_def)
  have "g_current_state b = ?st" using save_state_current [OF sv] by simp
  moreover have "r = ESP_OK \<Longrightarrow> nvs_mirrors val w ?st" using save_state_ok(1) [OF open'] sv by simp
  moreover have "answer_of (g_current_state (bmgr s)) ?st" by (simp add: answer_of_def)
  ultimately show ?thesis unfolding eq answered_def by auto
qed

lemma set_boot_count_val:
  assumes "k \<noteq> NVS_KEY_BOOT_COUNT"
  shows "val (set_boot_count api n w) SIMIBOX_NVS_NAMESPACE k = val w SIMIBOX_NVS_NAMESPACE k"
proof -
  obtain e h w1 where o: "nvs_open api SIMIBOX_NVS_NAMESPACE NVS_READWRITE w = ((e, h), w1)" by (metis surj_pair)
  obtain e2 w2 where p: "nvs_set_u8 api h NVS_KEY_BOOT_COUNT n w1 = (e2, w2)" by fastforce
  obtain e3 w3 where c: "nvs_commit api h w2 = (e3, w3)" by fastforce
  have "e = ESP_OK \<Longrightarrow> val w2 SIMIBOX_NVS_NAMESPACE k = val w1 SIMIBOX_NVS_NAMESPACE k"
    using put_other [of w1 h SIMIBOX_NVS_NAMESPACE NVS_KEY_BOOT_COUNT "NvsU8 n"] open_handle o p assms by auto
  then show ?thesis
    using open_val [OF o] commit_val [OF c] close_val by (simp add: set_boot_count_def o p c)
qed

lemma set_boot_count_mirrors: "nvs_mirrors val w st \<Longrightarrow> nvs_mirrors val (set_boot_count api n w) st"
  unfolding nvs_mirrors_iff by (simp add: set_boot_count_val nvs_key_defs)

lemma steady_idle:
  assumes "wapi en = drv"
  shows "steady ns val s (wifi_idle en ms s)"
proof -
  obtain es s1 where o: "on_world (wait_events drv ms) (wifi s) = (es, s1)" by fastforce
  obtain b t where d: "deliver drv es s1 = (b, t)" by fastforce
  have "keeps_boot ns val (ww (wifi s)) (ww s1)" using on_world_ww [OF o] events_kb by simp
  then have "keeps_boot ns val (ww (wifi s)) (ww t)" using kb_deliver [OF d] kb_trans by blast
  then show ?thesis using assms o d by (simp add: wifi_idle_def steady_def)
qed

lemma steady_respite: "wapi en = drv \<Longrightarrow> steady ns val s (respite en n s)"
proof (induction n arbitrary: s)
  case (Suc n)
  have "steady ns val s (respite en n (wifi_idle en 100 (led_tick_app en s)))"
    using steady_trans [OF steady_trans [OF steady_local(4) steady_idle [OF Suc.prems]] Suc.IH [OF Suc.prems]] .
  then show ?case by simp
qed simp

lemma steady_wifi: "kb (wifi s) w \<Longrightarrow> steady ns val s (s\<lparr>wifi := w\<rparr>)"
  by (simp add: steady_def)

lemma steady_attempts: "wapi en = drv \<Longrightarrow> connect_attempts en n r s = (r', t) \<Longrightarrow> steady ns val s t"
proof (induction n arbitrary: r s)
  case (Suc n)
  obtain r1 w1 where w: "wifi_creds_wait_for_connection drv CONNECT_TIMEOUT_MS (wifi s) = (r1, w1)" by fastforce
  have s1: "steady ns val s (s\<lparr>wifi := w1\<rparr>)" using steady_wifi kb_wait_for_connection [OF w] by blast
  define s2 where "s2 = respite en 10 (s\<lparr>wifi := w1\<rparr>)"
  have s2: "steady ns val s s2" unfolding s2_def using steady_trans s1 steady_respite Suc.prems(1) by blast
  have "(r', t) = (if r = ESP_OK then (r, s) else if r1 = ESP_OK then (r1, s\<lparr>wifi := w1\<rparr>)
      else connect_attempts en n (if wifi_creds_is_connected drv (world s2) then ESP_OK else r1) s2)"
    using Suc.prems(2) unfolding connect_attempts.simps Suc.prems(1) w prod.case Let_def s2_def [symmetric] by simp
  then consider "t = s" | "t = s\<lparr>wifi := w1\<rparr>"
    | "connect_attempts en n (if wifi_creds_is_connected drv (world s2) then ESP_OK else r1) s2 = (r', t)"
    by (metis prod.inject)
  then show ?case
  proof cases
    case 3
    from Suc.IH [OF Suc.prems(1) this] show ?thesis using s2 steady_trans by blast
  qed (use s1 in simp_all)
qed simp

end

context wifi_world
begin

lemma steady_second:
  assumes "nvs en = api" "wapi en = drv" and "second_source en r s = (r', t)"
  shows "steady ns val s t"
proof (cases "r = ESP_OK")
  case True
  then show ?thesis using assms(3) by (simp add: second_source_def)
next
  case False
  define s1 where "s1 = on_led led_show_wifi_connecting s"
  obtain e hn w1 where l: "wifi_creds_load api (wifi_handle s1) (wifi s1) = (e, hn, w1)" by (metis prod_cases3)
  define s2 where "s2 = s1\<lparr>wifi_handle := hn, wifi := w1\<rparr>"
  obtain r2 hn2 w2 where b: "wifi_creds_connect_best drv 20000 hn (wifi s2) = (r2, hn2, w2)" by (metis prod_cases3)
  have k1: "kb (wifi s) w1" using kb_load [OF l] by (simp add: s1_def)
  have k2: "kb (wifi s) w2" using kb_trans [OF k1] kb_connect_best [OF b] by (simp add: s2_def)
  have "(r', t) = (if e = ESP_OK \<and> net_count hn > 0 then (r2, s2\<lparr>wifi_handle := hn2, wifi := w2\<rparr>) else (r, s2))"
    using assms(3) False unfolding second_source_def Let_def s1_def [symmetric] assms(1,2) l prod.case
      s2_def [symmetric] b by simp
  then have "t = s2\<lparr>wifi_handle := hn2, wifi := w2\<rparr> \<or> t = s2" by (auto split: if_splits)
  then show ?thesis using k1 k2 by (auto simp: steady_def s2_def s1_def)
qed

lemma steady_poll: "wapi en = drv \<Longrightarrow> debug_poll en n s = (b, t) \<Longrightarrow> steady ns val s t"
proof (induction n arbitrary: s)
  case (Suc n)
  define s1 where "s1 = wifi_idle en 100 (led_tick_app en s)"
  have s1: "steady ns val s s1"
    unfolding s1_def using steady_trans [OF steady_local(4) steady_idle [OF Suc.prems(1)]] .
  have "(b, t) = (if fst (esp_wifi_sta_get_ap_info drv (world s1)) = ESP_OK then (True, s1) else debug_poll en n s1)"
    using Suc.prems(2) unfolding debug_poll.simps Let_def s1_def [symmetric] Suc.prems(1) by simp
  then have "t = s1 \<or> debug_poll en n s1 = (b, t)" by (auto split: if_splits)
  then show ?case using Suc.IH [OF Suc.prems(1)] s1 steady_trans by blast
qed simp

lemma steady_debug_connect:
  assumes en: "nvs en = api" "wapi en = drv" and "connect_to_wifi_debug_mode en s = Some (b, t)"
  shows "steady ns val s t"
proof -
  define s0 where "s0 = on_led led_show_wifi_connecting s"
  obtain r hn w1 where i: "wifi_creds_init api drv (wifi s0) = Some (r, hn, w1)" and r: "r = ESP_OK"
    using assms(3) unfolding connect_to_wifi_debug_mode_def s0_def [symmetric] en
    by (auto split: option.splits if_splits)
  define s1 where "s1 = s0\<lparr>wifi := w1, wifi_handle := hn\<rparr>"
  obtain e w2 where c: "on_world (esp_wifi_set_config drv (strncpy (zero_buf 32) (TEST_WIFI_SSID @ [NUL]) 32)
       (strncpy (zero_buf 64) (TEST_WIFI_PASS @ [NUL]) 64)) (wifi s1) = (e, w2)" by fastforce
  obtain e2 w3 where d: "on_world (esp_wifi_connect drv) w2 = (e2, w3)" by fastforce
  obtain ok s2 where p: "debug_poll en 300 (s1\<lparr>wifi := w3\<rparr>) = (ok, s2)" by fastforce
  have k1: "kb (wifi s) w1" using kb_init [OF i] by (simp add: s0_def)
  have k2: "kb (wifi s) w2" using kb_trans [OF k1] on_world_ww [OF c] config_kb by (simp add: s1_def)
  have k3: "kb (wifi s) w3" using kb_trans [OF k2] on_world_ww [OF d] connect_kb by simp
  have "steady ns val s (s1\<lparr>wifi := w3\<rparr>)" using k3 by (simp add: steady_def s1_def s0_def)
  then have st: "steady ns val s s2" using steady_trans steady_poll [OF en(2) p] by blast
  define s3 where "s3 = on_led (led_show_solid 0 (of_nat LEDC_MAX_DUTY) 0)
      (s2\<lparr>boot_state := (boot_state s2)\<lparr>last_ssid := strncpy (last_ssid (boot_state s2)) (TEST_WIFI_SSID @ [NUL]) 31\<rparr>\<rparr>)"
  have st3: "steady ns val s s3"
    unfolding s3_def by (rule steady_trans [OF steady_trans [OF st steady_local(6)] steady_local(2)])
  have "(b, t) = (if ok then (True, wifi_idle en 1000 s3) else (False, on_led led_show_error s2))"
    using assms(3) unfolding connect_to_wifi_debug_mode_def Let_def s0_def [symmetric] en i option.case prod.case
      s1_def [symmetric] c d p s3_def [symmetric] by (auto split: if_splits)
  then have "t = wifi_idle en 1000 s3 \<or> t = on_led led_show_error s2" by (auto split: if_splits)
  then show ?thesis using st st3 steady_trans steady_idle [OF en(2)] steady_local(2) by blast
qed

lemma steady_connect:
  assumes en: "nvs en = api" "wapi en = drv" and "connect_to_wifi_with_feedback en s = Some (b, t)"
  shows "steady ns val s t"
proof (cases "SKIP_WIFI_SCAN (cfg en) \<and> SEED_WIFI_CREDS (cfg en)")
  case True
  then show ?thesis using steady_debug_connect [OF en] assms(3) by (simp add: connect_to_wifi_with_feedback_def)
next
  case False
  define s1 where "s1 = led_ticks en 20 (on_led led_show_wifi_connecting s)"
  have st1: "steady ns val s s1" unfolding s1_def using steady_trans [OF steady_local(2) steady_ticks] .
  obtain e hn w1 where i: "wifi_creds_init api drv (wifi s1) = Some (e, hn, w1)"
    using assms(3) False unfolding connect_to_wifi_with_feedback_def Let_def s1_def [symmetric] en
    by (auto split: option.splits)
  define s2 where "s2 = s1\<lparr>wifi := w1, wifi_handle := hn\<rparr>"
  have "steady ns val s1 s2" using kb_init [OF i] by (simp add: steady_def s2_def)
  then have st2: "steady ns val s s2" using steady_trans st1 by blast
  obtain r s3 where a: "connect_attempts en 3 ESP_FAIL s2 = (r, s3)" by fastforce
  obtain r2 s4 where c: "second_source en r s3 = (r2, s4)" by fastforce
  have st4: "steady ns val s s4"
    using steady_trans [OF steady_trans [OF st2 steady_attempts [OF en(2) a]] steady_second [OF en c]] .
  define s5 where "s5 = on_led (led_show_solid 0 (of_nat LEDC_MAX_DUTY) 0)
     (s4\<lparr>boot_state := (boot_state s4)\<lparr>last_ssid := strncpy (last_ssid (boot_state s4))
        (snd (wifi_creds_get_current_ssid drv (zero_buf 33) 33 (world s4))) 31\<rparr>\<rparr>)"
  have st5: "steady ns val s s5"
    unfolding s5_def by (rule steady_trans [OF steady_trans [OF st4 steady_local(6)] steady_local(2)])
  have "Some (b, t) = (if e \<noteq> ESP_OK then Some (False, on_led led_show_error s2)
      else if r2 \<noteq> ESP_OK then Some (False, on_led led_show_error s4) else Some (True, wifi_idle en 500 s5))"
    using assms(3) False unfolding connect_to_wifi_with_feedback_def Let_def s1_def [symmetric] en i option.case
      prod.case s2_def [symmetric] a c s5_def [symmetric] by simp
  then have "t \<in> {on_led led_show_error s2, on_led led_show_error s4, wifi_idle en 500 s5}" by (auto split: if_splits)
  then show ?thesis using st2 st4 st5 steady_trans steady_idle [OF en(2)] steady_local(2) by blast
qed

lemma handle_download_answers:
  assumes en: "nvs en = api" "wapi en = drv" and "bm_open ns (bmgr s) (world s)"
    and "handle_download_with_retry en s = (ok, t)"
  shows "if ok then steady ns val s t else answered val s t"
proof -
  define s1 where "s1 = on_bus force_clean_sd_bus (on_led led_show_downloading s)"
  have st1: "steady ns val s s1" unfolding s1_def using steady_trans [OF steady_local(2) steady_local(3)] .
  obtain m b where m: "mount_sd ''/sdcard'' (bus (dev s1)) = (m, b)" by fastforce
  define s2 where "s2 = on_bus (\<lambda>_. b) s1"
  have st2: "steady ns val s s2" unfolding s2_def using steady_trans [OF st1 steady_local(3)] .
  have fails: "answered val s (report_failure en c u)"
    if "steady ns val s u" "c \<in> {DOWNLOAD_ERROR_WIFI_CONNECT, DOWNLOAD_ERROR_SD_CARD, DOWNLOAD_ERROR_DOWNLOAD_FAILED}" for u c
    using report_failure_answers [OF en(1) steady_bm_open [OF that(1) assms(3)] that(2)] answered_from that(1) by blast
  define u where "u = on_bus (unmount_sd ''/sdcard'' False) (wifi_idle en 2000 (on_led led_show_error s2))"
  have stu: "steady ns val s u"
    unfolding u_def using steady_trans [OF steady_trans [OF steady_trans [OF st2 steady_local(2)] steady_idle [OF en(2)]] steady_local(3)] .
  obtain good sf d where f: "download_simi_folder (fpo en) (json en) (list_resp en) (cstr (folder (boot_state s2))) False (dev s2)
      = (good, sf, d)" by (metis prod_cases3)
  define s3 where "s3 = wifi_idle en 1000 (on_bus (unmount_sd ''/sdcard'' (\<not> sf)) (s2\<lparr>dev := d\<rparr>))"
  have st3: "steady ns val s s3"
    unfolding s3_def using steady_trans [OF steady_trans [OF steady_trans [OF st2 steady_local(5)] steady_local(3)] steady_idle [OF en(2)]] .
  define v where "v = on_led (\<lambda>l. fold success_color [0..<30] l) (wifi_idle en 2000 (on_led led_show_success s3))"
  have stv: "steady ns val s v"
    unfolding v_def using steady_trans [OF steady_trans [OF steady_trans [OF st3 steady_local(2)] steady_idle [OF en(2)]] steady_local(2)] .
  define x where "x = led_ticks en 10 (on_led led_show_error s3)"
  have stx: "steady ns val s x"
    unfolding x_def using steady_trans [OF steady_trans [OF st3 steady_local(2)] steady_ticks] .
  have "(ok, t) = (if \<not> m then (False, report_failure en DOWNLOAD_ERROR_SD_CARD u)
      else if good then (True, v)
      else (False, report_failure en (if sf then DOWNLOAD_ERROR_SD_CARD else DOWNLOAD_ERROR_DOWNLOAD_FAILED) x))"
    using assms(4) unfolding handle_download_with_retry_def Let_def s1_def [symmetric] m prod.case s2_def [symmetric]
      u_def [symmetric] f s3_def [symmetric] v_def [symmetric] x_def [symmetric] by simp
  then show ?thesis using fails [OF stu] fails [OF stx] stv by (auto split: if_splits)
qed

lemma run_request_answers:
  assumes en: "nvs en = api" "wapi en = drv" and op: "bm_open ns (bmgr s) (world s)"
    and need: "boot_mgr_needs_download (bmgr s)" and run: "run_request en s = (oc, t)" and oc: "oc \<noteq> Abort"
  shows "answered val s t"
proof -
  have restart: "answered val s t" if "answered val s u" "boot_musicbox_and_restart en u = (oc, t)" for u
    using restart_frame [OF that(2)] by (intro answered_cong [OF that(1)]) simp_all
  have idle: "answered val s (wifi_idle en ms u)" if "answered val s u" for u ms
    using steady_idle [OF en(2), of u ms] by (intro answered_cong [OF that]) (simp_all add: steady_def keeps_boot_def)
  have led: "answered val s (on_led f u)" if "answered val s u" for f u
    by (intro answered_cong [OF that]) simp_all
  have fails: "answered val s (report_failure en c u)"
    if "steady ns val s u" "c \<in> {DOWNLOAD_ERROR_WIFI_CONNECT, DOWNLOAD_ERROR_SD_CARD, DOWNLOAD_ERROR_DOWNLOAD_FAILED}" for u c
    using report_failure_answers [OF en(1) steady_bm_open [OF that(1) op] that(2)] answered_from that(1) by blast
  show ?thesis
  proof (cases "retry_count (boot_state s) \<ge> 3")
    case True
    then have "boot_musicbox_and_restart en (on_led led_show_error (report_failure en DOWNLOAD_ERROR_DOWNLOAD_FAILED s)) = (oc, t)"
      using run need by (simp add: run_request_def)
    from restart [OF led [OF fails] this] show ?thesis by simp
  next
    case False
    note unf = run [unfolded run_request_def] need False
    obtain online s1 where c: "connect_to_wifi_with_feedback en s = Some (online, s1)"
      using unf oc by (auto split: option.splits)
    have st1: "steady ns val s s1" using steady_connect [OF en c] .
    show ?thesis
    proof (cases online)
      case False
      then have "boot_musicbox_and_restart en (wifi_idle en 3000 (report_failure en DOWNLOAD_ERROR_WIFI_CONNECT s1)) = (oc, t)"
        using unf c by simp
      from restart [OF idle [OF fails [OF st1]] this] show ?thesis by simp
    next
      case True
      obtain ok s2 where h: "handle_download_with_retry en s1 = (ok, s2)" by fastforce
      note hd = handle_download_answers [OF en steady_bm_open [OF st1 op] h]
      show ?thesis
      proof (cases ok)
        case False
        then have "boot_musicbox_and_restart en (wifi_idle en 2000 s2) = (oc, t)" using unf c True h by simp
        moreover have "answered val s s2" using hd False answered_from [OF st1] by simp
        ultimately show ?thesis using restart [OF idle] by blast
      next
        case ok: True
        have st2: "steady ns val s s2" using hd ok steady_trans [OF st1] by simp
        have a: "answered val s (report_success en s2)"
          using report_success_answers [OF en(1) steady_bm_open [OF st2 op]] answered_from [OF st2] by blast
        define s3 where "s3 = on_nvs (set_boot_count (nvs en) 0) (report_success en s2)"
        have "reports s3 = reports (report_success en s2)" "bmgr s3 = bmgr (report_success en s2)"
          "nvs_mirrors val (world (report_success en s2)) st \<Longrightarrow> nvs_mirrors val (world s3) st" for st
          using set_boot_count_mirrors en(1) by (simp_all add: s3_def)
        then have a3: "answered val s s3" using a unfolding answered_def by metis
        have "(oc, t) = (if STAY_IN_DOWNLOADER (cfg en) then (Idle, on_led led_show_success s3) else boot_musicbox_and_restart en s3)"
          using unf c True h ok by (auto simp: s3_def Let_def split: if_splits)
        then show ?thesis using restart [OF a3] led [OF a3] by (auto split: if_splits)
      qed
    qed
  qed
qed

end

context wifi_world
begin

lemma read_answer:
  assumes "boot_mgr_init api boot_mgr_zero w = (ESP_OK, b, w')" and "nvs_mirrors val w st" and "answer_of st0 st"
  shows "reason (g_current_state b) = reason st" and "\<not> boot_mgr_needs_download b"
proof -
  note i = init_ok [OF assms(1)]
  have h: "ns w' (g_nvs_handle b) = Some SIMIBOX_NVS_NAMESPACE" using i(1) by (simp add: bm_open_def)
  have "val w' SIMIBOX_NVS_NAMESPACE NVS_KEY_REASON = Some (NvsU8 (ucast (reason st)))"
    using assms(2) i(2) by (simp add: nvs_mirrors_iff)
  from get_u8_complete [OF h this]
  have "reason (g_current_state b) = ucast (ucast (reason st) :: u8)"
    by (simp add: i(3) boot_state_read_def Let_def)
  moreover have "reason st < 256" "reason st \<noteq> BOOT_REASON_DOWNLOAD_REQUEST"
    using assms(3) by (auto simp: answer_of_def reason_defs)
  ultimately show "reason (g_current_state b) = reason st" "\<not> boot_mgr_needs_download b"
    by (simp_all add: boot_mgr_needs_download_def)
qed

end

lemma led_init_frame:
  "app_led_init en s = Some t \<Longrightarrow> wifi t = wifi s \<and> bmgr t = bmgr s \<and> reports t = reports s \<and> bus (dev t) = bus (dev s) \<and>
     http (dev t) = http (dev s)"
  by (auto simp: app_led_init_def on_led_def split: prod.splits)

lemma app_local [simp]:
  "bus (dev (on_led f s)) = bus (dev s)" "http (dev (on_led f s)) = http (dev s)"
  "bus (dev (led_ticks en n s)) = bus (dev s)" "http (dev (led_ticks en n s)) = http (dev s)"
  "reports (led_ticks en n s) = reports s" "wifi (led_ticks en n s) = wifi s"
proof -
  show "bus (dev (on_led f s)) = bus (dev s)" "http (dev (on_led f s)) = http (dev s)" by (simp_all add: on_led_def)
  show "bus (dev (led_ticks en n s)) = bus (dev s)" "http (dev (led_ticks en n s)) = http (dev s)"
    "reports (led_ticks en n s) = reports s" "wifi (led_ticks en n s) = wifi s"
    by (induction n arbitrary: s) (simp_all add: led_tick_app_def)
qed

lemma load_requestE:
  assumes "load_request en s = Some t" and "\<not> FORCE_DOWNLOAD (cfg en)"
  obtains b w where "boot_mgr_init (nvs en) (bmgr s) (world s) = (ESP_OK, b, w)" "bmgr t = b\<lparr>g_current_state := boot_state t\<rparr>"
    "world t = w" "reports t = reports s" "bus (dev t) = bus (dev s)" "http (dev t) = http (dev s)"
    "boot_state t = boot_state_read (nvs en) (g_nvs_handle b) w" "g_nvs_handle b \<noteq> 0"
proof -
  obtain s1 where s1: "app_led_init en s = Some s1" using assms(1) by (auto simp: load_request_def split: option.splits)
  note f = led_init_frame [OF s1]
  obtain e b w where i: "boot_mgr_init (nvs en) (bmgr s) (world s) = (e, b, w)" by (metis prod_cases3)
  define s2 where "s2 = on_led (led_set_color (of_nat LEDC_MAX_DUTY) 0 (of_nat LEDC_MAX_DUTY)) s1"
  have s2: "world s2 = world s" "bmgr s2 = bmgr s" "reports s2 = reports s" "bus (dev s2) = bus (dev s)"
    "http (dev s2) = http (dev s)" using f by (simp_all add: s2_def)
  obtain e2 st b2 where l: "boot_mgr_load_state (nvs en) (Some (boot_state s2)) b w = (e2, st, b2)" by (metis prod_cases3)
  have "e = ESP_OK \<and> e2 = ESP_OK \<and> t = (on_nvs (\<lambda>_. w) s2)\<lparr>bmgr := b2, boot_state := the st\<rparr>"
    using assms unfolding load_request_def s1 option.case Let_def s2_def [symmetric] s2(1,2) i prod.case l
    by (auto split: if_splits)
  moreover have "e2 = ESP_OK \<Longrightarrow> g_nvs_handle b \<noteq> 0 \<and> st = Some (boot_state_read (nvs en) (g_nvs_handle b) w) \<and>
      b2 = b\<lparr>g_current_state := boot_state_read (nvs en) (g_nvs_handle b) w\<rparr>"
    using l by (auto simp: boot_mgr_load_state_def Let_def split: if_splits)
  ultimately show ?thesis using that [of b w] i s2 by simp
qed

section \<open>A reported success is on the card\<close>

text \<open>The folder is complete: its manifest is there, and every entry the manifest completes names a
  file of the size listed.\<close>

definition delivered :: "'j json_api \<Rightarrow> string \<Rightarrow> fs \<Rightarrow> bool" where
  "delivered js name v \<longleftrightarrow>
     (\<exists>items. manifest_items js (''/sdcard/'' @ name) v = Some items \<and>
       (\<forall>item \<in> set items. \<forall>nm sz. entry_of js item = Some (nm, sz) \<and> nm \<noteq> ''.ok'' \<longrightarrow>
          (\<exists>n. lookup v (''/sdcard/'' @ name @ ''/'' @ nm) = Some n \<and> int (node_size n) = sz)))"

lemma delivered_others:
  assumes "delivered js name v" and "\<And>q. q \<noteq> ''/sdcard/.sync'' \<Longrightarrow> lookup w q = lookup v q"
  shows "delivered js name w"
proof -
  have "''/'' @ nm \<noteq> ''.sync''" "name @ ''/'' @ nm \<noteq> ''.sync''" for nm
    by (auto simp: append_eq_Cons_conv)
  then have eq: "lookup w (''/sdcard/'' @ name @ ''/'' @ nm) = lookup v (''/sdcard/'' @ name @ ''/'' @ nm)" for nm
    using assms(2) [of "''/sdcard/'' @ name @ ''/'' @ nm"] by simp
  then have "manifest_items js (''/sdcard/'' @ name) w = manifest_items js (''/sdcard/'' @ name) v"
    using eq [of "''manifest.json''"] by (simp add: manifest_items_def)
  with eq assms(1) show ?thesis by (simp add: delivered_def)
qed

text \<open>Until the download starts the card, the HTTP client, the boot manager and the name of the
  folder stay.\<close>

definition calm :: "'w app \<Rightarrow> 'w app \<Rightarrow> bool" where
  "calm s t \<longleftrightarrow> bmgr t = bmgr s \<and> folder (boot_state t) = folder (boot_state s) \<and>
     dev t = (dev s)\<lparr>prog := prog (dev t)\<rparr>"

lemma calm_trans: "calm a b \<Longrightarrow> calm b c \<Longrightarrow> calm a c"
  unfolding calm_def by (metis dl.update_convs(3) dl.surjective)

lemma calm_local [simp]:
  "calm s s" "calm s (on_led f s)" "calm s (led_tick_app en s)" "calm s (wifi_idle en ms s)"
  "calm s (s\<lparr>wifi := w\<rparr>)" "calm s (s\<lparr>wifi := w, wifi_handle := h\<rparr>)" "calm s (s\<lparr>wifi_handle := h, wifi := w\<rparr>)"
  "calm s (s\<lparr>boot_state := (boot_state s)\<lparr>last_ssid := x\<rparr>\<rparr>)"
  by (simp_all add: calm_def on_led_def led_tick_app_def wifi_idle_def split: prod.splits)

lemma calm_ticks [simp]: "calm s (led_ticks en n s)"
proof (induction n arbitrary: s)
  case (Suc n)
  show ?case using calm_trans [OF calm_local(3) Suc.IH] by simp
qed simp

lemma calm_respite [simp]: "calm s (respite en n s)"
proof (induction n arbitrary: s)
  case (Suc n)
  show ?case using calm_trans [OF calm_trans [OF calm_local(3) [where en = en] calm_local(4) [where en = en]] Suc.IH] by simp
qed simp

lemma calm_attempts: "connect_attempts en n r s = (r', t) \<Longrightarrow> calm s t"
proof (induction n arbitrary: r s)
  case (Suc n)
  obtain r1 w1 where w: "wifi_creds_wait_for_connection (wapi en) CONNECT_TIMEOUT_MS (wifi s) = (r1, w1)" by fastforce
  have "calm s (respite en 10 (s\<lparr>wifi := w1\<rparr>))" using calm_trans [OF calm_local(5) calm_respite] .
  then show ?case
    using Suc.prems Suc.IH calm_trans by (fastforce simp: w Let_def split: if_splits)
qed simp

lemma calm_second: "second_source en r s = (r', t) \<Longrightarrow> calm s t"
  using calm_trans [OF calm_local(2) calm_local(7)]
  by (fastforce simp: second_source_def Let_def split: if_splits prod.splits)

lemma calm_poll: "debug_poll en n s = (b, t) \<Longrightarrow> calm s t"
proof (induction n arbitrary: s)
  case (Suc n)
  have "calm s (wifi_idle en 100 (led_tick_app en s))" using calm_trans [OF calm_local(3) calm_local(4)] .
  then show ?case using Suc calm_trans by (fastforce simp: Let_def split: if_splits)
qed simp

lemma calm_connected: "calm s t \<Longrightarrow> calm s (wifi_idle en ms (on_led f (t\<lparr>boot_state := (boot_state t)\<lparr>last_ssid := x\<rparr>\<rparr>)))"
  using calm_trans [OF calm_trans [OF calm_trans [OF _ calm_local(8)] calm_local(2)] calm_local(4)] by blast

lemma calm_debug_connect:
  assumes "connect_to_wifi_debug_mode en s = Some (b, t)"
  shows "calm s t"
proof -
  define s0 where "s0 = on_led led_show_wifi_connecting s"
  have s0: "calm s s0" by (simp add: s0_def)
  from assms obtain w h w' ok s2 where p: "debug_poll en 300 (s0\<lparr>wifi := w, wifi_handle := h, wifi := w'\<rparr>) = (ok, s2)"
    and t: "t = (if ok then wifi_idle en 1000 (on_led (led_show_solid 0 (of_nat LEDC_MAX_DUTY) 0)
        (s2\<lparr>boot_state := (boot_state s2)\<lparr>last_ssid := strncpy (last_ssid (boot_state s2)) (TEST_WIFI_SSID @ [NUL]) 31\<rparr>\<rparr>))
      else on_led led_show_error s2)"
    unfolding connect_to_wifi_debug_mode_def s0_def [symmetric]
    by (simp add: Let_def split: option.splits if_splits prod.splits)
  have "calm s0 (s0\<lparr>wifi := w, wifi_handle := h, wifi := w'\<rparr>)" by (simp add: calm_def)
  then have "calm s s2" using calm_trans s0 calm_poll [OF p] by blast
  then show ?thesis using t calm_connected calm_trans [OF _ calm_local(2)] by (auto split: if_splits)
qed

lemma calm_connect:
  assumes "connect_to_wifi_with_feedback en s = Some (b, t)"
  shows "calm s t"
proof (cases "SKIP_WIFI_SCAN (cfg en) \<and> SEED_WIFI_CREDS (cfg en)")
  case True
  then show ?thesis using calm_debug_connect assms by (simp add: connect_to_wifi_with_feedback_def)
next
  case False
  define s1 where "s1 = led_ticks en 20 (on_led led_show_wifi_connecting s)"
  have s1: "calm s s1" unfolding s1_def using calm_trans [OF calm_local(2) calm_ticks] .
  obtain e hn w1 where i: "wifi_creds_init (nvs en) (wapi en) (wifi s1) = Some (e, hn, w1)"
    using assms False unfolding connect_to_wifi_with_feedback_def Let_def s1_def [symmetric]
    by (auto split: option.splits)
  define s2 where "s2 = s1\<lparr>wifi := w1, wifi_handle := hn\<rparr>"
  have s2: "calm s s2" unfolding s2_def using calm_trans [OF s1 calm_local(6)] .
  obtain r s3 where a: "connect_attempts en 3 ESP_FAIL s2 = (r, s3)" by fastforce
  obtain r2 s4 where c: "second_source en r s3 = (r2, s4)" by fastforce
  have s4: "calm s s4" using calm_trans [OF calm_trans [OF s2 calm_attempts [OF a]] calm_second [OF c]] .
  define s5 where "s5 = wifi_idle en 500 (on_led (led_show_solid 0 (of_nat LEDC_MAX_DUTY) 0)
     (s4\<lparr>boot_state := (boot_state s4)\<lparr>last_ssid := strncpy (last_ssid (boot_state s4))
        (snd (wifi_creds_get_current_ssid (wapi en) (zero_buf 33) 33 (world s4))) 31\<rparr>\<rparr>))"
  have s5: "calm s s5" unfolding s5_def by (rule calm_connected [OF s4])
  have "Some (b, t) = (if e \<noteq> ESP_OK then Some (False, on_led led_show_error s2)
      else if r2 \<noteq> ESP_OK then Some (False, on_led led_show_error s4) else Some (True, s5))"
    using assms False unfolding connect_to_wifi_with_feedback_def Let_def s1_def [symmetric] i option.case
      prod.case s2_def [symmetric] a c s5_def [symmetric] by simp
  then have "t \<in> {on_led led_show_error s2, on_led led_show_error s4, s5}" by (auto split: if_splits)
  then show ?thesis using s2 s4 s5 calm_trans [OF _ calm_local(2)] by blast
qed

lemma mount_keeps_vol: "mount_sd mp s = (ok, t) \<Longrightarrow> vol t = vol s"
proof -
  have init: "vol u = vol s" if "spi_bus_initialize s = (e, u)" for s e u
    using that by (auto simp: spi_bus_initialize_def emit_def Let_def split: list.splits)
  have loop: "vol u = vol s" if "mount_loop mp i fs prev s = (ok, u)" for i fs prev s ok u
    using that
  proof (induction fs arbitrary: i prev s)
    case (Cons f fs)
    then show ?case
      by (fastforce simp: Let_def sdspi_mount_def emit_def split: if_splits prod.splits list.splits)
  qed simp
  assume "mount_sd mp s = (ok, t)"
  then show ?thesis
    by (auto simp: mount_sd_def Let_def split: if_splits prod.splits dest!: init loop simp: emit_def)
qed

lemma unmount_others: "q \<noteq> mp @ ''/.sync'' \<Longrightarrow> lookup (vol (unmount_sd mp healthy s)) q = lookup (vol s) q"
  using sync_volume_others [of q mp "vol s"]
  by (simp add: unmount_sd_def drop_card_def free_bus_def emit_def Let_def sd_power_cycle_def)

lemma clean_keeps_vol: "vol (force_clean_sd_bus s) = vol s"
  by (simp add: force_clean_sd_bus_def drop_card_def free_bus_def emit_def Let_def sd_power_cycle_def
      sd_aggressive_card_reset_def)

lemma idle_frame [simp]: "dev (wifi_idle en ms s) = dev s" "bmgr (wifi_idle en ms s) = bmgr s"
  by (simp_all add: wifi_idle_def split: prod.splits)

lemma on_bus_sel [simp]: "bus (dev (on_bus f s)) = f (bus (dev s))" "boot_state (on_bus f s) = boot_state s"
  "boot_state (on_led g s) = boot_state s"
  by (simp_all add: on_bus_def on_led_def)

lemma report_failure_failed:
  "reason (g_current_state (bmgr (report_failure en e s))) = BOOT_REASON_DOWNLOAD_FAILED"
  by (auto simp: report_failure_def boot_mgr_report_failure_def Let_def on_nvs_def dest!: save_state_current
      split: prod.splits)

lemma handle_download_delivers:
  assumes "fs_wf (vol (bus (dev s)))" and "handle_download_with_retry en s = (True, t)"
  shows "delivered (json en) (cstr (folder (boot_state s))) (vol (bus (dev t)))"
proof -
  define s1 where "s1 = on_bus force_clean_sd_bus (on_led led_show_downloading s)"
  obtain m b where m: "mount_sd ''/sdcard'' (bus (dev s1)) = (m, b)" by fastforce
  define s2 where "s2 = on_bus (\<lambda>_. b) s1"
  have s2: "vol (bus (dev s2)) = vol (bus (dev s))" "boot_state s2 = boot_state s"
    using mount_keeps_vol [OF m] clean_keeps_vol by (simp_all add: s2_def s1_def)
  obtain good sf d where f: "download_simi_folder (fpo en) (json en) (list_resp en) (cstr (folder (boot_state s))) False (dev s2)
      = (good, sf, d)" by (metis prod_cases3)
  have good: "good" and t: "bus (dev t) = unmount_sd ''/sdcard'' (\<not> sf) (bus d)"
    using assms(2) f s2(2) unfolding handle_download_with_retry_def Let_def s1_def [symmetric] m prod.case s2_def [symmetric]
    by (auto split: if_splits)
  have "delivered (json en) (cstr (folder (boot_state s))) (vol (bus d))"
    unfolding delivered_def using folder_success [OF _ f [unfolded good [THEN eqTrueI]]] assms(1) s2(1) good by simp
  moreover have "lookup (vol (bus (dev t))) q = lookup (vol (bus d)) q" if "q \<noteq> ''/sdcard/.sync''" for q
    using unmount_others [of q "''/sdcard''"] that t by simp
  ultimately show ?thesis by (rule delivered_others)
qed

text \<open>Only a delivered folder turns the pending request into a success.\<close>

lemma run_request_delivers:
  assumes wf: "fs_wf (vol (bus (dev s)))" and run: "run_request en s = (oc, t)"
    and need: "boot_mgr_needs_download (bmgr s)" and succ: "reason (g_current_state (bmgr t)) = BOOT_REASON_DOWNLOAD_SUCCESS"
  shows "delivered (json en) (cstr (folder (boot_state s))) (vol (bus (dev t)))"
proof -
  have ne: "BOOT_REASON_DOWNLOAD_FAILED \<noteq> BOOT_REASON_DOWNLOAD_SUCCESS"
    "BOOT_REASON_DOWNLOAD_REQUEST \<noteq> BOOT_REASON_DOWNLOAD_SUCCESS" by (simp_all add: reason_defs)
  have no_restart: "boot_musicbox_and_restart en u \<noteq> (oc, t)"
    if "reason (g_current_state (bmgr u)) = BOOT_REASON_DOWNLOAD_FAILED" for u
    using restart_frame [of en u oc t] that succ ne by auto
  note unf = run [unfolded run_request_def]
  have low: "\<not> 3 \<le> retry_count (boot_state s)"
    using unf need no_restart [of "on_led led_show_error (report_failure en DOWNLOAD_ERROR_DOWNLOAD_FAILED s)"]
    by (auto simp: report_failure_failed)
  obtain online s1 where c: "connect_to_wifi_with_feedback en s = Some (online, s1)"
    using unf need low succ ne by (auto simp: boot_mgr_needs_download_def split: option.splits)
  note cl = calm_connect [OF c, unfolded calm_def]
  have on: online
    using unf need low c no_restart [of "wifi_idle en 3000 (report_failure en DOWNLOAD_ERROR_WIFI_CONNECT s1)"]
    by (simp add: report_failure_failed split: if_splits)
  obtain ok s2 where h: "handle_download_with_retry en s1 = (ok, s2)" by fastforce
  have ok: ok
  proof (rule ccontr)
    assume "\<not> ok"
    then have "reason (g_current_state (bmgr s2)) = BOOT_REASON_DOWNLOAD_FAILED"
      using h report_failure_failed unfolding handle_download_with_retry_def Let_def
      by (auto split: prod.splits if_splits)
    then show False using unf need low c on h \<open>\<not> ok\<close> no_restart [of "wifi_idle en 2000 s2"] by simp
  qed
  have "vol (bus (dev s1)) = vol (bus (dev s))" "folder (boot_state s1) = folder (boot_state s)"
    using cl by (metis dl.select_convs(2) dl.surjective dl.update_convs(3)) (use cl in simp)
  then have d: "delivered (json en) (cstr (folder (boot_state s))) (vol (bus (dev s2)))"
    using handle_download_delivers [of s1 en s2] h ok wf by simp
  define s3 where "s3 = on_nvs (set_boot_count (nvs en) 0) (report_success en s2)"
  have "bus (dev s3) = bus (dev s2)" by (simp add: s3_def report_success_def on_nvs_def split: prod.splits)
  moreover have "(oc, t) = (if STAY_IN_DOWNLOADER (cfg en) then (Idle, on_led led_show_success s3) else boot_musicbox_and_restart en s3)"
    using unf need low c on h ok by (auto simp: s3_def Let_def split: if_splits)
  then have "bus (dev t) = bus (dev s3)" using restart_frame [of en s3 oc t] by (auto split: if_splits)
  ultimately show ?thesis using d by simp
qed

context wifi_world
begin

lemma folder_short:
  assumes "bm_open ns b w"
  shows "length (cstr (folder (boot_state_read api (g_nvs_handle b) w))) < 64"
  using assms get_str_ok [of w "g_nvs_handle b" SIMIBOX_NVS_NAMESPACE NVS_KEY_FOLDER 64]
  by (auto simp: boot_state_read_def Let_def get_str_into_def boot_state_zero_def bm_open_def split: prod.splits)

lemma read_folder:
  assumes "boot_mgr_init api boot_mgr_zero w = (ESP_OK, b, w')" and "nvs_mirrors val w st"
    and "length (cstr (folder st)) < 64"
  shows "cstr (folder (g_current_state b)) = cstr (folder st)"
proof -
  note i = init_ok [OF assms(1)]
  have h: "ns w' (g_nvs_handle b) = Some SIMIBOX_NVS_NAMESPACE" using i(1) by (simp add: bm_open_def)
  have "val w' SIMIBOX_NVS_NAMESPACE NVS_KEY_FOLDER = Some (NvsStr (cstr (folder st)))"
    using assms(2) i(2) by (simp add: nvs_mirrors_iff)
  from get_str_into_stored [OF h this _ assms(3)] show ?thesis
    by (simp add: i(3) boot_state_read_def Let_def)
qed

end

section \<open>Properties\<close>

lemma give_up_frame:
  assumes "give_up en s = (oc, t)"
  shows "reports t = reports s \<and> bus (dev t) = bus (dev s) \<and> http (dev t) = http (dev s)"
proof -
  let ?s0 = "on_nvs (set_boot_count (nvs en) 0) s"
  show ?thesis
  proof (cases "app_led_init en ?s0")
    case None
    then show ?thesis using assms by (auto simp: give_up_def)
  next
    case (Some s1)
    note f = led_init_frame [OF Some]
    have "boot_musicbox_and_restart en (led_ticks en 30 (on_led led_show_error s1)) = (oc, t)"
      using assms Some by (simp add: give_up_def)
    from restart_frame [OF this] show ?thesis using f by simp
  qed
qed

text \<open>The counter of a boot and NVS after counting, as \<open>app_main\<close> reaches them; \<open>None\<close> when the start
  of NVS aborts.\<close>

definition counted_boot :: "('w, 'j) env \<Rightarrow> 'w app \<Rightarrow> (u8 option \<times> 'w) option" where
  "counted_boot en s =
     map_option (\<lambda>w. bump_boot_count (nvs en) (if SEED_WIFI_CREDS (cfg en) then seed_wifi_credentials (nvs en) w else w))
       (nvs_startup (nvs en) (world s))"

definition too_many_boots :: "u8 option \<Rightarrow> bool" where
  "too_many_boots cnt = (case cnt of None \<Rightarrow> False | Some c \<Rightarrow> c \<ge> MAX_BOOT_FAILURES)"

text \<open>A run that does not abort gives up or serves the request it loads.\<close>

lemma app_mainE:
  assumes "app_main en s = (oc, t)" and "oc \<noteq> Abort"
  obtains (gave_up) cnt w s1 where "counted_boot en s = Some (cnt, w)" "too_many_boots cnt"
      "give_up en s1 = (oc, t)" "reports s1 = reports s" "dev s1 = dev s"
    | (served) cnt s1 s2 where "counted_boot en s = Some (cnt, world s1)" "\<not> too_many_boots cnt" "bmgr s1 = bmgr s"
      "load_request en s1 = Some s2" "run_request en s2 = (oc, t)" "reports s1 = reports s" "dev s1 = dev s"
proof -
  obtain w1 where w1: "nvs_startup (nvs en) (world s) = Some w1"
    using assms by (auto simp: app_main_def split: option.splits)
  obtain c w3 where w3: "bump_boot_count (nvs en) (if SEED_WIFI_CREDS (cfg en) then seed_wifi_credentials (nvs en) w1 else w1) = (c, w3)"
    by fastforce
  have cb: "counted_boot en s = Some (c, w3)" by (simp only: counted_boot_def w1 option.map w3)
  define s1 where "s1 = on_nvs (\<lambda>_. w3) s"
  have eq: "(oc, t) = (if too_many_boots c then give_up en s1
      else (case load_request en s1 of None \<Rightarrow> (Abort, s1) | Some s2 \<Rightarrow> run_request en s2))"
    using assms(1) unfolding app_main_def w1 option.case Let_def w3 prod.case s1_def [symmetric] too_many_boots_def by simp
  have s1: "reports s1 = reports s" "dev s1 = dev s" "bmgr s1 = bmgr s" "world s1 = w3" by (simp_all add: s1_def on_nvs_def)
  show thesis
  proof (cases "too_many_boots c")
    case True
    then show thesis using gave_up [of c w3 s1] eq s1 cb by simp
  next
    case False
    then obtain s2 where "load_request en s1 = Some s2" "run_request en s2 = (oc, t)"
      using eq assms(2) by (auto split: option.splits)
    then show thesis using served [of c s1 s2] s1 cb False by simp
  qed
qed

text \<open>What the report of a run leaves for the next boot.\<close>

definition report_settles :: "('w, 'j) env \<Rightarrow> 'w app \<Rightarrow> esp_err \<Rightarrow> bool" where
  "report_settles en t r =
     (r = ESP_OK \<longrightarrow> (\<forall>b w. boot_mgr_init (nvs en) boot_mgr_zero (world t) = (ESP_OK, b, w) \<longrightarrow>
        \<not> boot_mgr_needs_download b \<and>
        reason (g_current_state b) \<in> {BOOT_REASON_DOWNLOAD_SUCCESS, BOOT_REASON_DOWNLOAD_FAILED}))"

lemma answered_settles:
  assumes ww: "wifi_world (nvs en) ns val (wapi en)" and "answered val s t"
  obtains r where "reports t = reports s @ [r]" "report_settles en t r"
proof -
  obtain r where r: "reports t = reports s @ [r]"
    "r = ESP_OK \<Longrightarrow> nvs_mirrors val (world t) (g_current_state (bmgr t))"
    and x: "answer_of (g_current_state (bmgr s)) (g_current_state (bmgr t))"
    using assms(2) unfolding answered_def by blast
  have "report_settles en t r"
    unfolding report_settles_def
  proof (intro impI allI)
    fix b w assume "r = ESP_OK" and i: "boot_mgr_init (nvs en) boot_mgr_zero (world t) = (ESP_OK, b, w)"
    show "\<not> boot_mgr_needs_download b \<and> reason (g_current_state b) \<in> {BOOT_REASON_DOWNLOAD_SUCCESS, BOOT_REASON_DOWNLOAD_FAILED}"
      using wifi_world.read_answer [OF ww i r(2) [OF \<open>r = ESP_OK\<close>] x] x by (auto simp: answer_of_def)
  qed
  then show thesis using that r(1) by blast
qed

text \<open>The card, the HTTP client and the reports are as they were.\<close>

definition untouched :: "'w app \<Rightarrow> 'w app \<Rightarrow> bool" where
  "untouched s t \<longleftrightarrow> reports t = reports s \<and> bus (dev t) = bus (dev s) \<and> http (dev t) = http (dev s)"

text \<open>C2. A download request is answered by the run that serves it. A run of the production build
  that does not abort leaves the card, the HTTP client and the reports alone when the boots since
  the last success are too many or when the boot manager reads no request; otherwise, that is
  whenever it reads a request, the run reports exactly once, and if that report could be saved, the
  next boot finds a success or a failure and no pending request. So no request is dropped silently
  and none is served twice.\<close>

theorem request_answered:
  assumes "wifi_world (nvs en) ns val (wapi en)" and "\<not> FORCE_DOWNLOAD (cfg en)"
    and "app_main en s = (oc, t)" and "oc \<noteq> Abort"
  shows "\<exists>cnt w. counted_boot en s = Some (cnt, w) \<and>
    (if too_many_boots cnt then untouched s t
     else \<exists>b w'. boot_mgr_init (nvs en) (bmgr s) w = (ESP_OK, b, w') \<and>
       (if boot_mgr_needs_download b then \<exists>r. reports t = reports s @ [r] \<and> report_settles en t r
        else untouched s t))"
  using assms(3,4)
proof (cases rule: app_mainE)
  case (gave_up cnt w s1)
  then show ?thesis using give_up_frame [OF gave_up(3)] by (simp add: untouched_def)
next
  case (served cnt s1 s2)
  note ww = assms(1) and st = wifi_world.axioms(1) [OF assms(1)]
  from served(4) assms(2) obtain b w where i: "boot_mgr_init (nvs en) (bmgr s1) (world s1) = (ESP_OK, b, w)"
    and s2: "bmgr s2 = b\<lparr>g_current_state := boot_state s2\<rparr>" "world s2 = w" "reports s2 = reports s1"
      "bus (dev s2) = bus (dev s1)" "http (dev s2) = http (dev s1)" "boot_state s2 = boot_state_read (nvs en) (g_nvs_handle b) w"
    by (rule load_requestE)
  have b: "bmgr s2 = b" using nvs_store.init_ok(3) [OF st i] s2(1,6) by simp
  have op: "bm_open ns (bmgr s2) (world s2)" using nvs_store.init_ok(1) [OF st i] s2(2) b by simp
  have "if boot_mgr_needs_download b then \<exists>r. reports t = reports s @ [r] \<and> report_settles en t r else untouched s t"
  proof (cases "boot_mgr_needs_download b")
    case True
    then have "answered val s2 t" using wifi_world.run_request_answers [OF ww refl refl op _ served(5) assms(4)] b by simp
    then show ?thesis using answered_settles [OF ww] s2(3) served(6) True by metis
  next
    case False
    then have "boot_musicbox_and_restart en s2 = (oc, t)" using served(5) b by (simp add: run_request_def)
    from restart_frame [OF this] show ?thesis using s2 served(6,7) False by (simp add: untouched_def)
  qed
  then show ?thesis using served(1,2,3) i by auto
qed

text \<open>C1. What a run reports is on the card: when a run saved its report and the next boot reads a
  success, the folder that boot reads as the one requested is complete on the card the run left,
  with its manifest and every file of the manifest at the size listed.\<close>

theorem success_is_delivered:
  assumes "wifi_world (nvs en) ns val (wapi en)" and "\<not> FORCE_DOWNLOAD (cfg en)"
    and "fs_wf (vol (bus (dev s)))" and "app_main en s = (oc, t)" "oc \<noteq> Abort" "reports t = reports s @ [ESP_OK]"
    and next_boot: "boot_mgr_init (nvs en) boot_mgr_zero (world t) = (ESP_OK, b, w)"
      "reason (g_current_state b) = BOOT_REASON_DOWNLOAD_SUCCESS"
  shows "delivered (json en) (cstr (folder (g_current_state b))) (vol (bus (dev t)))"
  using assms(4,5)
proof (cases rule: app_mainE)
  case (gave_up cnt w s1)
  then show ?thesis using give_up_frame [OF gave_up(3)] assms(6) by simp
next
  case (served cnt s1 s2)
  note ww = assms(1) and st = wifi_world.axioms(1) [OF assms(1)]
  from served(4) assms(2) obtain b1 w1 where i: "boot_mgr_init (nvs en) (bmgr s1) (world s1) = (ESP_OK, b1, w1)"
    and s2: "bmgr s2 = b1\<lparr>g_current_state := boot_state s2\<rparr>" "world s2 = w1" "reports s2 = reports s1"
      "bus (dev s2) = bus (dev s1)" "boot_state s2 = boot_state_read (nvs en) (g_nvs_handle b1) w1"
    by (rule load_requestE)
  have op: "bm_open ns (bmgr s2) (world s2)" using nvs_store.init_ok(1) [OF st i] s2(1,2) by (simp add: bm_open_def)
  have need: "boot_mgr_needs_download (bmgr s2)"
  proof (rule ccontr)
    assume "\<not> ?thesis"
    then have "boot_musicbox_and_restart en s2 = (oc, t)" using served(5) by (simp add: run_request_def)
    from restart_frame [OF this] show False using s2(3) served(6) assms(6) by simp
  qed
  have a: "answered val s2 t" by (rule wifi_world.run_request_answers [OF ww refl refl op need served(5) assms(5)])
  then have m: "nvs_mirrors val (world t) (g_current_state (bmgr t))"
    and ans: "answer_of (boot_state s2) (g_current_state (bmgr t))"
    using assms(6) s2(1,3) served(6) by (auto simp: answered_def)
  have fo: "folder (g_current_state (bmgr t)) = folder (boot_state s2)" using ans by (auto simp: answer_of_def)
  have "cstr (folder (g_current_state b)) = cstr (folder (boot_state s2))"
    using wifi_world.read_folder [OF ww next_boot(1) m] wifi_world.folder_short [OF ww op] s2 fo by simp
  moreover have "reason (g_current_state (bmgr t)) = BOOT_REASON_DOWNLOAD_SUCCESS"
    using wifi_world.read_answer(1) [OF ww next_boot(1) m ans] next_boot(2) by simp
  then have "delivered (json en) (cstr (folder (boot_state s2))) (vol (bus (dev t)))"
    using run_request_delivers [OF _ served(5) need] assms(3) s2(4) served(7) by simp
  ultimately show ?thesis by simp
qed

text \<open>The reset of the counter, when NVS takes the value.\<close>

lemma set_boot_count_resets:
  assumes st: "nvs_store api ns val"
    and o: "nvs_open api SIMIBOX_NVS_NAMESPACE NVS_READWRITE w = ((ESP_OK, h), w1)"
    and p: "nvs_set_u8 api h NVS_KEY_BOOT_COUNT n w1 = (ESP_OK, w2)"
  shows "val (set_boot_count api n w) SIMIBOX_NVS_NAMESPACE k = (if k = NVS_KEY_BOOT_COUNT then Some (NvsU8 n) else val w SIMIBOX_NVS_NAMESPACE k)"
proof -
  obtain e3 w3 where c: "nvs_commit api h w2 = (e3, w3)" by fastforce
  have h: "ns w1 h = Some SIMIBOX_NVS_NAMESPACE" using nvs_store.open_handle [OF st o] by simp
  have "val w2 SIMIBOX_NVS_NAMESPACE k = (if k = NVS_KEY_BOOT_COUNT then Some (NvsU8 n) else val w1 SIMIBOX_NVS_NAMESPACE k)"
    using nvs_store.put_val [OF st h, of _ "NvsU8 n" w2] nvs_store.put_other [OF st h, of _ "NvsU8 n" _ w2] p by simp
  then show ?thesis
    using nvs_store.open_val [OF st o] nvs_store.commit_val [OF st c] nvs_store.close_val [OF st]
    by (simp add: set_boot_count_def o p c)
qed

lemma bump_boot_count_keeps:
  assumes st: "nvs_store api ns val" and b: "bump_boot_count api w = (cnt, w3)" and k: "k \<noteq> NVS_KEY_BOOT_COUNT"
  shows "val w3 SIMIBOX_NVS_NAMESPACE k = val w SIMIBOX_NVS_NAMESPACE k"
proof -
  obtain e h w1 where o: "nvs_open api SIMIBOX_NVS_NAMESPACE NVS_READWRITE w = ((e, h), w1)" by (metis surj_pair)
  let ?n = "get_u8_into api h NVS_KEY_BOOT_COUNT w1 0 + 1"
  obtain e2 w2 where p: "nvs_set_u8 api h NVS_KEY_BOOT_COUNT ?n w1 = (e2, w2)" by fastforce
  obtain e4 w4 where c: "nvs_commit api h w2 = (e4, w4)" by fastforce
  have "e = ESP_OK \<Longrightarrow> val w2 SIMIBOX_NVS_NAMESPACE k = val w1 SIMIBOX_NVS_NAMESPACE k"
    using nvs_store.put_other [OF st, of w1 h SIMIBOX_NVS_NAMESPACE NVS_KEY_BOOT_COUNT "NvsU8 ?n"] nvs_store.open_handle [OF st, of SIMIBOX_NVS_NAMESPACE NVS_READWRITE w] o p k
    by simp
  then show ?thesis
    using b nvs_store.open_val [OF st o] nvs_store.commit_val [OF st c] nvs_store.close_val [OF st]
    by (auto simp: bump_boot_count_def o p c Let_def split: if_splits)
qed

text \<open>C24. The fifth boot of the downloader without a completed download starts no other: when NVS takes the values, the counter in NVS is 0 afterwards and every other value of the
  boot protocol, the request included, is as it was; the main firmware is selected, the device
  restarts, and neither the card nor the network is touched.\<close>

theorem boot_count_limit:
  assumes "nvs_store (nvs en) ns val" and "\<not> SEED_WIFI_CREDS (cfg en)" "\<not> STAY_IN_DOWNLOADER (cfg en)"
    and "nvs_startup (nvs en) (world s) = Some w1" and "val w1 SIMIBOX_NVS_NAMESPACE NVS_KEY_BOOT_COUNT = Some (NvsU8 n)"
    and "nvs_open (nvs en) SIMIBOX_NVS_NAMESPACE NVS_READWRITE w1 = ((ESP_OK, h), w2)" and "4 \<le> n" "n < 255"
    and "led_hw en = (True, ESP_OK, [], started)" and "find_musicbox_partition (parts en) = Some p" "set_boot_ret en = ESP_OK"
    and bump: "bump_boot_count (nvs en) w1 = (cnt, w3)"
    and "nvs_open (nvs en) SIMIBOX_NVS_NAMESPACE NVS_READWRITE w3 = ((ESP_OK, h'), w4)"
    and "nvs_set_u8 (nvs en) h' NVS_KEY_BOOT_COUNT 0 w4 = (ESP_OK, w5)"
  shows "\<exists>t. app_main en s = (Restart, t) \<and> boot_partition t = Some p \<and> reports t = reports s \<and>
    bus (dev t) = bus (dev s) \<and> http (dev t) = http (dev s) \<and>
    val (world t) SIMIBOX_NVS_NAMESPACE NVS_KEY_BOOT_COUNT = Some (NvsU8 0) \<and>
    (\<forall>k. k \<noteq> NVS_KEY_BOOT_COUNT \<longrightarrow> val (world t) SIMIBOX_NVS_NAMESPACE k = val w1 SIMIBOX_NVS_NAMESPACE k)"
proof -
  have h: "ns w2 h = Some SIMIBOX_NVS_NAMESPACE" using nvs_store.open_handle [OF assms(1,6)] by simp
  have v: "val w2 SIMIBOX_NVS_NAMESPACE NVS_KEY_BOOT_COUNT = Some (NvsU8 n)"
    using nvs_store.open_val [OF assms(1,6)] assms(5) by simp
  have cnt: "get_u8_into (nvs en) h NVS_KEY_BOOT_COUNT w2 0 = n" by (rule nvs_store.get_u8_into_stored [OF assms(1) h v])
  have b: "bump_boot_count (nvs en) w1 = (Some (n + 1), w3)"
    using bump by (simp add: bump_boot_count_def assms(6) cnt Let_def)
  have lim: "MAX_BOOT_FAILURES \<le> n + 1"
    using assms(7,8) by (simp add: MAX_BOOT_FAILURES_def word_le_nat_alt word_less_nat_alt unat_word_ariths)
  define s1 where "s1 = on_nvs (\<lambda>_. w3) s"
  have run: "app_main en s = give_up en s1"
    using assms(2,4) b lim by (simp add: app_main_def s1_def)
  let ?s0 = "on_nvs (set_boot_count (nvs en) 0) s1"
  obtain s2 where s2: "app_led_init en ?s0 = Some s2"
    by (auto simp: app_led_init_def assms(9) led_init_def Let_def)
  let ?u = "led_ticks en 30 (on_led led_show_error s2)"
  have "give_up en s1 = (Restart, ?u\<lparr>boot_partition := Some p\<rparr>)"
    using s2 assms(3,10,11) by (simp add: give_up_def boot_musicbox_and_restart_def)
  moreover have "world ?u = set_boot_count (nvs en) 0 w3"
    using led_init_frame [OF s2] by (simp add: s1_def)
  ultimately show ?thesis using run led_init_frame [OF s2] set_boot_count_resets [OF assms(1,13,14)] bump_boot_count_keeps [OF assms(1) bump]
    by (auto simp: s1_def)
qed

text \<open>What the recovery does to NVS, case by case: nothing when the first initialisation does not ask
  for it; otherwise it may erase three namespaces, and every other value stays if the second
  initialisation succeeds and is gone if it does not.\<close>

definition nvs_needs_recovery :: "esp_err \<Rightarrow> bool" where
  "nvs_needs_recovery e \<longleftrightarrow> e = ESP_ERR_NVS_NO_FREE_PAGES \<or> e = ESP_ERR_NVS_NEW_VERSION_FOUND"

text \<open>C25. The recovery of NVS at start-up. Unless the first initialisation asks for it, no value
  changes. If it does and the second initialisation, after the selective erase, succeeds, every
  namespace besides the three it may erase (the boot protocol and the two lists of networks) keeps
  its values. If the second one fails too, everything is erased, the namespace \<^verbatim>\<open>simibox\<close> included,
  which the comment above the code says must never happen.\<close>

theorem nvs_startup_keeps:
  assumes "nvs_store api ns val" and "nvs_startup api w = Some w'"
    and "nvs_flash_init api w = (e1, w1)" and "nvs_flash_init api (erase_safe_namespaces api w1) = (e2, w2)"
  shows "if \<not> nvs_needs_recovery e1 then \<forall>n k. val w' n k = val w n k
    else if e2 = ESP_OK then \<forall>n k. n \<notin> {''bootmgr'', ''wifi_creds'', ''known_nets''} \<longrightarrow> val w' n k = val w n k
    else \<forall>n k. val w' n k = None"
proof -
  have one: "val (nvs_erase_namespace api m v) n k = val v n k" if "n \<noteq> m" for m v n k
  proof -
    obtain e h v1 where o: "nvs_open api m NVS_READWRITE v = ((e, h), v1)" by (metis surj_pair)
    obtain e2 v2 where er: "nvs_erase_all api h v1 = (e2, v2)" by fastforce
    obtain e3 v3 where c: "nvs_commit api h v2 = (e3, v3)" by fastforce
    have "e = ESP_OK \<Longrightarrow> val v2 n k = val v1 n k"
      using nvs_store.erase_other [OF assms(1) _ er that] nvs_store.open_handle [OF assms(1)] o by blast
    then show ?thesis
      using nvs_store.open_val [OF assms(1) o] nvs_store.commit_val [OF assms(1) c] nvs_store.close_val [OF assms(1)]
      by (simp add: nvs_erase_namespace_def o er c)
  qed
  note i1 = assms(3) and i2 = assms(4)
  obtain e3 w3 where i3: "nvs_flash_erase api w2 = (e3, w3)" by fastforce
  obtain e4 w4 where i4: "nvs_flash_init api w3 = (e4, w4)" by fastforce
  have safe: "val w2 n k = val w n k" if "n \<notin> {''bootmgr'', ''wifi_creds'', ''known_nets''}" for n k
    using that one nvs_store.init_val [OF assms(1) i1] nvs_store.init_val [OF assms(1) i2]
    by (simp add: erase_safe_namespaces_def)
  have w': "Some w' = (if nvs_needs_recovery e1
      then if e2 = ESP_OK then Some w2 else if e3 \<noteq> ESP_OK then None else if e4 \<noteq> ESP_OK then None else Some w4
      else Some w1)"
    using assms(2) unfolding nvs_startup_def i1 prod.case i2 i3 i4 nvs_needs_recovery_def by simp
  have erased: "val w4 n k = None" if "e3 = ESP_OK" for n k
    using nvs_store.erase_flash [OF assms(1)] i3 nvs_store.init_val [OF assms(1) i4] that by metis
  show ?thesis
    using w' safe erased nvs_store.init_val [OF assms(1) i1] by (auto split: if_splits)
qed

section \<open>Demonstration\<close>

definition demo_drv :: "mem_nvs wifi_api" where
  "demo_drv = \<lparr>wifi_setup = (\<lambda>_ w. (ESP_OK, w)), esp_wifi_connect = (\<lambda>w. (ESP_OK, w)),
     esp_wifi_disconnect = (\<lambda>w. (ESP_OK, w)), esp_wifi_set_config = (\<lambda>_ _ w. (ESP_OK, w)),
     esp_wifi_scan_start = (\<lambda>w. (ESP_OK, w)), esp_wifi_scan_get_ap_records = (\<lambda>_ w. ((ESP_OK, []), w)),
     esp_wifi_sta_get_ap_info = (\<lambda>w. (ESP_FAIL, \<lparr>ap_ssid = [], ap_rssi = 0, ap_primary = 0\<rparr>)),
     wait_events = (\<lambda>_ w. ([], w))\<rparr>"

interpretation demo_ww: wifi_world mem_api mem_open "\<lambda>w n k. mem_vals w (n, k)" demo_drv
  by unfold_locales (auto simp: demo_drv_def mem_api_def split: list.splits)

definition demo_env :: "(mem_nvs, demo_json) env" where
  "demo_env = \<lparr>cfg = build_cfg_of False, nvs = mem_api, wapi = demo_drv, fpo = fix_ops, json = demo_js,
     list_resp = demo_reply,
     parts = [\<lparr>part_label = ''downloader'', part_subtype = FACTORY\<rparr>, \<lparr>part_label = ''musicbox'', part_subtype = OTA 0\<rparr>],
     set_boot_ret = ESP_OK, led_hw = (True, ESP_OK, [], True)\<rparr>"

definition demo_app :: "mem_nvs \<Rightarrow> mem_nvs app" where
  "demo_app w = \<lparr>wifi = \<lparr>connected_bit = False, disconnected_bit = False, s_wifi_initialized = False,
       s_is_connecting = False, tried = [], ww = w\<rparr>,
     dev = demo_dl, wifi_handle = zero_handle, boot_state = boot_state_zero, bmgr = boot_mgr_zero,
     boot_partition = None, reports = []\<rparr>"

text \<open>NVS as another firmware left it: a request for the folder \<open>x\<close>, a boot counter and a retry
  counter.\<close>

definition demo_nvs :: "u8 \<Rightarrow> u8 \<Rightarrow> mem_nvs" where
  "demo_nvs n m = mem0\<lparr>mem_vals := (mem_vals mem0)((SIMIBOX_NVS_NAMESPACE, NVS_KEY_REASON) \<mapsto> NvsU8 1,
     (SIMIBOX_NVS_NAMESPACE, NVS_KEY_FOLDER) \<mapsto> NvsStr ''x'', (SIMIBOX_NVS_NAMESPACE, NVS_KEY_BOOT_COUNT) \<mapsto> NvsU8 n,
     (SIMIBOX_NVS_NAMESPACE, NVS_KEY_RETRY) \<mapsto> NvsU8 m)\<rparr>"

subsection \<open>Witnesses\<close>

lemma demo_runs:
  "fst (app_main demo_env (demo_app (demo_nvs 0 3))) = Restart"
  "reports (snd (app_main demo_env (demo_app (demo_nvs 0 3)))) = [ESP_OK]"
  by code_simp+

lemma request_answered_witness:
  "\<exists>t. app_main demo_env (demo_app (demo_nvs 0 3)) = (Restart, t) \<and> reports t = [ESP_OK] \<and>
     (\<forall>b w. boot_mgr_init mem_api boot_mgr_zero (world t) = (ESP_OK, b, w) \<longrightarrow> \<not> boot_mgr_needs_download b)"
proof -
  obtain t where t: "app_main demo_env (demo_app (demo_nvs 0 3)) = (Restart, t)" using demo_runs(1) by (metis prod.collapse)
  have en: "nvs demo_env = mem_api" "wapi demo_env = demo_drv" "\<not> FORCE_DOWNLOAD (cfg demo_env)"
    by (simp_all add: demo_env_def build_cfg_of_def)
  have "reports t = [ESP_OK]" "reports (demo_app (demo_nvs 0 3)) = []" using demo_runs(2) t by (simp_all add: demo_app_def)
  then show ?thesis
    using request_answered [OF demo_ww.wifi_world_axioms [folded en(1,2)] en(3) t] t en(1)
    by (auto simp: report_settles_def untouched_def split: if_splits)
qed

text \<open>A store with a value in the namespace \<^verbatim>\<open>simibox\<close>, which survives the recovery when the second
  initialisation succeeds and is lost when it does not.\<close>

definition keyed_nvs :: "esp_err list \<Rightarrow> mem_nvs" where
  "keyed_nvs es = mem0\<lparr>mem_vals := (mem_vals mem0)((''simibox'', ''key'') \<mapsto> NvsU8 7), mem_inits := es\<rparr>"

lemma nvs_startup_keeps_witness:
  "(\<exists>w'. nvs_startup mem_api (keyed_nvs [ESP_ERR_NVS_NO_FREE_PAGES]) = Some w' \<and> mem_val w' ''simibox'' ''key'' = Some (NvsU8 7)) \<and>
   (\<exists>w'. nvs_startup mem_api (keyed_nvs [ESP_ERR_NVS_NO_FREE_PAGES, ESP_FAIL]) = Some w' \<and> mem_val w' ''simibox'' ''key'' = None)"
proof -
  let ?a = "keyed_nvs [ESP_ERR_NVS_NO_FREE_PAGES]" and ?b = "keyed_nvs [ESP_ERR_NVS_NO_FREE_PAGES, ESP_FAIL]"
  have "nvs_startup mem_api ?a \<noteq> None" "nvs_startup mem_api ?b \<noteq> None"
    "fst (nvs_flash_init mem_api ?a) = ESP_ERR_NVS_NO_FREE_PAGES" "fst (nvs_flash_init mem_api ?b) = ESP_ERR_NVS_NO_FREE_PAGES"
    "fst (nvs_flash_init mem_api (erase_safe_namespaces mem_api (snd (nvs_flash_init mem_api ?a)))) = ESP_OK"
    "fst (nvs_flash_init mem_api (erase_safe_namespaces mem_api (snd (nvs_flash_init mem_api ?b)))) = ESP_FAIL"
    by code_simp+
  then obtain wa wb where a: "nvs_startup mem_api ?a = Some wa" "nvs_startup mem_api ?b = Some wb"
    and i: "nvs_flash_init mem_api ?a = (ESP_ERR_NVS_NO_FREE_PAGES, snd (nvs_flash_init mem_api ?a))"
      "nvs_flash_init mem_api ?b = (ESP_ERR_NVS_NO_FREE_PAGES, snd (nvs_flash_init mem_api ?b))"
      "nvs_flash_init mem_api (erase_safe_namespaces mem_api (snd (nvs_flash_init mem_api ?a))) =
        (ESP_OK, snd (nvs_flash_init mem_api (erase_safe_namespaces mem_api (snd (nvs_flash_init mem_api ?a)))))"
      "nvs_flash_init mem_api (erase_safe_namespaces mem_api (snd (nvs_flash_init mem_api ?b))) =
        (ESP_FAIL, snd (nvs_flash_init mem_api (erase_safe_namespaces mem_api (snd (nvs_flash_init mem_api ?b)))))"
    by (metis not_Some_eq prod.collapse)
  have "mem_val wa ''simibox'' ''key'' = mem_val ?a ''simibox'' ''key''"
    using nvs_startup_keeps [OF mem.nvs_store_axioms a(1) i(1,3)] by (simp add: nvs_needs_recovery_def)
  moreover have "mem_val wb ''simibox'' ''key'' = None"
    using nvs_startup_keeps [OF mem.nvs_store_axioms a(2) i(2,4)] by (simp add: nvs_needs_recovery_def esp_err_defs)
  ultimately show ?thesis using a by (simp add: keyed_nvs_def)
qed

text \<open>The demonstration with the Wi-Fi up: the one file of the list is fetched and the success is
  reported.\<close>

definition online_env :: "(mem_nvs, demo_json) env" where
  "online_env = demo_env\<lparr>wapi := demo_drv\<lparr>esp_wifi_sta_get_ap_info :=
     (\<lambda>w. (ESP_OK, \<lparr>ap_ssid = ''home'', ap_rssi = 0, ap_primary = 1\<rparr>))\<rparr>\<rparr>"

interpretation online_ww: wifi_world mem_api mem_open "\<lambda>w n k. mem_vals w (n, k)" "wapi online_env"
  by unfold_locales (auto simp: online_env_def demo_env_def demo_drv_def mem_api_def split: list.splits)

lemma online_sel [simp]: "nvs online_env = mem_api" "cfg online_env = build_cfg_of False" "json online_env = demo_js"
  "list_resp online_env = demo_reply" "set_boot_ret online_env = ESP_OK"
  by (simp_all add: online_env_def demo_env_def)

lemma online_idle [simp]: "wifi_idle online_env ms s = s"
  by (simp add: wifi_idle_def online_env_def demo_env_def demo_drv_def on_world_def)

lemma mem_set_boot_count_quiet:
  assumes "mem_quiet m w" and "Suc m < 2 ^ 32"
  shows "mem_quiet (Suc m) (set_boot_count mem_api n w)"
    and "\<exists>c w'. bump_boot_count mem_api w = (Some c, w') \<and> mem_quiet (Suc m) w'"
proof -
  obtain h w1 where o: "nvs_open mem_api SIMIBOX_NVS_NAMESPACE NVS_READWRITE w = ((ESP_OK, h), w1)"
    "mem_quiet (Suc m) w1" using mem_open_quiet [OF assms] by blast
  then have h: "mem_open w1 h = Some SIMIBOX_NVS_NAMESPACE" using mem.open_handle by blast
  have "mem_quiet (Suc m) (nvs_close mem_api h (snd (nvs_commit mem_api h (snd (nvs_set_u8 mem_api h NVS_KEY_BOOT_COUNT v w1)))))" for v
    using mem_set_quiet [OF o(2) h, of NVS_KEY_BOOT_COUNT "NvsU8 v"]
    by (auto simp: mem_api_def mem_pop_fault_def mem_quiet_def)
  then show "mem_quiet (Suc m) (set_boot_count mem_api n w)"
    "\<exists>c w'. bump_boot_count mem_api w = (Some c, w') \<and> mem_quiet (Suc m) w'"
    by (simp_all add: set_boot_count_def bump_boot_count_def o(1) Let_def)
qed

lemma boot_count_limit_witness:
  "\<exists>t. app_main demo_env (demo_app (demo_nvs 4 0)) = (Restart, t) \<and>
     boot_partition t = Some \<lparr>part_label = ''musicbox'', part_subtype = OTA 0\<rparr> \<and>
     mem_val (world t) SIMIBOX_NVS_NAMESPACE NVS_KEY_BOOT_COUNT = Some (NvsU8 0) \<and>
     mem_val (world t) SIMIBOX_NVS_NAMESPACE NVS_KEY_REASON = Some (NvsU8 1)"
proof -
  let ?w = "demo_nvs 4 0"
  obtain h w2 where o: "nvs_open mem_api SIMIBOX_NVS_NAMESPACE NVS_READWRITE ?w = ((ESP_OK, h), w2)"
    by (simp add: mem_api_def mem_nvs_open_def demo_nvs_def mem0_def)
  have q: "mem_quiet 0 ?w" by (simp add: mem_quiet_def demo_nvs_def mem0_def)
  obtain cnt w3 where b: "bump_boot_count mem_api ?w = (cnt, w3)" "mem_quiet (Suc 0) w3"
    using mem_set_boot_count_quiet(2) [OF q] by auto
  obtain h3 w4 where o3: "nvs_open mem_api SIMIBOX_NVS_NAMESPACE NVS_READWRITE w3 = ((ESP_OK, h3), w4)" "mem_quiet (Suc (Suc 0)) w4"
    using mem_open_quiet [OF b(2), of SIMIBOX_NVS_NAMESPACE NVS_READWRITE] by auto
  obtain w5 where p: "nvs_set_u8 mem_api h3 NVS_KEY_BOOT_COUNT 0 w4 = (ESP_OK, w5)"
    using mem.open_handle [OF o3(1)] o3(2) by (auto simp: mem_api_def mem_set_def mem_pop_fault_def mem_quiet_def)
  have "nvs demo_env = mem_api" "\<not> SEED_WIFI_CREDS (cfg demo_env)" "\<not> STAY_IN_DOWNLOADER (cfg demo_env)"
    "led_hw demo_env = (True, ESP_OK, [], True)" "set_boot_ret demo_env = ESP_OK"
    "find_musicbox_partition (parts demo_env) = Some \<lparr>part_label = ''musicbox'', part_subtype = OTA 0\<rparr>"
    by (simp_all add: demo_env_def build_cfg_of_def find_musicbox_partition_def MAIN_LABEL_def)
  moreover have "nvs_startup mem_api (world (demo_app ?w)) = Some ?w"
  proof -
    have "nvs_flash_init mem_api ?w = (ESP_OK, ?w)" by (simp add: mem_api_def demo_nvs_def mem0_def)
    moreover have "ESP_OK \<noteq> ESP_ERR_NVS_NO_FREE_PAGES" "ESP_OK \<noteq> ESP_ERR_NVS_NEW_VERSION_FOUND"
      by (simp_all add: esp_err_defs)
    ultimately show ?thesis by (simp add: nvs_startup_def demo_app_def)
  qed
  moreover have "mem_val ?w SIMIBOX_NVS_NAMESPACE NVS_KEY_BOOT_COUNT = Some (NvsU8 4)"
    "mem_val ?w SIMIBOX_NVS_NAMESPACE NVS_KEY_REASON = Some (NvsU8 1)" "NVS_KEY_REASON \<noteq> NVS_KEY_BOOT_COUNT"
    by (simp_all add: demo_nvs_def nvs_key_defs SIMIBOX_NVS_NAMESPACE_def)
  ultimately show ?thesis
    using boot_count_limit [of demo_env mem_open "\<lambda>w n k. mem_vals w (n, k)" "demo_app ?w" ?w 4 h w2 True
        "\<lparr>part_label = ''musicbox'', part_subtype = OTA 0\<rparr>" cnt w3 h3 w4 w5] mem.nvs_store_axioms o b(1) o3(1) p
    by auto
qed

lemma online_connect:
  assumes "mem_inits (world s) = []"
  shows "\<exists>t. connect_to_wifi_with_feedback online_env s = Some (True, t) \<and> world t = world s"
proof -
  have drv: "wifi_setup (wapi online_env) op w = (ESP_OK, w)"
    "esp_wifi_sta_get_ap_info (wapi online_env) w = (ESP_OK, \<lparr>ap_ssid = ''home'', ap_rssi = 0, ap_primary = 1\<rparr>)" for op w
    by (simp_all add: online_env_def demo_env_def demo_drv_def)
  have init: "\<exists>u. wifi_creds_init mem_api (wapi online_env) (wifi s) = Some (ESP_OK, zero_handle\<lparr>initialized := True\<rparr>, u) \<and>
      ww u = world s"
    using assms by (simp add: wifi_creds_init_def Let_def on_world_def drv mem_api_def)
  then obtain u where u: "wifi_creds_init mem_api (wapi online_env) (wifi s) =
      Some (ESP_OK, zero_handle\<lparr>initialized := True\<rparr>, u)" "ww u = world s" by blast
  have "connect_attempts online_env 3 ESP_FAIL v = (ESP_OK, v)" for v
    by (simp add: numeral_3_eq_3 wifi_creds_wait_for_connection_def drv esp_err_defs)
  then show ?thesis
    using u by (simp add: connect_to_wifi_with_feedback_def build_cfg_of_def second_source_def Let_def)
qed

lemma online_handle:
  assumes "no_faults (dev s)" "http (dev s) = http_boot [] [demo_session]" "bus (dev s) = demo_bus"
    and "cstr (folder (boot_state s)) = ''x''"
  shows "\<exists>d. handle_download_with_retry online_env s = (True, s\<lparr>dev := d\<rparr>)"
proof -
  have "fst (mount_sd ''/sdcard'' (force_clean_sd_bus demo_bus))"
    by (simp add: demo_bus_def mount_sd_def force_clean_sd_bus_def drop_card_def free_bus_def sd_power_cycle_def
        sd_aggressive_card_reset_def spi_bus_initialize_def mount_ladder_def sdspi_mount_def emit_def Let_def esp_err_defs
        SD_SPI_FREQ_KHZ_def)
  then obtain b where m: "mount_sd ''/sdcard'' (force_clean_sd_bus demo_bus) = (True, b)" by (metis prod.collapse)
  have b: "vol b = vol demo_bus" using mount_keeps_vol [OF m] clean_keeps_vol by simp
  define d1 where "d1 = (dev (on_led led_show_downloading s))\<lparr>bus := b\<rparr>"
  have "no_faults d1" "http d1 = http_boot [] [demo_session]" "vol (bus d1) = vol demo_bus"
    using assms b by (simp_all add: d1_def no_faults_def on_led_def)
  from demo_folder [OF this] obtain e where e: "download_simi_folder (fpo online_env) demo_js demo_reply ''x'' False d1 = (True, False, e)"
    by blast
  show ?thesis
    using m e assms(3,4) by (simp add: handle_download_with_retry_def Let_def on_bus_def on_led_def d1_def) (rule exI, rule refl)
qed

lemma online_start: "world (demo_app v) = v" "dev (demo_app v) = demo_dl" "reports (demo_app v) = []"
  "bus demo_dl = demo_bus"
  by (simp_all add: demo_app_def demo_dl_def)

lemma load_request_dev:
  assumes "load_request en s = Some t"
  shows "\<exists>p. dev t = (dev s)\<lparr>prog := p\<rparr>"
  using assms by (auto simp: load_request_def app_led_init_def on_led_def on_nvs_def Let_def split: option.splits prod.splits if_splits)

text \<open>The request the run serves.\<close>

definition online_boot :: "mem_nvs app" where
  "online_boot = on_nvs (\<lambda>_. snd (bump_boot_count mem_api (demo_nvs 0 0))) (demo_app (demo_nvs 0 0))"

definition online_request :: "mem_nvs app" where
  "online_request = the (load_request online_env online_boot)"

lemma online_facts:
  "boot_mgr_needs_download (bmgr online_request)" "retry_count (boot_state online_request) = 0"
  "cstr (folder (boot_state online_request)) = ''x''"
  "load_request online_env online_boot = None \<longleftrightarrow> False" "fst (bump_boot_count mem_api (demo_nvs 0 0)) = Some 1"
  by code_simp+

lemma online_run:
  "\<exists>s. app_main online_env (demo_app (demo_nvs 0 0)) = run_request online_env s \<and>
     boot_mgr_needs_download (bmgr s) \<and> retry_count (boot_state s) = 0 \<and> cstr (folder (boot_state s)) = ''x'' \<and>
     mem_quiet 2 (world s) \<and> bm_open mem_open (bmgr s) (world s) \<and> reports s = [] \<and>
     folder (g_current_state (bmgr s)) = folder (boot_state s) \<and> bus (dev s) = demo_bus \<and> http (dev s) = http_boot [] [demo_session] \<and> no_faults (dev s)"
proof -
  have q0: "mem_quiet 0 (demo_nvs 0 0)" by (simp add: mem_quiet_def demo_nvs_def mem0_def)
  obtain w where w: "bump_boot_count mem_api (demo_nvs 0 0) = (Some 1, w)" "mem_quiet 1 w"
    using mem_set_boot_count_quiet(2) [OF q0] online_facts(5) by auto
  have boot: "online_boot = on_nvs (\<lambda>_. w) (demo_app (demo_nvs 0 0))" by (simp add: online_boot_def w(1))
  have load: "load_request online_env online_boot = Some online_request" using online_facts(4) by (auto simp: online_request_def)
  have "nvs_startup mem_api (demo_nvs 0 0) = Some (demo_nvs 0 0)"
    by (simp add: nvs_startup_def mem_api_def demo_nvs_def mem0_def esp_err_defs)
  then have run: "app_main online_env (demo_app (demo_nvs 0 0)) = run_request online_env online_request"
    using load w(1) by (simp add: app_main_def boot online_start build_cfg_of_def MAX_BOOT_FAILURES_def Let_def word_le_nat_alt)
  from load obtain b v where i: "boot_mgr_init mem_api (bmgr online_boot) (world online_boot) = (ESP_OK, b, v)"
    and r: "bmgr online_request = b\<lparr>g_current_state := boot_state online_request\<rparr>" "world online_request = v"
      "reports online_request = reports online_boot" "bus (dev online_request) = bus (dev online_boot)"
      "http (dev online_request) = http (dev online_boot)"
    by (rule load_requestE) (simp_all add: build_cfg_of_def)
  have "mem_quiet 2 v" using mem_init_quiet [of 1 w "bmgr online_boot"] w(2) i by (auto simp: boot simp flip: numeral_2_eq_2)
  moreover have "bm_open mem_open b v" by (rule mem.init_ok(1) [OF i])
  moreover have "no_faults (dev online_boot)" by (simp add: boot demo_idle online_start)
  then have "no_faults (dev online_request)" using load_request_dev [OF load] by (auto simp: no_faults_def)
  ultimately show ?thesis
    using run online_facts(1-3) r by (intro exI [of _ online_request]) (simp add: bm_open_def boot demo_boot online_start)
qed

lemma success_is_delivered_witness:
  "\<exists>t. app_main online_env (demo_app (demo_nvs 0 0)) = (Restart, t) \<and> delivered demo_js ''x'' (vol (bus (dev t)))"
proof -
  obtain s where run: "app_main online_env (demo_app (demo_nvs 0 0)) = run_request online_env s"
    and s: "boot_mgr_needs_download (bmgr s)" "retry_count (boot_state s) = 0" "cstr (folder (boot_state s)) = ''x''"
      "mem_quiet 2 (world s)" "bm_open mem_open (bmgr s) (world s)" "reports s = []"
      "bus (dev s) = demo_bus" "http (dev s) = http_boot [] [demo_session]" "no_faults (dev s)"
    and s_folder: "folder (g_current_state (bmgr s)) = folder (boot_state s)"
    using online_run by blast
  have "mem_inits (world s) = []" using s(4) by (simp add: mem_quiet_def)
  from online_connect [OF this] obtain u where u: "connect_to_wifi_with_feedback online_env s = Some (True, u)" "world u = world s"
    by blast
  have c: "bmgr u = bmgr s" "folder (boot_state u) = folder (boot_state s)" "dev u = (dev s)\<lparr>prog := prog (dev u)\<rparr>"
    using calm_connect [OF u(1)] by (simp_all add: calm_def)
  have ru: "reports u = []" using online_ww.steady_connect [OF _ _ u(1)] s(6) by (simp add: steady_def)
  have "no_faults (dev u)" "http (dev u) = http_boot [] [demo_session]" "bus (dev u) = demo_bus"
    using s(7-9) by (subst c(3), simp add: no_faults_def)+
  from online_handle [OF this] obtain d where h: "handle_download_with_retry online_env u = (True, u\<lparr>dev := d\<rparr>)"
    using c(2) s(3) by auto
  let ?st = "(g_current_state (bmgr s))\<lparr>reason := BOOT_REASON_DOWNLOAD_SUCCESS, last_error := DOWNLOAD_ERROR_NONE,
                   download_progress := 100\<rparr>"
  have op: "bm_open mem_open ((bmgr s)\<lparr>g_current_state := ?st\<rparr>) (world s)" using s(5) by (simp add: bm_open_def)
  obtain b v where sv: "boot_mgr_save_state mem_api (Some ?st) ((bmgr s)\<lparr>g_current_state := ?st\<rparr>) (world s) = (ESP_OK, b, v)"
    "mem_quiet 2 v" using mem_save_quiet [OF s(4) op] by blast
  let ?u = "(on_nvs (\<lambda>_. v) (u\<lparr>dev := d\<rparr>))\<lparr>bmgr := b, reports := [ESP_OK]\<rparr>"
  have rs: "report_success online_env (u\<lparr>dev := d\<rparr>) = ?u"
    using sv(1) by (simp add: report_success_def boot_mgr_report_success_def Let_def c(1) u(2) ru)
  obtain t where t: "run_request online_env s = (Restart, t)" "world t = set_boot_count mem_api 0 v" "reports t = [ESP_OK]"
    using s(1,2) u(1) h rs
    by (cases "find_musicbox_partition (parts online_env)")
      (simp_all add: run_request_def Let_def boot_musicbox_and_restart_def build_cfg_of_def on_nvs_def word_le_nat_alt)
  have m: "nvs_mirrors (\<lambda>w n k. mem_vals w (n, k)) (world t) ?st"
    using online_ww.set_boot_count_mirrors mem.save_state_ok(1) [OF op sv(1)] t(2) by simp
  obtain b2 w2 where i: "boot_mgr_init mem_api boot_mgr_zero (world t) = (ESP_OK, b2, w2)"
    using mem_init_quiet [OF mem_set_boot_count_quiet(1) [OF sv(2)]] t(2) by fastforce
  have re: "reason (g_current_state b2) = BOOT_REASON_DOWNLOAD_SUCCESS"
    using online_ww.read_answer(1) [OF i m, of "g_current_state (bmgr s)"] by (simp add: answer_of_def)
  have fo: "cstr (folder (g_current_state b2)) = ''x''"
    using online_ww.read_folder [OF i m] s_folder s(3) by simp
  have "fs_wf (vol (bus (dev (demo_app (demo_nvs 0 0)))))" using demo_vol_wf by (simp add: online_start)
  from success_is_delivered [OF online_ww.wifi_world_axioms [folded online_sel(1)] _ this, of Restart t b2 w2]
  show ?thesis using run t(1,3) i re fo by (auto simp: online_start build_cfg_of_def)
qed

end
