(* ===== verification/Jsmn.thy ===== *)
theory Jsmn
  imports Prelude
begin

text \<open>
  The JSON tokenizer \<^verbatim>\<open>src/managed_components/espressif__jsmn/include/jsmn.h\<close>: the token pool, the
  scanners of strings and primitives, and \<^verbatim>\<open>jsmn_parse\<close>. The build without \<^verbatim>\<open>JSMN_PARENT_LINKS\<close> is
  modelled; the switch \<^verbatim>\<open>JSMN_STRICT\<close> is the argument \<open>strict\<close>. The text is a list of characters,
  so a read at \<open>pos < len\<close> is in bounds; the token array is \<open>None\<close> for the null pointer and else a
  list whose length is \<^verbatim>\<open>num_tokens\<close>. Every access to \<^verbatim>\<open>tokens[toksuper]\<close> and every loop over the
  stored tokens is checked against that length: an access outside it, undefined in C, is the
  outcome \<open>TOKEN_FAULT\<close> of the model. Positions stay below the length of the text, so that the
  \<^verbatim>\<open>unsigned\<close> counters are natural numbers. A result is a count or one of the error codes.
\<close>

section \<open>Types\<close>

datatype jsmntype_t = JSMN_UNDEFINED | JSMN_OBJECT | JSMN_ARRAY | JSMN_STRING | JSMN_PRIMITIVE

definition JSMN_ERROR_NOMEM :: int where "JSMN_ERROR_NOMEM = - 1"
definition JSMN_ERROR_INVAL :: int where "JSMN_ERROR_INVAL = - 2"
definition JSMN_ERROR_PART :: int where "JSMN_ERROR_PART = - 3"

text \<open>Not a code of the library: an access outside the token array.\<close>

definition TOKEN_FAULT :: int where "TOKEN_FAULT = - 4"

lemmas jsmn_errs = JSMN_ERROR_NOMEM_def JSMN_ERROR_INVAL_def JSMN_ERROR_PART_def TOKEN_FAULT_def

record jsmntok_t =
  tok_type :: jsmntype_t
  tok_start :: int
  tok_end :: int
  tok_size :: int

record jsmn_parser =
  pos :: nat
  toknext :: nat
  toksuper :: int

type_synonym toks = "jsmntok_t list option"

definition jsmn_init :: jsmn_parser where
  "jsmn_init = \<lparr>pos = 0, toknext = 0, toksuper = - 1\<rparr>"

section \<open>Token pool\<close>

definition jsmn_alloc_token :: "jsmn_parser \<Rightarrow> jsmntok_t list \<Rightarrow> (nat \<times> jsmn_parser \<times> jsmntok_t list) option" where
  "jsmn_alloc_token p ts =
     (if toknext p \<ge> length ts then None
      else Some (toknext p, p\<lparr>toknext := toknext p + 1\<rparr>,
        ts[toknext p := (ts ! toknext p)\<lparr>tok_start := - 1, tok_end := - 1, tok_size := 0\<rparr>]))"

definition jsmn_fill_token :: "jsmntype_t \<Rightarrow> int \<Rightarrow> int \<Rightarrow> jsmntok_t" where
  "jsmn_fill_token ty s e = \<lparr>tok_type = ty, tok_start = s, tok_end = e, tok_size = 0\<rparr>"

section \<open>Scanners\<close>

text \<open>\<open>prim_scan strict cs i\<close>: the characters from position \<open>i\<close> on; where the primitive ends, or the
  error.\<close>

definition prim_delims :: "bool \<Rightarrow> string" where
  "prim_delims strict = (if strict then '''' else '':'') @ [CHR 0x09, CHR 0x0D, CHR 0x0A, CHR '' '', CHR '','', CHR '']'', CHR ''}'']"

fun prim_scan :: "bool \<Rightarrow> string \<Rightarrow> nat \<Rightarrow> int + nat" where
  "prim_scan strict [] i = (if strict then Inl JSMN_ERROR_PART else Inr i)"
| "prim_scan strict (c # cs) i =
     (if c = NUL then (if strict then Inl JSMN_ERROR_PART else Inr i)
      else if c \<in> set (prim_delims strict) then Inr i
      else if of_char c < (32 :: nat) \<or> of_char c \<ge> (127 :: nat) then Inl JSMN_ERROR_INVAL
      else prim_scan strict cs (Suc i))"

definition hex_char :: "char \<Rightarrow> bool" where
  "hex_char c = (let n = of_char c :: nat in (48 \<le> n \<and> n \<le> 57) \<or> (65 \<le> n \<and> n \<le> 70) \<or> (97 \<le> n \<and> n \<le> 102))"

text \<open>At most \<open>n\<close> hexadecimal digits; \<open>None\<close> for another character among them.\<close>

fun hex_run :: "nat \<Rightarrow> string \<Rightarrow> string option" where
  "hex_run 0 cs = Some cs"
| "hex_run (Suc n) [] = Some []"
| "hex_run (Suc n) (c # cs) =
     (if c = NUL then Some (c # cs) else if \<not> hex_char c then None else hex_run n cs)"

lemma hex_run_length: "hex_run n cs = Some r \<Longrightarrow> length r \<le> length cs"
  by (induction n cs rule: hex_run.induct) (auto split: if_splits)

text \<open>The end of a string: the position of the closing quote.\<close>

function str_scan :: "string \<Rightarrow> nat \<Rightarrow> int + nat" where
  "str_scan [] i = Inl JSMN_ERROR_PART"
| "str_scan (c # cs) i =
     (if c = NUL then Inl JSMN_ERROR_PART
      else if c = CHR 0x22 then Inr i
      else if c = CHR 0x5C \<and> cs \<noteq> [] then
        (if hd cs \<in> set [CHR 0x22, CHR ''/'', CHR 0x5C, CHR ''b'', CHR ''f'', CHR ''r'', CHR ''n'', CHR ''t'']
         then str_scan (tl cs) (i + 2)
         else if hd cs = CHR ''u'' then
           (case hex_run 4 (tl cs) of
              None \<Rightarrow> Inl JSMN_ERROR_INVAL
            | Some r \<Rightarrow> str_scan r (i + 2 + (length (tl cs) - length r)))
         else Inl JSMN_ERROR_INVAL)
      else str_scan cs (Suc i))"
  by pat_completeness auto
termination
  by (relation "measure (\<lambda>(cs, i). length cs)") (auto dest!: hex_run_length simp: le_imp_less_Suc less_Suc_eq_le)

text \<open>Both parsers store the token in the next free entry; on an error the position is restored.\<close>

definition jsmn_parse_primitive :: "bool \<Rightarrow> string \<Rightarrow> jsmn_parser \<Rightarrow> toks \<Rightarrow> int \<times> jsmn_parser \<times> toks" where
  "jsmn_parse_primitive strict js p tokens =
     (let start = pos p in
      case prim_scan strict (drop start js) start of
        Inl e \<Rightarrow> (e, p, tokens)
      | Inr i \<Rightarrow>
          (case tokens of
             None \<Rightarrow> (0, p\<lparr>pos := i - 1\<rparr>, None)
           | Some ts \<Rightarrow>
               (case jsmn_alloc_token p ts of
                  None \<Rightarrow> (JSMN_ERROR_NOMEM, p, tokens)
                | Some (t, p1, ts1) \<Rightarrow>
                    (0, p1\<lparr>pos := i - 1\<rparr>, Some (ts1[t := jsmn_fill_token JSMN_PRIMITIVE (int start) (int i)])))))"

definition jsmn_parse_string :: "string \<Rightarrow> jsmn_parser \<Rightarrow> toks \<Rightarrow> int \<times> jsmn_parser \<times> toks" where
  "jsmn_parse_string js p tokens =
     (let start = pos p in
      case str_scan (drop (start + 1) js) (start + 1) of
        Inl e \<Rightarrow> (e, p, tokens)
      | Inr i \<Rightarrow>
          (case tokens of
             None \<Rightarrow> (0, p\<lparr>pos := i\<rparr>, None)
           | Some ts \<Rightarrow>
               (case jsmn_alloc_token p ts of
                  None \<Rightarrow> (JSMN_ERROR_NOMEM, p, tokens)
                | Some (t, p1, ts1) \<Rightarrow>
                    (0, p1\<lparr>pos := i\<rparr>, Some (ts1[t := jsmn_fill_token JSMN_STRING (int start + 1) (int i)])))))"

section \<open>The parser\<close>

definition tok_open :: "jsmntok_t \<Rightarrow> bool" where
  "tok_open t = (tok_start t \<noteq> - 1 \<and> tok_end t = - 1)"

text \<open>The last of the first \<open>n\<close> tokens with a property: the downward loops.\<close>

fun last_tok :: "(jsmntok_t \<Rightarrow> bool) \<Rightarrow> jsmntok_t list \<Rightarrow> nat \<Rightarrow> nat option" where
  "last_tok P ts 0 = None"
| "last_tok P ts (Suc n) = (if P (ts ! n) then Some n else last_tok P ts n)"

definition is_container :: "jsmntok_t \<Rightarrow> bool" where
  "is_container t = (tok_type t = JSMN_ARRAY \<or> tok_type t = JSMN_OBJECT)"

text \<open>The checked access to an entry, the test \<^verbatim>\<open>toksuper != -1 && P(tokens[toksuper])\<close>, the increment of
  the super token's size, and the downward loop over the tokens stored (whose first access is the
  one at \<open>n - 1\<close>). \<open>None\<close>: an access outside the array.\<close>

definition tok_at :: "jsmntok_t list \<Rightarrow> int \<Rightarrow> jsmntok_t option" where
  "tok_at ts i = (if 0 \<le> i \<and> i < int (length ts) then Some (ts ! nat i) else None)"

definition super_test :: "int \<Rightarrow> jsmntok_t list \<Rightarrow> (jsmntok_t \<Rightarrow> bool) \<Rightarrow> bool option" where
  "super_test i ts P = (if i = - 1 then Some False else map_option P (tok_at ts i))"

definition bump_size :: "int \<Rightarrow> jsmntok_t list \<Rightarrow> jsmntok_t list option" where
  "bump_size i ts =
     (if i = - 1 then Some ts
      else map_option (\<lambda>t. ts[nat i := t\<lparr>tok_size := tok_size t + 1\<rparr>]) (tok_at ts i))"

definition stored_last :: "(jsmntok_t \<Rightarrow> bool) \<Rightarrow> jsmntok_t list \<Rightarrow> nat \<Rightarrow> nat option option" where
  "stored_last P ts n = (if length ts < n then None else Some (last_tok P ts n))"

text \<open>A step goes on with a new state, or stops with an error code and the state reached.\<close>

type_synonym stop = "int \<times> jsmn_parser \<times> toks"

definition open_step :: "bool \<Rightarrow> jsmntype_t \<Rightarrow> jsmn_parser \<Rightarrow> toks \<Rightarrow> stop + (jsmn_parser \<times> toks)" where
  "open_step strict ty p tokens =
     (case tokens of
        None \<Rightarrow> Inr (p, None)
      | Some ts \<Rightarrow>
          (case jsmn_alloc_token p ts of
             None \<Rightarrow> Inl (JSMN_ERROR_NOMEM, p, tokens)
           | Some (t, p1, ts1) \<Rightarrow>
               (case (if strict then super_test (toksuper p1) ts1 (\<lambda>t. tok_type t = JSMN_OBJECT) else Some False) of
                  None \<Rightarrow> Inl (TOKEN_FAULT, p1, Some ts1)
                | Some True \<Rightarrow> Inl (JSMN_ERROR_INVAL, p1, Some ts1)
                | Some False \<Rightarrow>
                    (case bump_size (toksuper p1) ts1 of
                       None \<Rightarrow> Inl (TOKEN_FAULT, p1, Some ts1)
                     | Some ts2 \<Rightarrow>
                         Inr (p1\<lparr>toksuper := int (toknext p1) - 1\<rparr>,
                           Some (ts2[t := (ts2 ! t)\<lparr>tok_type := ty, tok_start := int (pos p1)\<rparr>]))))))"

definition close_step :: "jsmntype_t \<Rightarrow> jsmn_parser \<Rightarrow> toks \<Rightarrow> stop + (jsmn_parser \<times> toks)" where
  "close_step ty p tokens =
     (case tokens of
        None \<Rightarrow> Inr (p, None)
      | Some ts \<Rightarrow>
          (case stored_last tok_open ts (toknext p) of
             None \<Rightarrow> Inl (TOKEN_FAULT, p, tokens)
           | Some None \<Rightarrow> Inl (JSMN_ERROR_INVAL, p, tokens)
           | Some (Some i) \<Rightarrow>
               if tok_type (ts ! i) \<noteq> ty then Inl (JSMN_ERROR_INVAL, p, tokens)
               else
                 (let ts1 = ts[i := (ts ! i)\<lparr>tok_end := int (pos p) + 1\<rparr>] in
                  Inr (p\<lparr>toksuper := (case last_tok tok_open ts1 (Suc i) of None \<Rightarrow> - 1 | Some k \<Rightarrow> int k)\<rparr>, Some ts1))))"

definition comma_step :: "jsmn_parser \<Rightarrow> toks \<Rightarrow> jsmn_parser option" where
  "comma_step p tokens =
     (case tokens of
        None \<Rightarrow> Some p
      | Some ts \<Rightarrow>
          (case super_test (toksuper p) ts (\<lambda>t. \<not> is_container t) of
             None \<Rightarrow> None
           | Some False \<Rightarrow> Some p
           | Some True \<Rightarrow>
               (case stored_last (\<lambda>t. is_container t \<and> tok_open t) ts (toknext p) of
                  None \<Rightarrow> None
                | Some None \<Rightarrow> Some p
                | Some (Some i) \<Rightarrow> Some (p\<lparr>toksuper := int i\<rparr>))))"

text \<open>After a string or a primitive.\<close>

definition bump_toks :: "int \<Rightarrow> toks \<Rightarrow> toks option" where
  "bump_toks i tokens = (case tokens of None \<Rightarrow> Some None | Some ts \<Rightarrow> map_option Some (bump_size i ts))"

definition value_step :: "int \<times> jsmn_parser \<times> toks \<Rightarrow> stop + (jsmn_parser \<times> toks)" where
  "value_step r =
     (case r of (e, p, tokens) \<Rightarrow>
        if e < 0 then Inl r
        else (case bump_toks (toksuper p) tokens of
                None \<Rightarrow> Inl (TOKEN_FAULT, p, tokens)
              | Some tokens' \<Rightarrow> Inr (p, tokens')))"

definition prim_start :: "char \<Rightarrow> bool" where
  "prim_start c = (c \<in> set ''-0123456789tfn'')"

definition key_clash :: "jsmn_parser \<Rightarrow> toks \<Rightarrow> bool option" where
  "key_clash p tokens =
     (case tokens of
        None \<Rightarrow> Some False
      | Some ts \<Rightarrow> super_test (toksuper p) ts
          (\<lambda>t. tok_type t = JSMN_OBJECT \<or> (tok_type t = JSMN_STRING \<and> tok_size t \<noteq> 0)))"

text \<open>One character: the new state and by how much the count grows.\<close>

definition jsmn_step :: "bool \<Rightarrow> string \<Rightarrow> jsmn_parser \<Rightarrow> toks \<Rightarrow> stop + (jsmn_parser \<times> toks) \<times> nat" where
  "jsmn_step strict js p tokens =
     (let c = js ! pos p in
      if c = CHR ''{'' \<or> c = CHR ''['' then
        map_sum id (\<lambda>r. (r, 1)) (open_step strict (if c = CHR ''{'' then JSMN_OBJECT else JSMN_ARRAY) p tokens)
      else if c = CHR ''}'' \<or> c = CHR '']'' then
        map_sum id (\<lambda>r. (r, 0)) (close_step (if c = CHR ''}'' then JSMN_OBJECT else JSMN_ARRAY) p tokens)
      else if c = CHR 0x22 then map_sum id (\<lambda>r. (r, 1)) (value_step (jsmn_parse_string js p tokens))
      else if c \<in> set [CHR 0x09, CHR 0x0D, CHR 0x0A, CHR '' ''] then Inr ((p, tokens), 0)
      else if c = CHR '':'' then Inr ((p\<lparr>toksuper := int (toknext p) - 1\<rparr>, tokens), 0)
      else if c = CHR '','' then
        (case comma_step p tokens of None \<Rightarrow> Inl (TOKEN_FAULT, p, tokens) | Some p' \<Rightarrow> Inr ((p', tokens), 0))
      else if strict \<and> \<not> prim_start c then Inl (JSMN_ERROR_INVAL, p, tokens)
      else if strict \<and> key_clash p tokens = None then Inl (TOKEN_FAULT, p, tokens)
      else if strict \<and> key_clash p tokens = Some True then Inl (JSMN_ERROR_INVAL, p, tokens)
      else map_sum id (\<lambda>r. (r, 1)) (value_step (jsmn_parse_primitive strict js p tokens)))"

section \<open>Scanning moves forward and stays in the text\<close>

lemma prim_scan_bounds:
  "prim_scan strict cs i = Inr j \<Longrightarrow> i \<le> j \<and> j \<le> i + length cs"
  by (induction strict cs i rule: prim_scan.induct) (auto split: if_splits)

lemma prim_scan_first:
  assumes "prim_scan strict (c # cs) i = Inr j" and "c \<noteq> NUL" and "c \<notin> set (prim_delims strict)"
  shows "i < j"
  using assms prim_scan_bounds [of strict cs "Suc i" j] by (auto split: if_splits)

lemma prim_scan_err: "prim_scan strict cs i = Inl e \<Longrightarrow> e < 0"
  by (induction strict cs i rule: prim_scan.induct) (auto simp: jsmn_errs split: if_splits)

lemma str_scan_bounds: "str_scan cs i = Inr j \<Longrightarrow> i \<le> j \<and> j < i + length cs"
proof (induction cs i rule: str_scan.induct)
  case (2 c cs i)
  consider (quote) "c \<noteq> NUL" "c = CHR 0x22" "j = i"
    | (esc) "c = CHR 0x5C" "cs \<noteq> []" "str_scan (tl cs) (i + 2) = Inr j"
        "hd cs \<in> set [CHR 0x22, CHR ''/'', CHR 0x5C, CHR ''b'', CHR ''f'', CHR ''r'', CHR ''n'', CHR ''t'']"
    | (uni) r where "c = CHR 0x5C" "cs \<noteq> []" "hex_run 4 (tl cs) = Some r"
        "hd cs \<notin> set [CHR 0x22, CHR ''/'', CHR 0x5C, CHR ''b'', CHR ''f'', CHR ''r'', CHR ''n'', CHR ''t'']"
        "hd cs = CHR ''u''" "str_scan r (i + 2 + (length (tl cs) - length r)) = Inr j"
    | (plain) "c \<noteq> NUL" "c \<noteq> CHR 0x22" "\<not> (c = CHR 0x5C \<and> cs \<noteq> [])" "str_scan cs (Suc i) = Inr j"
    using 2(4) by (auto split: if_splits option.splits)
  then show ?case
  proof cases
    case esc
    then have "i + 2 \<le> j \<and> j < i + 2 + length (tl cs)" using 2(1) by simp
    then show ?thesis using esc(2) by (cases cs) auto
  next
    case (uni r)
    then have "i + 2 + (length (tl cs) - length r) \<le> j \<and> j < i + 2 + (length (tl cs) - length r) + length r"
      using 2(2) [of r] by simp
    then show ?thesis using uni(2) hex_run_length [OF uni(3)] by (cases cs) auto
  next
    case plain
    then show ?thesis using 2(3) by auto
  qed simp
qed simp

lemma str_scan_err: "str_scan cs i = Inl e \<Longrightarrow> e < 0"
  by (induction cs i rule: str_scan.induct) (auto simp: jsmn_errs split: if_splits option.splits)

lemma str_scan_codes: "str_scan cs i = Inl e \<Longrightarrow> e \<in> {JSMN_ERROR_INVAL, JSMN_ERROR_PART}"
  by (induction cs i rule: str_scan.induct) (auto split: if_splits option.splits)

lemma prim_scan_codes: "prim_scan strict cs i = Inl e \<Longrightarrow> e \<in> {JSMN_ERROR_INVAL, JSMN_ERROR_PART}"
  by (induction strict cs i rule: prim_scan.induct) (auto split: if_splits)

lemma alloc_SomeD:
  "jsmn_alloc_token p ts = Some (t, p1, ts1) \<Longrightarrow> t = toknext p \<and> toknext p < length ts \<and> p1 = p\<lparr>toknext := toknext p + 1\<rparr> \<and>
     ts1 = ts[t := (ts ! t)\<lparr>tok_start := - 1, tok_end := - 1, tok_size := 0\<rparr>]"
  by (auto simp: jsmn_alloc_token_def split: if_splits)

text \<open>What the two value parsers do when they succeed.\<close>

lemma parse_primitiveE:
  assumes "jsmn_parse_primitive strict js p tokens = (e, p', tokens')" and "\<not> e < 0"
  obtains i where "prim_scan strict (drop (pos p) js) (pos p) = Inr i" "e = 0" "pos p' = i - 1" "toksuper p' = toksuper p"
    "(tokens = None \<and> tokens' = None \<and> toknext p' = toknext p) \<or>
     (\<exists>ts. tokens = Some ts \<and> toknext p < length ts \<and> toknext p' = toknext p + 1 \<and>
        tokens' = Some (ts[toknext p := jsmn_fill_token JSMN_PRIMITIVE (int (pos p)) (int i)]))"
proof (cases "prim_scan strict (drop (pos p) js) (pos p)")
  case (Inl e')
  then show ?thesis using assms prim_scan_err [OF Inl] by (auto simp: jsmn_parse_primitive_def)
next
  case (Inr i)
  show ?thesis
    using assms Inr that [of i]
    by (auto simp: jsmn_parse_primitive_def Let_def jsmn_errs split: option.splits dest!: alloc_SomeD)
qed

lemma parse_stringE:
  assumes "jsmn_parse_string js p tokens = (e, p', tokens')" and "\<not> e < 0"
  obtains i where "str_scan (drop (pos p + 1) js) (pos p + 1) = Inr i" "e = 0" "pos p' = i" "toksuper p' = toksuper p"
    "(tokens = None \<and> tokens' = None \<and> toknext p' = toknext p) \<or>
     (\<exists>ts. tokens = Some ts \<and> toknext p < length ts \<and> toknext p' = toknext p + 1 \<and>
        tokens' = Some (ts[toknext p := jsmn_fill_token JSMN_STRING (int (pos p) + 1) (int i)]))"
proof (cases "str_scan (drop (pos p + 1) js) (pos p + 1)")
  case (Inl e')
  then show ?thesis using assms str_scan_err [OF Inl] by (auto simp: jsmn_parse_string_def)
next
  case (Inr i)
  show ?thesis
    using assms Inr that [of i]
    by (auto simp: jsmn_parse_string_def Let_def jsmn_errs split: option.splits dest!: alloc_SomeD)
qed

text \<open>The cases of a step that goes on.\<close>

lemma jsmn_stepE:
  assumes "jsmn_step strict js p tokens = Inr ((p', tokens'), n)"
  obtains (opened) ty where "(ty = JSMN_OBJECT \<and> js ! pos p = CHR ''{'') \<or> (ty = JSMN_ARRAY \<and> js ! pos p = CHR ''['')" "open_step strict ty p tokens = Inr (p', tokens')" "n = 1"
    | (closed) ty where "(ty = JSMN_OBJECT \<and> js ! pos p = CHR ''}'') \<or> (ty = JSMN_ARRAY \<and> js ! pos p = CHR '']'')" "close_step ty p tokens = Inr (p', tokens')" "n = 0"
    | (str) e p1 t1 where "jsmn_parse_string js p tokens = (e, p1, t1)" "\<not> e < 0" "p' = p1"
        "bump_toks (toksuper p1) t1 = Some tokens'" "n = 1" "js ! pos p = CHR 0x22"
    | (skip) "p' = p \<or> p' = p\<lparr>toksuper := int (toknext p) - 1\<rparr> \<or> comma_step p tokens = Some p'" "tokens' = tokens" "n = 0"
    | (prim) e p1 t1 where "jsmn_parse_primitive strict js p tokens = (e, p1, t1)" "\<not> e < 0" "p' = p1"
        "bump_toks (toksuper p1) t1 = Some tokens'" "n = 1" "js ! pos p \<notin> set (prim_delims strict)"
proof -
  define c where "c = js ! pos p"
  have sum: "map_sum id f x = Inr y \<longleftrightarrow> (\<exists>z. x = Inr z \<and> f z = y)" for f :: "'x \<Rightarrow> 'y" and x :: "stop + 'x" and y
    by (cases x) auto
  have val: "value_step r = Inr z \<longleftrightarrow>
      \<not> fst r < 0 \<and> fst z = fst (snd r) \<and> bump_toks (toksuper (fst (snd r))) (snd (snd r)) = Some (snd z)" for r z
    by (cases z) (auto simp: value_step_def split: prod.splits if_splits option.splits)
  consider "c = CHR ''{'' \<or> c = CHR ''[''" | "c = CHR ''}'' \<or> c = CHR '']''" | "c = CHR 0x22"
    | "c \<in> set [CHR 0x09, CHR 0x0D, CHR 0x0A, CHR '' '', CHR '':'', CHR '','']"
    | "c \<notin> set [CHR ''{'', CHR ''['', CHR ''}'', CHR '']'', CHR 0x22, CHR 0x09, CHR 0x0D, CHR 0x0A, CHR '' '', CHR '':'', CHR '','']"
    by fastforce
  then show ?thesis
  proof cases
    case 1
    then show ?thesis
      using assms opened [of "if c = CHR ''{'' then JSMN_OBJECT else JSMN_ARRAY"]
      by (auto simp: jsmn_step_def Let_def c_def [symmetric] sum)
  next
    case 2
    then show ?thesis
      using assms closed [of "if c = CHR ''}'' then JSMN_OBJECT else JSMN_ARRAY"]
      by (auto simp: jsmn_step_def Let_def c_def [symmetric] sum)
  next
    case 3
    then show ?thesis
      using assms str by (cases "jsmn_parse_string js p tokens") (auto simp: jsmn_step_def Let_def c_def [symmetric] sum val)
  next
    case 4
    then have "c \<in> set [CHR 0x09, CHR 0x0D, CHR 0x0A, CHR '' ''] \<or> c = CHR '':'' \<or> c = CHR '',''" by simp
    then show ?thesis
    proof (elim disjE)
      assume "c \<in> set [CHR 0x09, CHR 0x0D, CHR 0x0A, CHR '' '']"
      then have "jsmn_step strict js p tokens = Inr ((p, tokens), 0)"
        unfolding jsmn_step_def Let_def c_def [symmetric] by (simp, elim disjE) simp_all
      then show ?thesis using assms skip by simp
    next
      assume "c = CHR '':''"
      then have "jsmn_step strict js p tokens = Inr ((p\<lparr>toksuper := int (toknext p) - 1\<rparr>, tokens), 0)"
        unfolding jsmn_step_def Let_def c_def [symmetric] by simp
      then show ?thesis using assms skip by simp
    next
      assume "c = CHR '',''"
      then have "jsmn_step strict js p tokens =
          (case comma_step p tokens of None \<Rightarrow> Inl (TOKEN_FAULT, p, tokens) | Some p' \<Rightarrow> Inr ((p', tokens), 0))"
        unfolding jsmn_step_def Let_def c_def [symmetric] by simp
      then show ?thesis using assms skip by (simp split: option.splits)
    qed
  next
    case 5
    have ns: "\<not> (c = CHR ''{'' \<or> c = CHR ''['')" "\<not> (c = CHR ''}'' \<or> c = CHR '']'')" "c \<noteq> CHR 0x22"
      "c \<notin> set [CHR 0x09, CHR 0x0D, CHR 0x0A, CHR '' '']" "c \<noteq> CHR '':''" "c \<noteq> CHR '',''"
      using 5 by simp_all
    have d: "c \<notin> set (prim_delims strict)" using 5 by (simp add: prim_delims_def)
    obtain e p1 t1 where r: "jsmn_parse_primitive strict js p tokens = (e, p1, t1)"
      by (cases "jsmn_parse_primitive strict js p tokens")
    have "value_step (e, p1, t1) = Inr (p', tokens') \<and> n = 1"
      using assms [unfolded jsmn_step_def Let_def c_def [symmetric] if_not_P [OF ns(1)] if_not_P [OF ns(2)]
          if_not_P [OF ns(3)] if_not_P [OF ns(4)] if_not_P [OF ns(5)] if_not_P [OF ns(6)] r]
      unfolding sum by (simp add: sum split: if_split_asm)
    then show ?thesis using prim [OF r] d by (simp add: val c_def)
  qed
qed

lemma comma_pos: "comma_step p tokens = Some p' \<Longrightarrow> pos p' = pos p \<and> toknext p' = toknext p"
  by (auto simp: comma_step_def split: option.splits bool.splits)

lemma open_pos: "open_step strict ty p tokens = Inr (p', tokens') \<Longrightarrow> pos p' = pos p"
  by (auto simp: open_step_def Let_def split: option.splits if_splits bool.splits dest!: alloc_SomeD)

lemma close_pos: "close_step ty p tokens = Inr (p', tokens') \<Longrightarrow> pos p' = pos p \<and> toknext p' = toknext p"
  by (auto simp: close_step_def Let_def split: option.splits if_splits)

lemma jsmn_step_pos:
  assumes "jsmn_step strict js p tokens = Inr ((p', tokens'), n)" and "pos p < length js" and "js ! pos p \<noteq> NUL"
  shows "pos p \<le> pos p' \<and> pos p' < length js"
  using assms(1)
proof (cases rule: jsmn_stepE)
  case (opened ty)
  then show ?thesis using open_pos assms(2) by auto
next
  case (closed ty)
  then show ?thesis using close_pos assms(2) by auto
next
  case (str e p1 t1)
  from str(1,2) obtain i where i: "str_scan (drop (pos p + 1) js) (pos p + 1) = Inr i" "pos p1 = i" by (rule parse_stringE)
  then show ?thesis using str_scan_bounds [OF i(1)] str(3) by auto
next
  case skip
  then show ?thesis using assms(2) comma_pos [of p tokens p'] by auto
next
  case (prim e p1 t1)
  from prim(1,2) obtain i where i: "prim_scan strict (drop (pos p) js) (pos p) = Inr i" "pos p1 = i - 1"
    by (rule parse_primitiveE)
  have d: "drop (pos p) js = js ! pos p # drop (Suc (pos p)) js" using assms(2) by (rule Cons_nth_drop_Suc [symmetric])
  have "pos p < i" using prim_scan_first [OF i(1) [unfolded d] assms(3) prim(6)] .
  moreover have "i \<le> length js" using prim_scan_bounds [OF i(1)] assms(2) by simp
  ultimately have "pos p \<le> i - 1" "i - 1 < length js" by linarith+
  then show ?thesis using i(2) prim(3) by simp
qed

text \<open>The main loop, ending at the end of the text or at a NUL.\<close>

function jsmn_loop :: "bool \<Rightarrow> string \<Rightarrow> jsmn_parser \<Rightarrow> toks \<Rightarrow> int \<Rightarrow> int \<times> jsmn_parser \<times> toks" where
  "jsmn_loop strict js p tokens count =
     (if pos p < length js \<and> js ! pos p \<noteq> NUL then
        (case jsmn_step strict js p tokens of
           Inl r \<Rightarrow> r
         | Inr ((p', tokens'), n) \<Rightarrow> jsmn_loop strict js (p'\<lparr>pos := pos p' + 1\<rparr>) tokens' (count + int n))
      else
        (case tokens of
           None \<Rightarrow> (count, p, tokens)
         | Some ts \<Rightarrow>
             (case stored_last tok_open ts (toknext p) of
                None \<Rightarrow> (TOKEN_FAULT, p, tokens)
              | Some (Some _) \<Rightarrow> (JSMN_ERROR_PART, p, tokens)
              | Some None \<Rightarrow> (count, p, tokens))))"
  by pat_completeness auto
termination
proof (relation "measure (\<lambda>(strict, js, p, tokens, count). length js - pos p)", goal_cases)
  case (2 strict js p tokens count x2 a n p' tokens')
  then have "pos p \<le> pos p' \<and> pos p' < length js" by (intro jsmn_step_pos) auto
  then show ?case using 2(1) by simp arith
qed simp

declare jsmn_loop.simps [simp del]

definition jsmn_parse :: "bool \<Rightarrow> string \<Rightarrow> jsmn_parser \<Rightarrow> toks \<Rightarrow> int \<times> jsmn_parser \<times> toks" where
  "jsmn_parse strict js p tokens = jsmn_loop strict js p tokens (int (toknext p))"

section \<open>The tokens\<close>

text \<open>What the text has around a token: its opening character, and its closing one unless it is open.\<close>

definition tok_text :: "string \<Rightarrow> jsmntok_t \<Rightarrow> bool" where
  "tok_text js t =
     (case tok_type t of
        JSMN_UNDEFINED \<Rightarrow> False
      | JSMN_OBJECT \<Rightarrow> js ! nat (tok_start t) = CHR ''{'' \<and> (tok_end t = - 1 \<or> js ! nat (tok_end t - 1) = CHR ''}'')
      | JSMN_ARRAY \<Rightarrow> js ! nat (tok_start t) = CHR ''['' \<and> (tok_end t = - 1 \<or> js ! nat (tok_end t - 1) = CHR '']'')
      | JSMN_STRING \<Rightarrow> 0 < tok_start t \<and> js ! nat (tok_start t - 1) = CHR 0x22 \<and> js ! nat (tok_end t) = CHR 0x22
      | JSMN_PRIMITIVE \<Rightarrow> tok_start t < tok_end t)"

definition tok_in :: "string \<Rightarrow> nat \<Rightarrow> jsmntok_t \<Rightarrow> bool" where
  "tok_in js b t =
     (0 \<le> tok_start t \<and> tok_start t \<le> int b \<and> (tok_end t = - 1 \<or> (tok_start t \<le> tok_end t \<and> tok_end t \<le> int b)) \<and> tok_text js t)"

text \<open>An earlier token starts first, and then either ends before the later one or contains it.\<close>

definition tok_before :: "jsmntok_t \<Rightarrow> jsmntok_t \<Rightarrow> bool" where
  "tok_before s t =
     (tok_start s \<le> tok_start t \<and>
      (tok_end s = - 1 \<or> tok_end s \<le> tok_start t \<or> (tok_end t \<noteq> - 1 \<and> tok_end t \<le> tok_end s)))"

definition toks_ok :: "string \<Rightarrow> nat \<Rightarrow> nat \<Rightarrow> jsmntok_t list \<Rightarrow> bool" where
  "toks_ok js b n ts =
     (n \<le> length ts \<and> (\<forall>i<n. tok_in js b (ts ! i)) \<and> (\<forall>i<n. \<forall>k<i. tok_before (ts ! k) (ts ! i)))"

definition super_ok :: "jsmn_parser \<Rightarrow> bool" where
  "super_ok p = (- 1 \<le> toksuper p \<and> toksuper p < int (toknext p))"

lemma toks_okI:
  assumes "n \<le> length ts" and "\<And>i. i < n \<Longrightarrow> tok_in js b (ts ! i)"
    and "\<And>i k. i < n \<Longrightarrow> k < i \<Longrightarrow> tok_before (ts ! k) (ts ! i)"
  shows "toks_ok js b n ts"
  using assms by (simp add: toks_ok_def)

lemma toks_okD:
  assumes "toks_ok js b n ts"
  shows "n \<le> length ts" and "i < n \<Longrightarrow> tok_in js b (ts ! i)" and "i < n \<Longrightarrow> k < i \<Longrightarrow> tok_before (ts ! k) (ts ! i)"
  using assms by (simp_all add: toks_ok_def)

lemma tok_in_mono: "tok_in js b t \<Longrightarrow> b \<le> c \<Longrightarrow> tok_in js c t"
  by (auto simp: tok_in_def)

lemma toks_ok_mono: "toks_ok js b n ts \<Longrightarrow> b \<le> c \<Longrightarrow> toks_ok js c n ts"
  by (rule toks_okI) (auto dest: toks_okD intro: tok_in_mono)

text \<open>Counting a child changes the size field only.\<close>

lemma bump_sizeD:
  "bump_size s ts = Some ts' \<Longrightarrow> s = - 1 \<and> ts' = ts \<or>
     0 \<le> s \<and> s < int (length ts) \<and> ts' = ts[nat s := (ts ! nat s)\<lparr>tok_size := tok_size (ts ! nat s) + 1\<rparr>]"
  by (auto simp: bump_size_def tok_at_def split: if_splits)

lemma bump_size_nth:
  assumes "i < length ts" and "bump_size s ts = Some ts'"
  obtains z where "ts' ! i = (ts ! i)\<lparr>tok_size := z\<rparr>"
proof (cases "s \<noteq> - 1 \<and> nat s = i")
  case True
  then show ?thesis using that assms(1) bump_sizeD [OF assms(2)] by auto
next
  case False
  then have "ts' ! i = (ts ! i)\<lparr>tok_size := tok_size (ts ! i)\<rparr>" using bump_sizeD [OF assms(2)] by auto
  then show ?thesis by (rule that)
qed

lemma bump_size_in: "- 1 \<le> s \<Longrightarrow> s < int (length ts) \<Longrightarrow> \<exists>ts'. bump_size s ts = Some ts'"
  by (simp add: bump_size_def tok_at_def)

lemma super_test_in: "- 1 \<le> s \<Longrightarrow> s < int (length ts) \<Longrightarrow> \<exists>b. super_test s ts P = Some b"
  by (cases "s = - 1") (auto simp: super_test_def tok_at_def)

lemma tok_size_irrelevant:
  "tok_text js (t\<lparr>tok_size := z\<rparr>) = tok_text js t" "tok_in js b (t\<lparr>tok_size := z\<rparr>) = tok_in js b t"
  "tok_before (s\<lparr>tok_size := y\<rparr>) (t\<lparr>tok_size := z\<rparr>) = tok_before s t" "tok_open (t\<lparr>tok_size := z\<rparr>) = tok_open t"
  by (cases "tok_type t"; simp add: tok_text_def tok_in_def tok_before_def tok_open_def)+

lemma length_bump: "bump_size s ts = Some ts' \<Longrightarrow> length ts' = length ts"
  using bump_sizeD by fastforce

lemma toks_ok_bump:
  assumes "toks_ok js b n ts" and b: "bump_size s ts = Some ts'" shows "toks_ok js b n ts'"
proof (rule toks_okI)
  note le = toks_okD(1) [OF assms(1)]
  show "n \<le> length ts'" using le length_bump [OF b] by simp
  fix i assume i: "i < n"
  then obtain z where z: "ts' ! i = (ts ! i)\<lparr>tok_size := z\<rparr>" using bump_size_nth [of i ts s ts'] le b by auto
  then show "tok_in js b (ts' ! i)" using toks_okD(2) [OF assms(1) i] by (simp add: tok_size_irrelevant)
  fix k assume k: "k < i"
  then obtain y where "ts' ! k = (ts ! k)\<lparr>tok_size := y\<rparr>" using bump_size_nth [of k ts s ts'] i le b by auto
  then show "tok_before (ts' ! k) (ts' ! i)"
    using z toks_okD(3) [OF assms(1) i k] by (simp add: tok_size_irrelevant)
qed

text \<open>A token stored at the end of the pool starts after everything before it.\<close>

lemma toks_ok_snoc:
  assumes ok: "toks_ok js b n ts" and "n < length ts" and "ts' ! n = t" and "length ts' = length ts"
    and same: "\<And>i. i < n \<Longrightarrow> ts' ! i = ts ! i" and t: "tok_in js c t" and "b \<le> c" and b: "int b \<le> tok_start t"
  shows "toks_ok js c (Suc n) ts'"
proof (rule toks_okI)
  show "Suc n \<le> length ts'" using assms by simp
  fix i assume i: "i < Suc n"
  show "tok_in js c (ts' ! i)"
    using i t assms(3) same toks_okD(2) [OF ok] tok_in_mono [OF _ \<open>b \<le> c\<close>] by (cases "i = n") auto
  fix k assume k: "k < i"
  show "tok_before (ts' ! k) (ts' ! i)"
  proof (cases "i = n")
    case True
    then have "tok_in js b (ts ! k)" using toks_okD(2) [OF ok] k by simp
    then show ?thesis using True k b assms(3) same by (auto simp: tok_before_def tok_in_def)
  next
    case False
    then show ?thesis using i k same toks_okD(3) [OF ok] by simp
  qed
qed

lemma last_tok_SomeD:
  "last_tok P ts n = Some i \<Longrightarrow> i < n \<and> P (ts ! i) \<and> (\<forall>j. i < j \<and> j < n \<longrightarrow> \<not> P (ts ! j))"
  by (induction n) (auto split: if_splits simp: less_Suc_eq)

lemma last_tok_NoneD: "last_tok P ts n = None \<Longrightarrow> i < n \<Longrightarrow> \<not> P (ts ! i)"
  by (induction n) (auto split: if_splits simp: less_Suc_eq)

text \<open>Closing the innermost open token keeps the order.\<close>

lemma toks_ok_close:
  assumes ok: "toks_ok js b n ts" and last: "last_tok tok_open ts n = Some i" and bc: "b \<le> c"
    and tt: "tok_text js ((ts ! i)\<lparr>tok_end := int c\<rparr>)"
  shows "toks_ok js c n (ts[i := (ts ! i)\<lparr>tok_end := int c\<rparr>])"
proof (rule toks_okI)
  note i = last_tok_SomeD [OF last] and le = toks_okD(1) [OF ok]
  show "n \<le> length (ts[i := (ts ! i)\<lparr>tok_end := int c\<rparr>])" using le by simp
  have inb: "j < n \<Longrightarrow> tok_in js b (ts ! j)" for j by (rule toks_okD(2) [OF ok])
  fix j assume j: "j < n"
  show "tok_in js c (ts[i := (ts ! i)\<lparr>tok_end := int c\<rparr>] ! j)"
    using inb [OF j] tok_in_mono [OF inb [OF j] bc] tt bc le j
    by (cases "j = i") (auto simp: tok_in_def)
  fix k assume k: "k < j"
  have before: "tok_before (ts ! k) (ts ! j)" by (rule toks_okD(3) [OF ok j k])
  show "tok_before (ts[i := (ts ! i)\<lparr>tok_end := int c\<rparr>] ! k) (ts[i := (ts ! i)\<lparr>tok_end := int c\<rparr>] ! j)"
  proof (cases "j = i")
    case True
    then show ?thesis using before k j le i by (auto simp: tok_before_def tok_open_def)
  next
    case False
    note ji = False
    show ?thesis
    proof (cases "k = i")
      case True
      have "\<not> tok_open (ts ! j)" using i j k True by simp
      then show ?thesis using before inb [OF j] True ji j k le bc by (auto simp: tok_before_def tok_open_def tok_in_def)
    next
      case False
      then show ?thesis using before ji by simp
    qed
  qed
qed

section \<open>A step keeps the tokens in order\<close>

lemma hex_run_drop: "hex_run n cs = Some r \<Longrightarrow> r = drop (length cs - length r) cs"
proof (induction n cs rule: hex_run.induct)
  case (3 n c cs)
  show ?case
  proof (cases "c = NUL")
    case False
    then have "hex_run n cs = Some r" using 3(2) by (auto split: if_splits)
    then have "r = drop (length cs - length r) cs" "length r \<le> length cs" using 3 False hex_run_length by (auto split: if_splits)
    then show ?thesis by (simp add: Suc_diff_le)
  qed (use 3 in auto)
qed auto

lemma str_scan_quote: "str_scan cs i = Inr j \<Longrightarrow> cs = drop i js \<Longrightarrow> js ! j = CHR 0x22"
proof (induction cs i rule: str_scan.induct)
  case (2 c cs i)
  have "i < length js" using 2(5) by (cases "i < length js") auto
  then have "c # cs = js ! i # drop (Suc i) js" using 2(5) Cons_nth_drop_Suc [of i js] by (simp only:)
  then have c: "c = js ! i" "cs = drop (Suc i) js" by simp_all
  consider (quote) "c = CHR 0x22" "j = i"
    | (esc) "c = CHR 0x5C" "cs \<noteq> []" "str_scan (tl cs) (i + 2) = Inr j"
        "hd cs \<in> set [CHR 0x22, CHR ''/'', CHR 0x5C, CHR ''b'', CHR ''f'', CHR ''r'', CHR ''n'', CHR ''t'']"
    | (uni) r where "c = CHR 0x5C" "cs \<noteq> []" "hex_run 4 (tl cs) = Some r"
        "hd cs \<notin> set [CHR 0x22, CHR ''/'', CHR 0x5C, CHR ''b'', CHR ''f'', CHR ''r'', CHR ''n'', CHR ''t'']"
        "hd cs = CHR ''u''" "str_scan r (i + 2 + (length (tl cs) - length r)) = Inr j"
    | (plain) "c \<noteq> NUL" "c \<noteq> CHR 0x22" "\<not> (c = CHR 0x5C \<and> cs \<noteq> [])" "str_scan cs (Suc i) = Inr j"
    using 2(4) by (auto split: if_splits option.splits)
  then show ?case
  proof cases
    case esc
    then show ?thesis using 2(1) c by (simp add: tl_drop drop_Suc)
  next
    case (uni r)
    have "tl cs = drop (i + 2) js" using c by (simp add: tl_drop drop_Suc)
    then have "r = drop (i + 2 + (length (tl cs) - length r)) js"
      using hex_run_drop [OF uni(3)] by (metis drop_drop add.commute)
    then show ?thesis using uni 2(2) [of r] by simp
  next
    case plain
    then show ?thesis using 2(3) c by auto
  qed (use c in auto)
qed simp

text \<open>The invariant of the loop, and what it keeps.\<close>

definition loop_ok :: "string \<Rightarrow> jsmn_parser \<Rightarrow> jsmntok_t list \<Rightarrow> bool" where
  "loop_ok js p ts = (toks_ok js (pos p) (toknext p) ts \<and> super_ok p)"

lemma open_step_ok:
  assumes step: "open_step strict ty p (Some ts) = Inr (p', tokens')" and ok: "loop_ok js p ts"
    and ty: "(ty = JSMN_OBJECT \<and> js ! pos p = CHR ''{'') \<or> (ty = JSMN_ARRAY \<and> js ! pos p = CHR ''['')"
  obtains ts' where "tokens' = Some ts'" "length ts' = length ts" "toks_ok js (pos p' + 1) (toknext p') ts'" "super_ok p'"
    "toknext p' = toknext p + 1" "pos p' = pos p"
proof -
  define t0 where "t0 = ts[toknext p := (ts ! toknext p)\<lparr>tok_start := - 1, tok_end := - 1, tok_size := 0\<rparr>]"
  obtain ts2 where n: "toknext p < length ts" and ts2: "bump_size (toksuper p) t0 = Some ts2"
    using step by (auto simp: open_step_def jsmn_alloc_token_def Let_def t0_def split: if_splits option.splits bool.splits)
  define u where "u = (ts2 ! toknext p)\<lparr>tok_type := ty, tok_start := int (pos p)\<rparr>"
  define q where "q = p\<lparr>toknext := toknext p + 1, toksuper := int (toknext p)\<rparr>"
  have r: "toknext p < length ts" "p' = q" "tokens' = Some (ts2[toknext p := u])"
    using step n ts2
    by (auto simp: open_step_def jsmn_alloc_token_def Let_def t0_def u_def q_def
        split: if_splits option.splits bool.splits)
  have tok: "toks_ok js (pos p) (toknext p) ts" and sup: "super_ok p" using ok by (simp_all add: loop_ok_def)
  have "toks_ok js (pos p) (toknext p) t0"
    using tok by (auto simp: toks_ok_def t0_def)
  then have tok2: "toks_ok js (pos p) (toknext p) ts2" using ts2 by (rule toks_ok_bump)
  have "tok_end (ts2 ! toknext p) = - 1"
  proof -
    obtain z where "ts2 ! toknext p = (t0 ! toknext p)\<lparr>tok_size := z\<rparr>"
      using bump_size_nth [of "toknext p" t0 "toksuper p" ts2] r(1) ts2 by (auto simp: t0_def)
    then show ?thesis using r(1) by (simp add: t0_def)
  qed
  then have "tok_in js (Suc (pos p)) u" using ty by (auto simp: tok_in_def tok_text_def u_def)
  then have "toks_ok js (Suc (pos p)) (Suc (toknext p)) (ts2[toknext p := u])"
    using r(1) length_bump [OF ts2] by (intro toks_ok_snoc [OF tok2]) (auto simp: t0_def u_def)
  then show ?thesis
    using that [of "ts2[toknext p := u]"] r sup length_bump [OF ts2] by (simp add: q_def super_ok_def t0_def)
qed

lemma close_step_ok:
  assumes step: "close_step ty p (Some ts) = Inr (p', tokens')" and ok: "loop_ok js p ts"
    and ty: "(ty = JSMN_OBJECT \<and> js ! pos p = CHR ''}'') \<or> (ty = JSMN_ARRAY \<and> js ! pos p = CHR '']'')"
  obtains ts' where "tokens' = Some ts'" "length ts' = length ts" "toks_ok js (pos p' + 1) (toknext p') ts'" "super_ok p'"
    "toknext p' = toknext p" "pos p' = pos p"
proof -
  have tok: "toks_ok js (pos p) (toknext p) ts" and sup: "super_ok p" using ok by (simp_all add: loop_ok_def)
  obtain i where last: "last_tok tok_open ts (toknext p) = Some i" and tyi: "tok_type (ts ! i) = ty"
    using step by (auto simp: close_step_def stored_last_def split: option.splits if_splits)
  define ts1 where "ts1 = ts[i := (ts ! i)\<lparr>tok_end := int (Suc (pos p))\<rparr>]"
  define up where "up = (case last_tok tok_open ts1 (Suc i) of None \<Rightarrow> - 1 | Some k \<Rightarrow> int k)"
  have r: "p' = p\<lparr>toksuper := up\<rparr>" "tokens' = Some ts1"
    using step last tyi toks_okD(1) [OF tok]
    by (simp_all add: close_step_def stored_last_def ts1_def up_def Let_def add.commute)
  have i: "i < toknext p" using last_tok_SomeD [OF last] by simp
  have "tok_in js (pos p) (ts ! i)" by (rule toks_okD(2) [OF tok i])
  then have "tok_text js ((ts ! i)\<lparr>tok_end := int (Suc (pos p))\<rparr>)" using ty tyi by (auto simp: tok_in_def tok_text_def)
  then have "toks_ok js (Suc (pos p)) (toknext p) ts1" unfolding ts1_def by (intro toks_ok_close [OF tok last]) simp_all
  moreover have "- 1 \<le> up \<and> up < int (toknext p)"
  proof (cases "last_tok tok_open ts1 (Suc i)")
    case (Some k)
    then show ?thesis using i last_tok_SomeD [OF Some] by (simp add: up_def)
  qed (simp add: up_def)
  ultimately show ?thesis using that [of ts1] r by (simp add: ts1_def super_ok_def)
qed

text \<open>A value token stored by one of the two scanners.\<close>

lemma value_step_ok:
  assumes ok: "loop_ok js p ts" and n: "toknext p < length ts" and p': "toknext p' = toknext p + 1" "toksuper p' = toksuper p"
    and t: "tok_in js (pos p' + 1) t" "pos p \<le> pos p'" "int (pos p) \<le> tok_start t"
    and t1: "t1 = Some (ts[toknext p := t])" and tokens': "bump_toks (toksuper p') t1 = Some tokens'"
  obtains ts' where "tokens' = Some ts'" "length ts' = length ts" "toks_ok js (pos p' + 1) (toknext p') ts'" "super_ok p'"
proof -
  have tok: "toks_ok js (pos p) (toknext p) ts" and sup: "super_ok p" using ok by (simp_all add: loop_ok_def)
  obtain ts' where ts': "bump_size (toksuper p') (ts[toknext p := t]) = Some ts'" "tokens' = Some ts'"
    using tokens' t1 by (auto simp: bump_toks_def)
  have "toks_ok js (pos p' + 1) (Suc (toknext p)) (ts[toknext p := t])"
    using n t by (intro toks_ok_snoc [OF tok]) auto
  then show ?thesis
    using that [of ts'] toks_ok_bump [OF _ ts'(1)] length_bump [OF ts'(1)] ts' p' sup by (simp add: super_ok_def)
qed

lemma comma_super:
  assumes "comma_step p (Some ts) = Some p'"
  shows "toksuper p' = toksuper p \<or> 0 \<le> toksuper p' \<and> toksuper p' < int (toknext p)"
  using assms last_tok_SomeD [of "\<lambda>t. is_container t \<and> tok_open t" ts "toknext p"]
  by (auto simp: comma_step_def stored_last_def split: option.splits bool.splits if_splits)

text \<open>Within the array no access faults.\<close>

lemma comma_in: "super_ok p \<Longrightarrow> toknext p \<le> length ts \<Longrightarrow> comma_step p (Some ts) \<noteq> None"
  using super_test_in [of "toksuper p" ts "\<lambda>t. \<not> is_container t"]
  by (auto simp: comma_step_def super_ok_def stored_last_def split: option.splits bool.splits)

lemma key_in: "super_ok p \<Longrightarrow> toknext p \<le> length ts \<Longrightarrow> key_clash p (Some ts) \<noteq> None"
  using super_test_in [of "toksuper p" ts] by (fastforce simp: key_clash_def super_ok_def)

lemma open_err:
  assumes "open_step strict ty p (Some ts) = Inl (e, p', tokens')" and "super_ok p" and "toknext p \<le> length ts"
  shows "e \<in> {JSMN_ERROR_NOMEM, JSMN_ERROR_INVAL} \<and> (e = JSMN_ERROR_NOMEM \<longrightarrow> length ts \<le> toknext p) \<and> super_ok p' \<and>
     (\<exists>ts'. tokens' = Some ts' \<and> length ts' = length ts \<and> toknext p' \<le> length ts)"
proof (cases "length ts \<le> toknext p")
  case True
  then show ?thesis using assms by (auto simp: open_step_def jsmn_alloc_token_def)
next
  case False
  define t0 where "t0 = ts[toknext p := (ts ! toknext p)\<lparr>tok_start := - 1, tok_end := - 1, tok_size := 0\<rparr>]"
  have s: "- 1 \<le> toksuper p" "toksuper p < int (length t0)" using assms(2,3) by (simp_all add: super_ok_def t0_def)
  have l0: "length t0 = length ts" by (simp add: t0_def)
  obtain ts2 where ts2: "bump_size (toksuper p) t0 = Some ts2" using bump_size_in [OF s] by blast
  obtain b where b: "super_test (toksuper p) t0 (\<lambda>t. tok_type t = JSMN_OBJECT) = Some b" using super_test_in [OF s] by blast
  show ?thesis
    using assms False b ts2 l0 by (cases b; cases strict)
      (auto simp: open_step_def jsmn_alloc_token_def Let_def t0_def [symmetric] super_ok_def jsmn_errs)
qed

lemma close_err:
  assumes "close_step ty p (Some ts) = Inl (e, p', tokens')" and "toknext p \<le> length ts"
  shows "e = JSMN_ERROR_INVAL \<and> p' = p \<and> tokens' = Some ts"
  using assms by (auto simp: close_step_def stored_last_def Let_def split: option.splits if_splits)

text \<open>An error of one of the two scanners: the parser and the array are as before.\<close>

lemma string_err:
  "jsmn_parse_string js p (Some ts) = (e, p1, t1) \<Longrightarrow> e < 0 \<Longrightarrow>
     e \<in> {JSMN_ERROR_NOMEM, JSMN_ERROR_INVAL, JSMN_ERROR_PART} \<and> p1 = p \<and> t1 = Some ts"
  by (auto simp: jsmn_parse_string_def Let_def jsmn_errs split: option.splits sum.splits
      dest!: str_scan_codes)

lemma primitive_err:
  "jsmn_parse_primitive strict js p (Some ts) = (e, p1, t1) \<Longrightarrow> e < 0 \<Longrightarrow>
     e \<in> {JSMN_ERROR_NOMEM, JSMN_ERROR_INVAL, JSMN_ERROR_PART} \<and> p1 = p \<and> t1 = Some ts"
  by (auto simp: jsmn_parse_primitive_def Let_def jsmn_errs split: option.splits sum.splits
      dest!: prim_scan_codes)

lemma value_in:
  assumes "\<not> e < 0" and "toksuper p1 = toksuper p" and "toknext p < length ts" and "super_ok p"
    and "t1 = Some (ts[toknext p := t])"
  shows "\<exists>r. value_step (e, p1, t1) = Inr r"
proof -
  have "\<exists>ts'. bump_size (toksuper p1) (ts[toknext p := t]) = Some ts'"
    using assms(2-4) by (intro bump_size_in) (simp_all add: super_ok_def)
  then show ?thesis using assms(1,5) by (auto simp: value_step_def bump_toks_def)
qed

lemma string_value_err:
  assumes "value_step (jsmn_parse_string js p (Some ts)) = Inl (e, p', tokens')" and "super_ok p"
  shows "e < 0 \<and> jsmn_parse_string js p (Some ts) = (e, p', tokens')"
proof -
  obtain e1 p1 t1 where r: "jsmn_parse_string js p (Some ts) = (e1, p1, t1)" by (cases "jsmn_parse_string js p (Some ts)")
  show ?thesis
  proof (cases "e1 < 0")
    case True
    then show ?thesis using assms(1) r by (simp add: value_step_def)
  next
    case False
    from r False obtain i where "toksuper p1 = toksuper p" "toknext p < length ts"
        "t1 = Some (ts[toknext p := jsmn_fill_token JSMN_STRING (int (pos p) + 1) (int i)])"
      by (rule parse_stringE) auto
    from value_in [OF False this(1,2) assms(2) this(3)] show ?thesis using assms(1) r by auto
  qed
qed

lemma primitive_value_err:
  assumes "value_step (jsmn_parse_primitive strict js p (Some ts)) = Inl (e, p', tokens')" and "super_ok p"
  shows "e < 0 \<and> jsmn_parse_primitive strict js p (Some ts) = (e, p', tokens')"
proof -
  obtain e1 p1 t1 where r: "jsmn_parse_primitive strict js p (Some ts) = (e1, p1, t1)"
    by (cases "jsmn_parse_primitive strict js p (Some ts)")
  show ?thesis
  proof (cases "e1 < 0")
    case True
    then show ?thesis using assms(1) r by (simp add: value_step_def)
  next
    case False
    from r False obtain i where "toksuper p1 = toksuper p" "toknext p < length ts"
        "t1 = Some (ts[toknext p := jsmn_fill_token JSMN_PRIMITIVE (int (pos p)) (int i)])"
      by (rule parse_primitiveE) auto
    from value_in [OF False this(1,2) assms(2) this(3)] show ?thesis using assms(1) r by auto
  qed
qed

lemma jsmn_step_ok:
  assumes step: "jsmn_step strict js p (Some ts) = Inr ((p', tokens'), n)" and ok: "loop_ok js p ts"
    and c: "pos p < length js" "js ! pos p \<noteq> NUL"
  obtains ts' where "tokens' = Some ts'" "length ts' = length ts" "loop_ok js (p'\<lparr>pos := pos p' + 1\<rparr>) ts'"
    "toknext p' = toknext p + n" "pos p' < length js"
proof -
  have bound: "pos p \<le> pos p' \<and> pos p' < length js" by (rule jsmn_step_pos [OF step c])
  have res: thesis if "tokens' = Some ts'" "length ts' = length ts" "toks_ok js (pos p' + 1) (toknext p') ts'" "super_ok p'"
    "toknext p' = toknext p + n" for ts'
    using that(1,2) _ that(5) bound [THEN conjunct2]
    by (rule \<open>\<And>ts'. \<lbrakk>tokens' = Some ts'; length ts' = length ts; loop_ok js (p'\<lparr>pos := pos p' + 1\<rparr>) ts';
        toknext p' = toknext p + n; pos p' < length js\<rbrakk> \<Longrightarrow> thesis\<close>) (use that(3,4) in \<open>simp add: loop_ok_def super_ok_def\<close>)
  show thesis
    using step
  proof (cases rule: jsmn_stepE)
    case (opened ty)
    show thesis by (rule open_step_ok [OF opened(2) ok opened(1)]) (use res opened(3) in auto)
  next
    case (closed ty)
    show thesis by (rule close_step_ok [OF closed(2) ok closed(1)]) (use res closed(3) in auto)
  next
    case (str e p1 t1)
    from str(1,2) obtain i where i: "str_scan (drop (pos p + 1) js) (pos p + 1) = Inr i" "pos p1 = i" "toksuper p1 = toksuper p"
      and st: "toknext p < length ts" "toknext p1 = toknext p + 1"
        "t1 = Some (ts[toknext p := jsmn_fill_token JSMN_STRING (int (pos p) + 1) (int i)])"
      by (rule parse_stringE) auto
    have "js ! i = CHR 0x22" by (rule str_scan_quote [OF i(1) refl])
    then have "tok_in js (i + 1) (jsmn_fill_token JSMN_STRING (int (pos p) + 1) (int i))"
      using str_scan_bounds [OF i(1)] str(6) by (simp add: jsmn_fill_token_def tok_in_def tok_text_def nat_add_distrib)
    then have t: "tok_in js (pos p1 + 1) (jsmn_fill_token JSMN_STRING (int (pos p) + 1) (int i))" using i(2) by simp
    show thesis
      by (rule value_step_ok [OF ok st(1,2) i(3) t _ _ st(3) str(4)])
        (use bound res str(3,5) st(2) in \<open>simp_all add: jsmn_fill_token_def\<close>)
  next
    case skip
    then show thesis
    proof -
      have "toknext p' = toknext p" "pos p' = pos p" using skip(1) comma_pos [of p "Some ts" p'] by auto
      moreover have "super_ok p'"
        using skip(1) ok comma_super [of p ts p'] comma_pos [of p "Some ts" p'] by (auto simp: loop_ok_def super_ok_def)
      moreover have "toks_ok js (pos p + 1) (toknext p) ts" using ok toks_ok_mono by (fastforce simp: loop_ok_def)
      ultimately show thesis using res [of ts] skip by simp
    qed
  next
    case (prim e p1 t1)
    from prim(1,2) obtain i where i: "prim_scan strict (drop (pos p) js) (pos p) = Inr i" "pos p1 = i - 1" "toksuper p1 = toksuper p"
      and st: "toknext p < length ts" "toknext p1 = toknext p + 1"
        "t1 = Some (ts[toknext p := jsmn_fill_token JSMN_PRIMITIVE (int (pos p)) (int i)])"
      by (rule parse_primitiveE) auto
    have d: "drop (pos p) js = js ! pos p # drop (Suc (pos p)) js" using c(1) by (rule Cons_nth_drop_Suc [symmetric])
    have "pos p < i" using prim_scan_first [OF i(1) [unfolded d] c(2) prim(6)] .
    then have t: "tok_in js (pos p1 + 1) (jsmn_fill_token JSMN_PRIMITIVE (int (pos p)) (int i))"
      using i(2) by (simp add: jsmn_fill_token_def tok_in_def tok_text_def)
    show thesis
      by (rule value_step_ok [OF ok st(1,2) i(3) t _ _ st(3) prim(4)])
        (use bound res prim(3,5) st(2) in \<open>simp_all add: jsmn_fill_token_def\<close>)
  qed
qed

text \<open>The nine cases of a step as one disjunction.\<close>

lemma if_chain:
  assumes "(if a1 then x1 else if a2 then x2 else if a3 then x3 else if a4 then x4 else if a5 then x5 else if a6 then x6
      else if a7 then x7 else if a8 then x8 else if a9 then x9 else x10) = y"
  shows "(a1 \<and> x1 = y) \<or> (\<not> a1 \<and> a2 \<and> x2 = y) \<or> (a3 \<and> x3 = y) \<or> (a4 \<and> x4 = y) \<or> (a5 \<and> x5 = y) \<or> (a6 \<and> x6 = y) \<or>
    (a7 \<and> x7 = y) \<or> (a8 \<and> x8 = y) \<or> (a9 \<and> x9 = y) \<or>
    (\<not> a1 \<and> \<not> a2 \<and> \<not> a3 \<and> \<not> a4 \<and> \<not> a5 \<and> \<not> a6 \<and> \<not> a7 \<and> \<not> a8 \<and> \<not> a9 \<and> x10 = y)"
  using assms by (simp split: if_split_asm)

text \<open>The errors of a step whose accesses are all inside the array.\<close>

lemma jsmn_step_errE:
  assumes "jsmn_step strict js p (Some ts) = Inl (e, p', tokens')" and ok: "super_ok p" "toknext p \<le> length ts"
  obtains (opened) ty where "js ! pos p = CHR ''{'' \<or> js ! pos p = CHR ''[''"
      "open_step strict ty p (Some ts) = Inl (e, p', tokens')"
    | (closed) ty where "close_step ty p (Some ts) = Inl (e, p', tokens')"
    | (str) "js ! pos p = CHR 0x22" "e < 0" "jsmn_parse_string js p (Some ts) = (e, p', tokens')"
    | (prim) "\<not> (js ! pos p = CHR ''{'' \<or> js ! pos p = CHR ''['')" "\<not> (js ! pos p = CHR ''}'' \<or> js ! pos p = CHR '']'')"
        "js ! pos p \<noteq> CHR 0x22" "js ! pos p \<notin> set [CHR 0x09, CHR 0x0D, CHR 0x0A, CHR '' '']" "js ! pos p \<noteq> CHR '':''"
        "js ! pos p \<noteq> CHR '',''" "\<not> (strict \<and> \<not> prim_start (js ! pos p))"
        "e < 0" "jsmn_parse_primitive strict js p (Some ts) = (e, p', tokens')"
    | (inval) "e = JSMN_ERROR_INVAL" "p' = p" "tokens' = Some ts"
proof -
  define c where "c = js ! pos p"
  have sum: "map_sum id f x = Inl y \<longleftrightarrow> x = Inl y" for f :: "'x \<Rightarrow> 'y" and x :: "stop + 'x" and y by (cases x) auto
  obtain p1 where comma: "comma_step p (Some ts) = Some p1" using comma_in [OF ok] by blast
  from if_chain [OF assms(1) [unfolded jsmn_step_def Let_def c_def [symmetric]], unfolded sum] show thesis
  proof (elim disjE, goal_cases)
    case 1
    then show thesis by (intro opened [OF _ conjunct2 [OF 1]]) (simp add: c_def)
  next
    case 2
    then have "close_step (if c = CHR ''}'' then JSMN_OBJECT else JSMN_ARRAY) p (Some ts) = Inl (e, p', tokens')"
      by (elim conjE)
    then show thesis by (rule closed)
  next
    case 3
    show thesis
      by (rule str) (use 3 string_value_err [OF conjunct2 [OF 3] ok(1)] in \<open>simp_all only: c_def simp_thms\<close>)
  next
    case 6
    then show thesis using comma by simp
  next
    case 7
    then show thesis using inval by simp
  next
    case 8
    then show thesis using key_in [OF ok] by simp
  next
    case 9
    then show thesis using inval by simp
  next
    case 10
    then have "value_step (jsmn_parse_primitive strict js p (Some ts)) = Inl (e, p', tokens')" by blast
    from primitive_value_err [OF this ok(1)] show thesis
      by (intro prim) (use 10 in \<open>simp_all only: c_def simp_thms\<close>)
  qed simp_all
qed

lemma jsmn_step_err:
  assumes "jsmn_step strict js p (Some ts) = Inl (e, p', tokens')" and ok: "loop_ok js p ts"
  shows "e \<in> {JSMN_ERROR_NOMEM, JSMN_ERROR_INVAL, JSMN_ERROR_PART} \<and> super_ok p' \<and>
    (\<exists>ts'. tokens' = Some ts' \<and> length ts' = length ts \<and> toknext p' \<le> length ts)"
proof -
  have s: "super_ok p" "toknext p \<le> length ts" using ok by (simp_all add: loop_ok_def toks_ok_def)
  from assms(1) s show ?thesis
  proof (cases rule: jsmn_step_errE)
    case (opened ty)
    then show ?thesis using open_err [OF opened(2) s] by auto
  next
    case (closed ty)
    then show ?thesis using close_err [OF closed s(2)] s by auto
  next
    case str
    then show ?thesis using string_err [OF str(3,2)] s by auto
  next
    case prim
    then show ?thesis using primitive_err [OF prim(9,8)] s by auto
  qed (use s in auto)
qed

section \<open>The result of a parse\<close>

definition parse_ok :: "string \<Rightarrow> nat \<Rightarrow> int \<times> jsmn_parser \<times> toks \<Rightarrow> bool" where
  "parse_ok js m r =
     (case r of
        (c, p, None) \<Rightarrow> False
      | (c, p, Some ts) \<Rightarrow>
          length ts = m \<and> toknext p \<le> m \<and> - 1 \<le> toksuper p \<and> toksuper p < int (toknext p) \<and>
          (c \<in> {JSMN_ERROR_NOMEM, JSMN_ERROR_INVAL, JSMN_ERROR_PART} \<or>
           (c = int (toknext p) \<and> toks_ok js (length js) (toknext p) ts \<and> (\<forall>i<toknext p. \<not> tok_open (ts ! i)))))"

lemma jsmn_loop_ok:
  assumes "loop_ok js p ts" and "pos p \<le> length js" and "count = int (toknext p)"
  shows "parse_ok js (length ts) (jsmn_loop strict js p (Some ts) count)"
  using assms
proof (induction strict js p "Some ts" count arbitrary: ts rule: jsmn_loop.induct)
  case (1 strict js p count ts)
  show ?case
  proof (cases "pos p < length js \<and> js ! pos p \<noteq> NUL")
    case False
    have "toks_ok js (length js) (toknext p) ts" using 1(2,3) toks_ok_mono by (auto simp: loop_ok_def)
    then show ?thesis
      using 1(2,4) False last_tok_NoneD [of tok_open ts "toknext p"]
      by (subst jsmn_loop.simps)
        (auto simp: parse_ok_def loop_ok_def toks_ok_def super_ok_def stored_last_def split: option.splits)
  next
    case True
    show ?thesis
    proof (cases "jsmn_step strict js p (Some ts)")
      case (Inl r)
      obtain e p' t' where r: "r = (e, p', t')" by (cases r)
      then show ?thesis
        using True jsmn_step_err [OF Inl [unfolded r] 1(2)] Inl
        by (subst jsmn_loop.simps) (auto simp: parse_ok_def super_ok_def)
    next
      case (Inr z)
      obtain p' t' n where z: "z = ((p', t'), n)" by (metis prod.collapse)
      obtain ts' where s: "t' = Some ts'" "length ts' = length ts" "loop_ok js (p'\<lparr>pos := pos p' + 1\<rparr>) ts'"
        "toknext p' = toknext p + n" "pos p' < length js"
        using jsmn_step_ok [OF Inr [unfolded z] 1(2)] True by metis
      have "parse_ok js (length ts') (jsmn_loop strict js (p'\<lparr>pos := pos p' + 1\<rparr>) (Some ts') (count + int n))"
        using 1(1) [OF True Inr [unfolded z s(1)] refl refl s(3)] s 1(4) by simp
      then show ?thesis using True Inr z s by (subst jsmn_loop.simps) simp
    qed
  qed
qed

text \<open>C8. For every text and every token array, \<^verbatim>\<open>jsmn_parse\<close> from a fresh parser makes no access
  outside the array (the result is never \<open>TOKEN_FAULT\<close>: it is one of the three error codes of the
  library or a count), and \<^verbatim>\<open>toksuper\<close> ends up as -1 or the index of a stored token; when it does
  not return an error the result is the number of tokens stored, every one of them lies inside the text between its own delimiters (braces, brackets, quotes) and is closed, and
  any two of them are either disjoint or nested in the order in which they are stored.\<close>

theorem jsmn_parse_tokens:
  "parse_ok js (length ts) (jsmn_parse strict js jsmn_init (Some ts))"
  unfolding jsmn_parse_def
  by (rule jsmn_loop_ok) (simp_all add: jsmn_init_def loop_ok_def super_ok_def toks_ok_def)

section \<open>The dry run\<close>

text \<open>Without a token array the parser makes the same moves, so it counts the tokens that are needed.\<close>

lemma dry_string:
  assumes "jsmn_parse_string js p (Some ts) = (e, p1, t1)" and "\<not> e < 0" and "pos q = pos p"
  obtains q1 where "jsmn_parse_string js q None = (0, q1, None)" "pos q1 = pos p1"
proof -
  from assms(1,2) obtain i where "str_scan (drop (pos p + 1) js) (pos p + 1) = Inr i" "pos p1 = i" by (rule parse_stringE)
  then show ?thesis using that [of "q\<lparr>pos := i\<rparr>"] assms(3) by (simp add: jsmn_parse_string_def Let_def)
qed

lemma dry_primitive:
  assumes "jsmn_parse_primitive strict js p (Some ts) = (e, p1, t1)" and "\<not> e < 0" and "pos q = pos p"
  obtains q1 where "jsmn_parse_primitive strict js q None = (0, q1, None)" "pos q1 = pos p1"
proof -
  from assms(1,2) obtain i where "prim_scan strict (drop (pos p) js) (pos p) = Inr i" "pos p1 = i - 1"
    by (rule parse_primitiveE)
  then show ?thesis using that [of "q\<lparr>pos := i - 1\<rparr>"] assms(3) by (simp add: jsmn_parse_primitive_def Let_def)
qed

lemma dry_step_eq:
  "jsmn_step strict js q None =
     (let c = js ! pos q in
      if c = CHR ''{'' \<or> c = CHR ''['' then Inr ((q, None), 1)
      else if c = CHR ''}'' \<or> c = CHR '']'' then Inr ((q, None), 0)
      else if c = CHR 0x22 then map_sum id (\<lambda>r. (r, 1)) (value_step (jsmn_parse_string js q None))
      else if c \<in> set [CHR 0x09, CHR 0x0D, CHR 0x0A, CHR '' ''] then Inr ((q, None), 0)
      else if c = CHR '':'' then Inr ((q\<lparr>toksuper := int (toknext q) - 1\<rparr>, None), 0)
      else if c = CHR '','' then Inr ((q, None), 0)
      else if strict \<and> \<not> prim_start c then Inl (JSMN_ERROR_INVAL, q, None)
      else map_sum id (\<lambda>r. (r, 1)) (value_step (jsmn_parse_primitive strict js q None)))"
  by (simp add: jsmn_step_def open_step_def close_step_def comma_step_def key_clash_def cong: if_cong)

text \<open>One step of the dry run follows a step on the array; it also follows one that finds the array full.\<close>

definition dry_follows :: "bool \<Rightarrow> string \<Rightarrow> jsmn_parser \<Rightarrow> nat \<Rightarrow> nat \<Rightarrow> bool" where
  "dry_follows strict js q i n = (\<exists>q'. jsmn_step strict js q None = Inr ((q', None), n) \<and> pos q' = i)"

lemma dry_string_err:
  assumes "jsmn_parse_string js p (Some ts) = (e, p1, t1)" and "e < 0" and "pos q = pos p"
  shows "e \<in> {JSMN_ERROR_INVAL, JSMN_ERROR_PART} \<or>
    (e = JSMN_ERROR_NOMEM \<and> length ts \<le> toknext p \<and> (\<exists>q1. jsmn_parse_string js q None = (0, q1, None)))"
proof (cases "str_scan (drop (pos p + 1) js) (pos p + 1)")
  case (Inl e')
  have "e' \<in> {JSMN_ERROR_INVAL, JSMN_ERROR_PART}" by (rule str_scan_codes [OF Inl])
  then show ?thesis using assms(1) Inl by (simp add: jsmn_parse_string_def Let_def)
next
  case (Inr i)
  then show ?thesis
    using assms by (auto simp: jsmn_parse_string_def Let_def jsmn_alloc_token_def split: if_splits)
qed

lemma dry_primitive_err:
  assumes "jsmn_parse_primitive strict js p (Some ts) = (e, p1, t1)" and "e < 0" and "pos q = pos p"
  shows "e \<in> {JSMN_ERROR_INVAL, JSMN_ERROR_PART} \<or>
    (e = JSMN_ERROR_NOMEM \<and> length ts \<le> toknext p \<and> (\<exists>q1. jsmn_parse_primitive strict js q None = (0, q1, None)))"
proof (cases "prim_scan strict (drop (pos p) js) (pos p)")
  case (Inl e')
  have "e' \<in> {JSMN_ERROR_INVAL, JSMN_ERROR_PART}" by (rule prim_scan_codes [OF Inl])
  then show ?thesis using assms(1) Inl by (simp add: jsmn_parse_primitive_def Let_def)
next
  case (Inr i)
  then show ?thesis
    using assms by (auto simp: jsmn_parse_primitive_def Let_def jsmn_alloc_token_def split: if_splits)
qed

lemma dry_step_err:
  assumes step: "jsmn_step strict js p (Some ts) = Inl (e, p1, t1)" and ok: "loop_ok js p ts" and pq: "pos q = pos p"
  shows "e \<in> {JSMN_ERROR_INVAL, JSMN_ERROR_PART} \<or>
    (e = JSMN_ERROR_NOMEM \<and> length ts \<le> toknext p \<and> (\<exists>i. dry_follows strict js q i 1))"
proof -
  have s: "super_ok p" "toknext p \<le> length ts" using ok by (simp_all add: loop_ok_def toks_ok_def)
  from step s show ?thesis
  proof (cases rule: jsmn_step_errE)
    case (opened ty)
    then have "jsmn_step strict js q None = Inr ((q, None), 1)" by (simp add: dry_step_eq pq)
    then show ?thesis using open_err [OF opened(2) s] by (auto simp: dry_follows_def)
  next
    case (closed ty)
    then show ?thesis using close_err [OF closed s(2)] by simp
  next
    case str
    have "jsmn_step strict js q None = map_sum id (\<lambda>r. (r, 1)) (value_step (jsmn_parse_string js q None))"
      using str(1) by (simp add: dry_step_eq pq)
    then show ?thesis
      using dry_string_err [OF str(3,2) pq] by (auto simp: value_step_def bump_toks_def dry_follows_def)
  next
    case prim
    have "jsmn_step strict js q None = map_sum id (\<lambda>r. (r, 1)) (value_step (jsmn_parse_primitive strict js q None))"
      unfolding dry_step_eq Let_def pq using prim(1-7) by (simp only: if_False simp_thms)
    then show ?thesis
      using dry_primitive_err [OF prim(9,8) pq] by (auto simp: value_step_def bump_toks_def dry_follows_def)
  qed simp
qed

lemma dry_step_ok:
  assumes step: "jsmn_step strict js p (Some ts) = Inr ((p1, t1), n)" and pq: "pos q = pos p"
  shows "dry_follows strict js q (pos p1) n"
proof -
  define c where "c = js ! pos p"
  have sum: "map_sum id f x = Inr y \<longleftrightarrow> (\<exists>z. x = Inr z \<and> f z = y)" for f :: "'x \<Rightarrow> 'y" and x :: "stop + 'x" and y
    by (cases x) auto
  have val: "value_step r = Inr z \<longleftrightarrow>
      \<not> fst r < 0 \<and> fst z = fst (snd r) \<and> bump_toks (toksuper (fst (snd r))) (snd (snd r)) = Some (snd z)" for r z
    by (cases z) (auto simp: value_step_def split: prod.splits if_splits option.splits)
  have dry: "jsmn_step strict js q None = Inr ((q', None), n) \<Longrightarrow> pos q' = pos p1 \<Longrightarrow> ?thesis" for q'
    by (auto simp: dry_follows_def)
  note cs = if_chain [OF step [unfolded jsmn_step_def Let_def c_def [symmetric]], unfolded sum]
  from cs show ?thesis
  proof (elim disjE, goal_cases)
    case 1
    then show ?thesis using open_pos pq by (intro dry [of q]) (auto simp: dry_step_eq c_def)
  next
    case 2
    then show ?thesis using close_pos pq by (intro dry [of q]) (auto simp: dry_step_eq c_def)
  next
    case 3
    obtain e p2 t2 where r: "jsmn_parse_string js p (Some ts) = (e, p2, t2)" by (cases "jsmn_parse_string js p (Some ts)")
    then have e: "\<not> e < 0" "p1 = p2" "n = 1" using 3 by (auto simp: val)
    obtain q1 where "jsmn_parse_string js q None = (0, q1, None)" "pos q1 = pos p2" by (rule dry_string [OF r e(1) pq])
    then show ?thesis using 3 e pq by (intro dry [of q1]) (auto simp: dry_step_eq c_def value_step_def bump_toks_def)
  next
    case 4
    then have "c \<in> set [CHR 0x09, CHR 0x0D, CHR 0x0A, CHR '' '']" "p1 = p" "n = 0" by simp_all
    then show ?thesis using pq by (intro dry [of q]) (auto simp: dry_step_eq c_def)
  next
    case 5
    then show ?thesis using pq by (intro dry [of "q\<lparr>toksuper := int (toknext q) - 1\<rparr>"]) (auto simp: dry_step_eq c_def)
  next
    case 6
    then show ?thesis using pq comma_pos by (intro dry [of q]) (auto simp: dry_step_eq c_def split: option.splits)
  next
    case 10
    obtain e p2 t2 where r: "jsmn_parse_primitive strict js p (Some ts) = (e, p2, t2)"
      by (cases "jsmn_parse_primitive strict js p (Some ts)")
    then have e: "\<not> e < 0" "p1 = p2" "n = 1" using 10 by (auto simp: val)
    obtain q1 where q1: "jsmn_parse_primitive strict js q None = (0, q1, None)" "pos q1 = pos p2"
      by (rule dry_primitive [OF r e(1) pq])
    have "jsmn_step strict js q None = map_sum id (\<lambda>r. (r, 1)) (value_step (jsmn_parse_primitive strict js q None))"
      unfolding dry_step_eq Let_def pq c_def [symmetric] using 10 by (simp only: if_False simp_thms)
    then show ?thesis using q1 e by (intro dry [of q1]) (simp_all add: value_step_def bump_toks_def)
  qed simp_all
qed

lemma dry_step_none: "jsmn_step strict js q None = Inr ((q', t'), n) \<Longrightarrow> t' = None"
  by (erule jsmn_stepE) (auto simp: open_step_def close_step_def bump_toks_def elim!: parse_stringE parse_primitiveE)

lemma dry_step_neg:
  assumes "jsmn_step strict js q None = Inl r" shows "fst r < 0"
proof -
  have sum: "map_sum id f x = Inl y \<longleftrightarrow> x = Inl y" for f :: "'x \<Rightarrow> 'y" and x :: "stop + 'x" and y by (cases x) auto
  have val: "value_step s = Inl y \<Longrightarrow> fst y < 0" for s y
    by (auto simp: value_step_def jsmn_errs split: prod.splits if_splits option.splits)
  show ?thesis
    using assms val unfolding dry_step_eq Let_def by (auto simp: sum jsmn_errs split: if_split_asm)
qed

lemma dry_count:
  "tokens = None \<Longrightarrow> fst (jsmn_loop strict js q tokens count) < 0 \<or> count \<le> fst (jsmn_loop strict js q tokens count)"
proof (induction strict js q tokens count rule: jsmn_loop.induct)
  case (1 strict js q tokens count)
  show ?case
  proof (cases "pos q < length js \<and> js ! pos q \<noteq> NUL")
    case False
    then show ?thesis using 1(2) by (subst (1 2) jsmn_loop.simps) auto
  next
    case True
    show ?thesis
    proof (cases "jsmn_step strict js q tokens")
      case (Inl r)
      then show ?thesis using True 1(2) dry_step_neg by (subst (1 2) jsmn_loop.simps) simp
    next
      case (Inr z)
      obtain q' t' n where z: "z = ((q', t'), n)" by (metis prod.collapse)
      have "t' = None" using Inr z 1(2) dry_step_none by simp
      then show ?thesis
        using 1(1) [OF True Inr z [symmetric] refl] True Inr z by (subst (1 2) jsmn_loop.simps) auto
    qed
  qed
qed

text \<open>What a run on an array of \<open>m\<close> tokens and a dry run return for the same text.\<close>

definition dry_agrees :: "nat \<Rightarrow> int \<Rightarrow> int \<Rightarrow> bool" where
  "dry_agrees m r e =
     ((0 \<le> e \<and> e = r) \<or> e \<in> {JSMN_ERROR_INVAL, JSMN_ERROR_PART} \<or> (e = JSMN_ERROR_NOMEM \<and> (r < 0 \<or> int m < r)))"

lemma jsmn_loop_dry:
  assumes "loop_ok js p ts" and "count = int (toknext p)" and "pos q = pos p"
  shows "dry_agrees (length ts) (fst (jsmn_loop strict js q None count)) (fst (jsmn_loop strict js p (Some ts) count))"
  using assms
proof (induction strict js p "Some ts" count arbitrary: ts q rule: jsmn_loop.induct)
  case (1 strict js p count ts)
  show ?case
  proof (cases "pos p < length js \<and> js ! pos p \<noteq> NUL")
    case False
    then show ?thesis
      using 1(2,3,4)
      by (subst (1 2) jsmn_loop.simps)
        (auto simp: dry_agrees_def loop_ok_def toks_ok_def stored_last_def split: option.splits)
  next
    case True
    show ?thesis
    proof (cases "jsmn_step strict js p (Some ts)")
      case (Inl r)
      obtain e p' t' where r: "r = (e, p', t')" by (cases r)
      have run: "jsmn_loop strict js p (Some ts) count = r" using True Inl by (subst jsmn_loop.simps) simp
      from dry_step_err [OF Inl [unfolded r] 1(2,4)] show ?thesis
      proof (elim disjE conjE exE)
        fix i assume e: "e = JSMN_ERROR_NOMEM" and full: "length ts \<le> toknext p" and "dry_follows strict js q i 1"
        then obtain q' where "jsmn_step strict js q None = Inr ((q', None), 1)" by (auto simp: dry_follows_def)
        then have "jsmn_loop strict js q None count = jsmn_loop strict js (q'\<lparr>pos := pos q' + 1\<rparr>) None (count + 1)"
          using True 1(4) by (subst jsmn_loop.simps) simp
        then show ?thesis
          using run r e full 1(3) dry_count [OF refl, of strict js "q'\<lparr>pos := pos q' + 1\<rparr>" "count + 1"]
          by (auto simp: dry_agrees_def)
      qed (use run r in \<open>simp add: dry_agrees_def\<close>)
    next
      case (Inr z)
      obtain p' t' n where z: "z = ((p', t'), n)" by (metis prod.collapse)
      obtain ts' where s: "t' = Some ts'" "length ts' = length ts" "loop_ok js (p'\<lparr>pos := pos p' + 1\<rparr>) ts'"
        "toknext p' = toknext p + n"
        using jsmn_step_ok [OF Inr [unfolded z] 1(2)] True by metis
      obtain q' where q': "jsmn_step strict js q None = Inr ((q', None), n)" "pos q' = pos p'"
        using dry_step_ok [OF Inr [unfolded z] 1(4)] by (auto simp: dry_follows_def)
      have "dry_agrees (length ts') (fst (jsmn_loop strict js (q'\<lparr>pos := pos q' + 1\<rparr>) None (count + int n)))
          (fst (jsmn_loop strict js (p'\<lparr>pos := pos p' + 1\<rparr>) (Some ts') (count + int n)))"
        using 1(1) [OF True Inr [unfolded z s(1)] refl refl s(3)] s q' 1(3) by simp
      moreover have "jsmn_loop strict js q None count = jsmn_loop strict js (q'\<lparr>pos := pos q' + 1\<rparr>) None (count + int n)"
        using True 1(4) q' by (subst jsmn_loop.simps) simp
      moreover have "jsmn_loop strict js p (Some ts) count = jsmn_loop strict js (p'\<lparr>pos := pos p' + 1\<rparr>) (Some ts') (count + int n)"
        using True Inr z s by (subst jsmn_loop.simps) simp
      ultimately show ?thesis using s by simp
    qed
  qed
qed

text \<open>C32. The two-pass use of the tokenizer is right: when the dry run without tokens counts \<open>r\<close>, a run
  on an array of at least \<open>r\<close> tokens returns exactly \<open>r\<close> or reports the text as invalid or partial; it
  never reports that the array is too small.\<close>

theorem jsmn_dry_run_sizes:
  assumes "fst (jsmn_parse strict js jsmn_init None) = r" and "0 \<le> r" and "r \<le> int (length ts)"
  shows "fst (jsmn_parse strict js jsmn_init (Some ts)) \<in> {r, JSMN_ERROR_INVAL, JSMN_ERROR_PART}"
proof -
  have "loop_ok js jsmn_init ts" by (simp add: jsmn_init_def loop_ok_def super_ok_def toks_ok_def)
  then have "dry_agrees (length ts) r (fst (jsmn_parse strict js jsmn_init (Some ts)))"
    using jsmn_loop_dry [of js jsmn_init ts "int (toknext jsmn_init)" jsmn_init strict] assms(1)
    by (simp add: jsmn_parse_def)
  then show ?thesis using assms(2,3) by (auto simp: dry_agrees_def)
qed

text \<open>The hypotheses at a concrete text: the dry run of an object with one member counts four tokens.\<close>

definition tok0 :: jsmntok_t where "tok0 = jsmn_fill_token JSMN_UNDEFINED 0 0"

definition js_obj :: string where
  "js_obj = [CHR ''{'', CHR 0x22, CHR ''a'', CHR 0x22, CHR '':'', CHR ''['', CHR ''7'', CHR '']'', CHR ''}'']"

lemma js_obj_dry: "fst (jsmn_parse False js_obj jsmn_init None) = 4"
  by code_simp

lemma jsmn_dry_run_sizes_witness:
  "fst (jsmn_parse False js_obj jsmn_init (Some (replicate 4 tok0))) \<in> {4, JSMN_ERROR_INVAL, JSMN_ERROR_PART}"
  by (rule jsmn_dry_run_sizes [OF js_obj_dry]) simp_all

end
