(* ===== verification/Pq.thy ===== *)
theory Pq
  imports Prelude "HOL-Library.Multiset"
begin

text \<open>
  The priority queue \<^verbatim>\<open>nghttp2/lib/nghttp2_pq.c\<close>: a binary heap in an array of pointers, where every
  entry carries its own position (\<^verbatim>\<open>nghttp2_pq_entry.index\<close>) so that it can be removed from the
  middle. An entry is an address; \<open>pq_index\<close> and \<open>pq_val\<close> are the memory behind the addresses: the
  position field, and the rest of the object the entry is embedded in, which is all the comparison
  function looks at. \<open>pq_q\<close> is the used part of the array, so its length is \<^verbatim>\<open>pq->length\<close>. Whether an
  allocation succeeds is an argument.
\<close>

section \<open>State and operations\<close>

record ('e, 'k) pq =
  pq_q :: "'e list"
  pq_capacity :: nat
  pq_index :: "'e \<Rightarrow> nat"
  pq_val :: "'e \<Rightarrow> 'k"

type_synonym 'k less = "'k \<Rightarrow> 'k \<Rightarrow> bool"

definition NGHTTP2_ERR_NOMEM :: int where "NGHTTP2_ERR_NOMEM = - 901"

definition nghttp2_pq_init :: "('e \<Rightarrow> nat) \<Rightarrow> ('e \<Rightarrow> 'k) \<Rightarrow> ('e, 'k) pq" where
  "nghttp2_pq_init ix v = \<lparr>pq_q = [], pq_capacity = 0, pq_index = ix, pq_val = v\<rparr>"

definition pq_size :: "('e, 'k) pq \<Rightarrow> nat" where
  "pq_size pq = length (pq_q pq)"

definition pq_empty :: "('e, 'k) pq \<Rightarrow> bool" where
  "pq_empty pq = (pq_size pq = 0)"

text \<open>The contents of the entry at a position.\<close>

definition key :: "('e, 'k) pq \<Rightarrow> nat \<Rightarrow> 'k" where
  "key pq i = pq_val pq (pq_q pq ! i)"

definition swap :: "('e, 'k) pq \<Rightarrow> nat \<Rightarrow> nat \<Rightarrow> ('e, 'k) pq" where
  "swap pq i j =
     (let a = pq_q pq ! i; b = pq_q pq ! j in
      pq\<lparr>pq_q := (pq_q pq)[i := b, j := a], pq_index := (pq_index pq)(b := i, a := j)\<rparr>)"

definition parent :: "nat \<Rightarrow> nat" where
  "parent i = (i - 1) div 2"

function bubble_up :: "'k less \<Rightarrow> ('e, 'k) pq \<Rightarrow> nat \<Rightarrow> ('e, 'k) pq" where
  "bubble_up lt pq i =
     (if i = 0 then pq
      else if \<not> lt (key pq i) (key pq (parent i)) then pq
      else bubble_up lt (swap pq (parent i) i) (parent i))"
  by pat_completeness auto
termination
  by (relation "measure (\<lambda>(lt, pq, i). i)") (auto simp: parent_def)

declare bubble_up.simps [simp del]

text \<open>The position of the least of a node and its at most two children.\<close>

definition min_child :: "'k less \<Rightarrow> ('e, 'k) pq \<Rightarrow> nat \<Rightarrow> nat" where
  "min_child lt pq i =
     (let j = i * 2 + 1 in
      if j \<ge> pq_size pq then i
      else
        (let m = (if lt (key pq j) (key pq i) then j else i) in
         if j + 1 \<ge> pq_size pq then m
         else if lt (key pq (j + 1)) (key pq m) then j + 1 else m))"

lemma min_child_cases: "min_child lt pq i = i \<or> (i < min_child lt pq i \<and> min_child lt pq i < pq_size pq)"
  by (auto simp: min_child_def Let_def)

lemma size_swap [simp]: "pq_size (swap pq i j) = pq_size pq" "length (pq_q (swap pq i j)) = length (pq_q pq)"
  by (simp_all add: swap_def pq_size_def Let_def)

function bubble_down :: "'k less \<Rightarrow> ('e, 'k) pq \<Rightarrow> nat \<Rightarrow> ('e, 'k) pq" where
  "bubble_down lt pq i =
     (if min_child lt pq i = i then pq
      else bubble_down lt (swap pq i (min_child lt pq i)) (min_child lt pq i))"
  by pat_completeness auto
termination
proof (relation "measure (\<lambda>(lt, pq, i). pq_size pq - i)", goal_cases)
  case (2 lt pq i)
  then show ?case using min_child_cases [of lt pq i] by auto
qed simp

declare bubble_down.simps [simp del]

definition grow :: "bool \<Rightarrow> ('e, 'k) pq \<Rightarrow> ('e, 'k) pq option" where
  "grow mem_ok pq =
     (if pq_capacity pq \<le> pq_size pq
      then if mem_ok then Some (pq\<lparr>pq_capacity := max 4 (pq_capacity pq * 2)\<rparr>) else None
      else Some pq)"

definition nghttp2_pq_push :: "'k less \<Rightarrow> bool \<Rightarrow> ('e, 'k) pq \<Rightarrow> 'e \<Rightarrow> int \<times> ('e, 'k) pq" where
  "nghttp2_pq_push lt mem_ok pq item =
     (case grow mem_ok pq of
        None \<Rightarrow> (NGHTTP2_ERR_NOMEM, pq)
      | Some pq1 \<Rightarrow>
          (let pq2 = pq1\<lparr>pq_q := pq_q pq1 @ [item], pq_index := (pq_index pq1)(item := pq_size pq1)\<rparr> in
           (0, bubble_up lt pq2 (pq_size pq2 - 1))))"

definition nghttp2_pq_top :: "('e, 'k) pq \<Rightarrow> 'e option" where
  "nghttp2_pq_top pq = (if pq_size pq = 0 then None else Some (pq_q pq ! 0))"

text \<open>The last entry moves to position \<open>i\<close> and the array gets shorter.\<close>

definition move_last :: "('e, 'k) pq \<Rightarrow> nat \<Rightarrow> ('e, 'k) pq" where
  "move_last pq i =
     (let l = pq_q pq ! (pq_size pq - 1) in
      pq\<lparr>pq_q := butlast ((pq_q pq)[i := l]), pq_index := (pq_index pq)(l := i)\<rparr>)"

definition nghttp2_pq_pop :: "'k less \<Rightarrow> ('e, 'k) pq \<Rightarrow> ('e, 'k) pq" where
  "nghttp2_pq_pop lt pq = (if pq_size pq > 0 then bubble_down lt (move_last pq 0) 0 else pq)"

definition remove_entry :: "'k less \<Rightarrow> ('e, 'k) pq \<Rightarrow> 'e \<Rightarrow> ('e, 'k) pq" where
  "remove_entry lt pq item =
     (let i = pq_index pq item in
      if i = 0 then nghttp2_pq_pop lt pq
      else if i = pq_size pq - 1 then pq\<lparr>pq_q := butlast (pq_q pq)\<rparr>
      else
        (let pq1 = move_last pq i in
         if lt (pq_val pq1 item) (key pq1 i) then bubble_down lt pq1 i else bubble_up lt pq1 i))"

text \<open>The assertion that the position field is right guards the removal; \<open>None\<close> is the abort.\<close>

definition nghttp2_pq_remove :: "'k less \<Rightarrow> ('e, 'k) pq \<Rightarrow> 'e \<Rightarrow> ('e, 'k) pq option" where
  "nghttp2_pq_remove lt pq item =
     (if pq_index pq item < pq_size pq \<and> pq_q pq ! pq_index pq item = item then Some (remove_entry lt pq item) else None)"

text \<open>A callback may change the object behind an entry; its result is zero when the order is not
  affected. The other memory it works on is \<open>'s\<close>.\<close>

fun update_all :: "('e \<Rightarrow> 'k \<Rightarrow> 's \<Rightarrow> int \<times> 'k \<times> 's) \<Rightarrow> 'e list \<Rightarrow> ('e \<Rightarrow> 'k) \<Rightarrow> 's \<Rightarrow> int \<Rightarrow> int \<times> ('e \<Rightarrow> 'k) \<times> 's" where
  "update_all f [] v s rv = (rv, v, s)"
| "update_all f (e # es) v s rv =
     (case f e (v e) s of (r, k, s') \<Rightarrow> update_all f es (v(e := k)) s' (or rv r))"

definition rebuild :: "'k less \<Rightarrow> ('e, 'k) pq \<Rightarrow> nat \<Rightarrow> ('e, 'k) pq" where
  "rebuild lt pq n = fold (\<lambda>i pq. bubble_down lt pq i) (rev [0..<n]) pq"

definition nghttp2_pq_update :: "'k less \<Rightarrow> ('e \<Rightarrow> 'k \<Rightarrow> 's \<Rightarrow> int \<times> 'k \<times> 's) \<Rightarrow> ('e, 'k) pq \<Rightarrow> 's \<Rightarrow> ('e, 'k) pq \<times> 's" where
  "nghttp2_pq_update lt f pq s =
     (if pq_size pq = 0 then (pq, s)
      else
        (case update_all f (pq_q pq) (pq_val pq) s 0 of
           (rv, v, s') \<Rightarrow>
             let pq1 = pq\<lparr>pq_val := v\<rparr> in (if rv \<noteq> 0 then rebuild lt pq1 (pq_size pq1) else pq1, s')))"

fun each_entry :: "('e \<Rightarrow> 's \<Rightarrow> int \<times> 's) \<Rightarrow> 'e list \<Rightarrow> 's \<Rightarrow> int \<times> 's" where
  "each_entry f [] s = (0, s)"
| "each_entry f (e # es) s = (case f e s of (r, s') \<Rightarrow> if r \<noteq> 0 then (1, s') else each_entry f es s')"

definition nghttp2_pq_each :: "('e \<Rightarrow> 's \<Rightarrow> int \<times> 's) \<Rightarrow> ('e, 'k) pq \<Rightarrow> 's \<Rightarrow> int \<times> 's" where
  "nghttp2_pq_each f pq s = (if pq_size pq = 0 then (0, s) else each_entry f (pq_q pq) s)"

section \<open>What the operations do to the array and the positions\<close>

text \<open>Every entry knows its position; so no entry is in the queue twice.\<close>

definition index_ok :: "('e, 'k) pq \<Rightarrow> bool" where
  "index_ok pq = (\<forall>i < pq_size pq. pq_index pq (pq_q pq ! i) = i)"

lemma index_ok_distinct: "index_ok pq \<Longrightarrow> distinct (pq_q pq)"
  unfolding distinct_conv_nth index_ok_def pq_size_def by metis

lemma index_ok_member: "index_ok pq \<Longrightarrow> e \<in> set (pq_q pq) \<Longrightarrow> pq_index pq e < pq_size pq \<and> pq_q pq ! pq_index pq e = e"
  by (auto simp: index_ok_def pq_size_def in_set_conv_nth)

lemma swap_key:
  "i < pq_size pq \<Longrightarrow> j < pq_size pq \<Longrightarrow> i \<noteq> j \<Longrightarrow> key (swap pq i j) = (key pq)(i := key pq j, j := key pq i)"
  by (auto simp: swap_def key_def Let_def pq_size_def fun_eq_iff nth_list_update)

lemma swap_index: "index_ok pq \<Longrightarrow> i < pq_size pq \<Longrightarrow> j < pq_size pq \<Longrightarrow> i \<noteq> j \<Longrightarrow> index_ok (swap pq i j)"
  using index_ok_distinct [of pq]
  by (auto simp: index_ok_def swap_def Let_def pq_size_def nth_list_update nth_eq_iff_index_eq)

text \<open>Swapping and bubbling permute the array and leave the objects alone.\<close>

definition permuted :: "('e, 'k) pq \<Rightarrow> ('e, 'k) pq \<Rightarrow> bool" where
  "permuted pq pq' =
     (mset (pq_q pq') = mset (pq_q pq) \<and> pq_capacity pq' = pq_capacity pq \<and> pq_val pq' = pq_val pq \<and>
      (index_ok pq \<longrightarrow> index_ok pq') \<and> (\<forall>e. e \<notin> set (pq_q pq) \<longrightarrow> pq_index pq' e = pq_index pq e))"

lemma permuted_refl [simp]: "permuted pq pq"
  by (simp add: permuted_def)

lemma permuted_set: "permuted pq pq' \<Longrightarrow> set (pq_q pq') = set (pq_q pq)"
  unfolding permuted_def by (metis set_mset_mset)

lemma permuted_size: "permuted pq pq' \<Longrightarrow> pq_size pq' = pq_size pq"
  unfolding permuted_def pq_size_def by (metis size_mset)

lemma permuted_trans: "permuted a b \<Longrightarrow> permuted b c \<Longrightarrow> permuted a c"
  using permuted_set [of a b] by (auto simp: permuted_def)

lemma swap_permuted: "i < pq_size pq \<Longrightarrow> j < pq_size pq \<Longrightarrow> i \<noteq> j \<Longrightarrow> permuted pq (swap pq i j)"
  using swap_index [of pq i j]
  by (auto simp: permuted_def swap_def Let_def pq_size_def mset_swap)

lemma parent_less: "0 < i \<Longrightarrow> parent i < i"
  by (simp add: parent_def)

lemma bubble_up_permuted: "i < pq_size pq \<Longrightarrow> permuted pq (bubble_up lt pq i)"
proof (induction lt pq i rule: bubble_up.induct)
  case (1 lt pq i)
  show ?case
  proof (cases "i = 0 \<or> \<not> lt (key pq i) (key pq (parent i))")
    case True
    then show ?thesis by (subst bubble_up.simps) auto
  next
    case False
    then have "permuted pq (swap pq (parent i) i)" using 1(2) parent_less [of i] by (intro swap_permuted) auto
    moreover have "permuted (swap pq (parent i) i) (bubble_up lt (swap pq (parent i) i) (parent i))"
      using 1 False parent_less [of i] by auto
    ultimately show ?thesis using False by (subst bubble_up.simps) (auto intro: permuted_trans)
  qed
qed

lemma bubble_down_permuted: "i < pq_size pq \<Longrightarrow> permuted pq (bubble_down lt pq i)"
proof (induction lt pq i rule: bubble_down.induct)
  case (1 lt pq i)
  show ?case
  proof (cases "min_child lt pq i = i")
    case True
    then show ?thesis by (subst bubble_down.simps) simp
  next
    case False
    then have m: "i < min_child lt pq i" "min_child lt pq i < pq_size pq" using min_child_cases [of lt pq i] by auto
    then have "permuted pq (swap pq i (min_child lt pq i))" using 1(2) by (intro swap_permuted) auto
    moreover have "permuted (swap pq i (min_child lt pq i)) (bubble_down lt (swap pq i (min_child lt pq i)) (min_child lt pq i))"
      using 1 False m by simp
    ultimately show ?thesis using False by (subst bubble_down.simps) (auto intro: permuted_trans)
  qed
qed

lemma rebuild_Suc: "rebuild lt pq (Suc n) = rebuild lt (bubble_down lt pq n) n"
  by (simp add: rebuild_def)

lemma rebuild_permuted: "n \<le> pq_size pq \<Longrightarrow> permuted pq (rebuild lt pq n)"
proof (induction n arbitrary: pq)
  case 0
  then show ?case by (simp add: rebuild_def)
next
  case (Suc n)
  have d: "permuted pq (bubble_down lt pq n)" using Suc(2) by (intro bubble_down_permuted) simp
  show ?case using Suc(1) [of "bubble_down lt pq n"] Suc(2) d permuted_size [OF d] permuted_trans by (simp add: rebuild_Suc)
qed

section \<open>Heap order\<close>

text \<open>No entry comes before its parent, for the parents from \<open>m\<close> on; and the same with a hole at \<open>i\<close>
  whose entry may have to move up, or down.\<close>

definition heap_on :: "'k less \<Rightarrow> (nat \<Rightarrow> 'k) \<Rightarrow> nat \<Rightarrow> nat \<Rightarrow> bool" where
  "heap_on lt k n m = (\<forall>j<n. 0 < j \<longrightarrow> m \<le> parent j \<longrightarrow> \<not> lt (k j) (k (parent j)))"

definition up_hole :: "'k less \<Rightarrow> (nat \<Rightarrow> 'k) \<Rightarrow> nat \<Rightarrow> nat \<Rightarrow> bool" where
  "up_hole lt k n i =
     ((\<forall>j<n. 0 < j \<longrightarrow> j \<noteq> i \<longrightarrow> \<not> lt (k j) (k (parent j))) \<and>
      (\<forall>j<n. 0 < j \<longrightarrow> parent j = i \<longrightarrow> 0 < i \<longrightarrow> \<not> lt (k j) (k (parent i))))"

definition down_hole :: "'k less \<Rightarrow> (nat \<Rightarrow> 'k) \<Rightarrow> nat \<Rightarrow> nat \<Rightarrow> nat \<Rightarrow> bool" where
  "down_hole lt k n m i =
     ((\<forall>j<n. 0 < j \<longrightarrow> m \<le> parent j \<longrightarrow> parent j \<noteq> i \<longrightarrow> \<not> lt (k j) (k (parent j))) \<and>
      (\<forall>j<n. 0 < j \<longrightarrow> parent j = i \<longrightarrow> 0 < i \<longrightarrow> m \<le> parent i \<longrightarrow> \<not> lt (k j) (k (parent i))))"

text \<open>The contents of the queue, and the invariant of the queue.\<close>

definition pq_in :: "'k set \<Rightarrow> ('e, 'k) pq \<Rightarrow> bool" where
  "pq_in S pq = (\<forall>e \<in> set (pq_q pq). pq_val pq e \<in> S)"

definition pq_ok :: "'k less \<Rightarrow> ('e, 'k) pq \<Rightarrow> bool" where
  "pq_ok lt pq = (heap_on lt (key pq) (pq_size pq) 0 \<and> index_ok pq \<and> pq_size pq \<le> pq_capacity pq)"

lemma pq_in_key: "pq_in S pq \<Longrightarrow> i < pq_size pq \<Longrightarrow> key pq i \<in> S"
  by (simp add: pq_in_def key_def pq_size_def)

lemma pq_in_permuted: "permuted pq pq' \<Longrightarrow> pq_in S pq \<Longrightarrow> pq_in S pq'"
  using permuted_set [of pq pq'] by (simp add: pq_in_def permuted_def)

lemma parent_child: "0 < j \<Longrightarrow> parent j = i \<longleftrightarrow> j = i * 2 + 1 \<or> j = i * 2 + 2"
  by (auto simp: parent_def)

text \<open>What the queue asks of the comparison: a weak order on the contents it ever holds.\<close>

locale weak_order =
  fixes lt :: "'k \<Rightarrow> 'k \<Rightarrow> bool" and S :: "'k set"
  assumes asym: "x \<in> S \<Longrightarrow> y \<in> S \<Longrightarrow> lt x y \<Longrightarrow> \<not> lt y x"
    and ntrans: "x \<in> S \<Longrightarrow> y \<in> S \<Longrightarrow> z \<in> S \<Longrightarrow> \<not> lt x y \<Longrightarrow> \<not> lt y z \<Longrightarrow> \<not> lt x z"
begin

lemma irrefl: "x \<in> S \<Longrightarrow> \<not> lt x x"
  using asym by blast

lemma lt_trans: "x \<in> S \<Longrightarrow> y \<in> S \<Longrightarrow> z \<in> S \<Longrightarrow> lt x y \<Longrightarrow> lt y z \<Longrightarrow> lt x z"
  using asym ntrans by blast

lemma top_least: "heap_on lt k n 0 \<Longrightarrow> (\<And>i. i < n \<Longrightarrow> k i \<in> S) \<Longrightarrow> j < n \<Longrightarrow> \<not> lt (k j) (k 0)"
proof (induction j rule: less_induct)
  case (less j)
  show ?case
  proof (cases "j = 0")
    case False
    then have p: "parent j < j" by (simp add: parent_less)
    then have "\<not> lt (k (parent j)) (k 0)" using less by simp
    moreover have "\<not> lt (k j) (k (parent j))" using less False by (simp add: heap_on_def)
    ultimately show ?thesis using ntrans [of "k j" "k (parent j)" "k 0"] less(3,4) p by fastforce
  qed (use less irrefl in simp)
qed

lemma up_hole_done: "up_hole lt k n i \<Longrightarrow> i = 0 \<or> \<not> lt (k i) (k (parent i)) \<Longrightarrow> heap_on lt k n 0"
  by (fastforce simp: up_hole_def heap_on_def)

lemma up_hole_swap:
  assumes hole: "up_hole lt k n i" and i: "0 < i" "i < n" and lt: "lt (k i) (k (parent i))" and S: "\<And>j. j < n \<Longrightarrow> k j \<in> S"
  shows "up_hole lt (k(parent i := k i, i := k (parent i))) n (parent i)"
proof -
  define p where "p = parent i"
  have p: "p < i" using i parent_less by (simp add: p_def)
  have h1: "\<And>j. j < n \<Longrightarrow> 0 < j \<Longrightarrow> j \<noteq> i \<Longrightarrow> \<not> lt (k j) (k (parent j))"
    and h2: "\<And>j. j < n \<Longrightarrow> 0 < j \<Longrightarrow> parent j = i \<Longrightarrow> \<not> lt (k j) (k p)"
    using hole i by (auto simp: up_hole_def p_def)
  have pi: "\<not> lt (k p) (k i)" using asym [OF S S lt] i p by (simp add: p_def)
  have sib: "\<not> lt (k j) (k i)" if "j < n" "0 < j" "j \<noteq> i" "parent j = p" for j
    using ntrans [of "k j" "k p" "k i"] h1 [of j] that pi S i p by simp
  have up: "\<not> lt (k j) (k (parent p))" if "j < n" "0 < j" "j \<noteq> i" "parent j = p" "0 < p" for j
    using ntrans [of "k j" "k p" "k (parent p)"] h1 [of j] h1 [of p] that S i p parent_less [of p] by simp
  show ?thesis
    unfolding up_hole_def p_def [symmetric]
  proof (intro conjI allI impI)
    fix j assume j: "j < n" "0 < j" "j \<noteq> p"
    have "parent j \<noteq> j" using j parent_less [of j] by simp
    then show "\<not> lt ((k(p := k i, i := k p)) j) ((k(p := k i, i := k p)) (parent j))"
      using j p pi h1 h2 sib i p_def by (cases "j = i"; cases "parent j = i"; cases "parent j = p") auto
  next
    fix j assume j: "j < n" "0 < j" "parent j = p" "0 < p"
    have "parent p < p" using j parent_less by simp
    then have eq: "(k(p := k i, i := k p)) (parent p) = k (parent p)" using p by simp
    have "j \<noteq> p" using j parent_less [of j] by auto
    then show "\<not> lt ((k(p := k i, i := k p)) j) ((k(p := k i, i := k p)) (parent p))"
      unfolding eq using j p h1 [of p] up [of j] i by (cases "j = i") auto
  qed
qed

lemma bubble_up_heap:
  "up_hole lt (key pq) (pq_size pq) i \<Longrightarrow> i < pq_size pq \<Longrightarrow> pq_in S pq \<Longrightarrow>
   heap_on lt (key (bubble_up lt pq i)) (pq_size pq) 0"
proof (induction i arbitrary: pq rule: less_induct)
  case (less i)
  show ?case
  proof (cases "i = 0 \<or> \<not> lt (key pq i) (key pq (parent i))")
    case True
    then have "bubble_up lt pq i = pq" by (subst bubble_up.simps) auto
    then show ?thesis using up_hole_done [OF less(2) True] by simp
  next
    case False
    then have p: "parent i < i" by (simp add: parent_less)
    let ?pq = "swap pq (parent i) i"
    have "up_hole lt (key ?pq) (pq_size pq) (parent i)"
      using up_hole_swap [OF less(2) _ less(3)] False pq_in_key [OF less(4)] p less(3) by (simp add: swap_key)
    moreover have "pq_in S ?pq" using p less(3,4) by (intro pq_in_permuted [OF swap_permuted]) auto
    ultimately have "heap_on lt (key (bubble_up lt ?pq (parent i))) (pq_size pq) 0"
      using less(1) [OF p, of ?pq] p less(3) by simp
    then show ?thesis using False by (subst bubble_up.simps) simp
  qed
qed

text \<open>The least of a node and its children.\<close>

lemma min_child_same:
  assumes "min_child lt pq i = i" and "j < pq_size pq" and "0 < j" and "parent j = i" and "pq_in S pq" and "i < pq_size pq"
  shows "\<not> lt (key pq j) (key pq i)"
  using assms by (auto simp: min_child_def Let_def parent_child split: if_split_asm)

lemma min_child_diff:
  assumes "min_child lt pq i = c" and "c \<noteq> i" and "pq_in S pq" and i: "i < pq_size pq"
  shows "i < c \<and> c < pq_size pq \<and> parent c = i \<and> lt (key pq c) (key pq i) \<and>
    (\<forall>j < pq_size pq. 0 < j \<longrightarrow> parent j = i \<longrightarrow> \<not> lt (key pq j) (key pq c))"
proof -
  have c: "i < c" "c < pq_size pq" using min_child_cases [of lt pq i] assms(1,2) by auto
  have S: "\<And>j. j < pq_size pq \<Longrightarrow> key pq j \<in> S" by (rule pq_in_key [OF assms(3)])
  consider (left) "c = i * 2 + 1" "lt (key pq c) (key pq i)" "\<not> c + 1 < pq_size pq \<or> \<not> lt (key pq (c + 1)) (key pq c)"
    | (right) "c = i * 2 + 2" "lt (key pq (i * 2 + 1)) (key pq i)" "lt (key pq c) (key pq (i * 2 + 1))"
    | (right') "c = i * 2 + 2" "\<not> lt (key pq (i * 2 + 1)) (key pq i)" "lt (key pq c) (key pq i)"
    using assms(1,2) by (auto simp: min_child_def Let_def split: if_split_asm)
  then have "parent c = i \<and> lt (key pq c) (key pq i) \<and>
      (\<forall>j < pq_size pq. j = i * 2 + 1 \<or> j = i * 2 + 2 \<longrightarrow> \<not> lt (key pq j) (key pq c))"
  proof cases
    case left
    then show ?thesis using irrefl [OF S [OF c(2)]] by (auto simp: parent_def)
  next
    case right
    then have l: "i * 2 + 1 < pq_size pq" using c by simp
    have "lt (key pq c) (key pq i)" by (rule lt_trans [OF S [OF c(2)] S [OF l] S [OF i] right(3,2)])
    moreover have "\<not> lt (key pq (i * 2 + 1)) (key pq c)" by (rule asym [OF S [OF c(2)] S [OF l] right(3)])
    ultimately show ?thesis using right(1) irrefl [OF S [OF c(2)]] by (auto simp: parent_def)
  next
    case right'
    then have l: "i * 2 + 1 < pq_size pq" using c by simp
    have "\<not> lt (key pq i) (key pq c)" by (rule asym [OF S [OF c(2)] S [OF i] right'(3)])
    then have "\<not> lt (key pq (i * 2 + 1)) (key pq c)" by (rule ntrans [OF S [OF l] S [OF i] S [OF c(2)] right'(2)])
    then show ?thesis using right' irrefl [OF S [OF c(2)]] by (auto simp: parent_def)
  qed
  then show ?thesis using c parent_child by auto
qed

lemma down_hole_swap:
  assumes hole: "down_hole lt k n m i" and c: "i < c" "c < n" "parent c = i" and lt: "lt (k c) (k i)" and m: "m \<le> i"
    and least: "\<And>j. j < n \<Longrightarrow> 0 < j \<Longrightarrow> parent j = i \<Longrightarrow> \<not> lt (k j) (k c)" and S: "\<And>j. j < n \<Longrightarrow> k j \<in> S"
  shows "down_hole lt (k(i := k c, c := k i)) n m c"
proof -
  let ?k = "k(i := k c, c := k i)"
  have h1: "\<And>j. j < n \<Longrightarrow> 0 < j \<Longrightarrow> m \<le> parent j \<Longrightarrow> parent j \<noteq> i \<Longrightarrow> \<not> lt (k j) (k (parent j))"
    and h2: "\<And>j. j < n \<Longrightarrow> 0 < j \<Longrightarrow> parent j = i \<Longrightarrow> 0 < i \<Longrightarrow> m \<le> parent i \<Longrightarrow> \<not> lt (k j) (k (parent i))"
    using hole by (auto simp: down_hole_def)
  have ic: "\<not> lt (k i) (k c)" using asym [OF S S lt] c by simp
  show ?thesis
    unfolding down_hole_def
  proof (intro conjI allI impI)
    fix j assume j: "j < n" "0 < j" "m \<le> parent j" "parent j \<noteq> c"
    have pj: "parent j < j" using j parent_less by simp
    consider "j = c" | "j \<noteq> c" "parent j = i" | "j = i" | "j \<noteq> c" "j \<noteq> i" "parent j \<noteq> i" by blast
    then show "\<not> lt (?k j) (?k (parent j))"
    proof cases
      case 3
      then have "\<not> lt (k c) (k (parent i))" using h2 [of c] c j by simp
      then show ?thesis using 3 c j pj by simp
    qed (use c ic least [of j] h1 [of j] j pj in auto)
  next
    fix j assume j: "j < n" "0 < j" "parent j = c" "0 < c" "m \<le> parent c"
    have "c < j" using j parent_less [of j] by simp
    then show "\<not> lt (?k j) (?k (parent c))" using h1 [of j] j c m by simp
  qed
qed

lemma bubble_down_heap:
  "down_hole lt (key pq) (pq_size pq) m i \<Longrightarrow> m \<le> i \<Longrightarrow> i < pq_size pq \<Longrightarrow> pq_in S pq \<Longrightarrow>
   heap_on lt (key (bubble_down lt pq i)) (pq_size pq) m"
proof (induction "pq_size pq - i" arbitrary: pq i rule: less_induct)
  case less
  show ?case
  proof (cases "min_child lt pq i = i")
    case True
    have "bubble_down lt pq i = pq" using True by (subst bubble_down.simps) simp
    moreover have "\<not> lt (key pq j) (key pq (parent j))" if "j < pq_size pq" "0 < j" "m \<le> parent j" for j
      using less(2) min_child_same [OF True that(1,2) _ less(5,4)] that by (cases "parent j = i") (simp_all add: down_hole_def)
    ultimately show ?thesis by (simp add: heap_on_def)
  next
    case False
    define c where "c = min_child lt pq i"
    have c: "i < c" "c < pq_size pq" "parent c = i" "lt (key pq c) (key pq i)"
      "\<And>j. j < pq_size pq \<Longrightarrow> 0 < j \<Longrightarrow> parent j = i \<Longrightarrow> \<not> lt (key pq j) (key pq c)"
      using min_child_diff [OF c_def [symmetric] _ less(5,4)] False by (auto simp: c_def)
    let ?pq = "swap pq i c"
    have eq: "key ?pq = (key pq)(i := key pq c, c := key pq i)" using c(1,2) less(4) by (intro swap_key) simp_all
    have "down_hole lt (key ?pq) (pq_size pq) m c"
      unfolding eq by (rule down_hole_swap [OF less(2) c(1-4) less(3) c(5) pq_in_key [OF less(5)]])
    moreover have "pq_in S ?pq" using c(1,2) less(4,5) by (intro pq_in_permuted [OF swap_permuted]) auto
    ultimately have "heap_on lt (key (bubble_down lt ?pq c)) (pq_size ?pq) m"
      using c(1,2) less(3) by (intro less(1)) auto
    then show ?thesis using False by (subst bubble_down.simps) (simp add: c_def)
  qed
qed

lemma rebuild_heap:
  "heap_on lt (key pq) (pq_size pq) n \<Longrightarrow> n \<le> pq_size pq \<Longrightarrow> pq_in S pq \<Longrightarrow>
   heap_on lt (key (rebuild lt pq n)) (pq_size pq) 0"
proof (induction n arbitrary: pq)
  case 0
  then show ?case by (simp add: rebuild_def)
next
  case (Suc n)
  let ?pq = "bubble_down lt pq n"
  have per: "permuted pq ?pq" using Suc(3) by (intro bubble_down_permuted) simp
  have "down_hole lt (key pq) (pq_size pq) n n"
    using Suc(2) parent_less [of n] by (auto simp: down_hole_def heap_on_def)
  then have "heap_on lt (key ?pq) (pq_size pq) n" using Suc(3,4) by (intro bubble_down_heap) auto
  then show ?case
    using Suc(1) [of ?pq] Suc(3,4) permuted_size [OF per] pq_in_permuted [OF per] by (simp add: rebuild_Suc)
qed

lemma bubble_up_ok:
  assumes "up_hole lt (key pq) (pq_size pq) i" and "i < pq_size pq" and "pq_in S pq" and "index_ok pq" and "pq_size pq \<le> pq_capacity pq"
  shows "pq_ok lt (bubble_up lt pq i)"
proof -
  have per: "permuted pq (bubble_up lt pq i)" by (rule bubble_up_permuted [OF assms(2)])
  then show ?thesis
    using assms(4,5) bubble_up_heap [OF assms(1-3)] permuted_size [OF per] by (simp add: pq_ok_def permuted_def)
qed

lemma bubble_down_ok:
  assumes "down_hole lt (key pq) (pq_size pq) 0 i" and "i < pq_size pq" and "pq_in S pq" and "index_ok pq" and "pq_size pq \<le> pq_capacity pq"
  shows "pq_ok lt (bubble_down lt pq i)"
proof -
  have per: "permuted pq (bubble_down lt pq i)" by (rule bubble_down_permuted [OF assms(2)])
  then show ?thesis
    using assms(4,5) bubble_down_heap [OF assms(1) _ assms(2,3)] permuted_size [OF per] by (simp add: pq_ok_def permuted_def)
qed

end

lemma pq_size_simps [simp]:
  "pq_size (pq\<lparr>pq_capacity := c\<rparr>) = pq_size pq" "pq_size (pq\<lparr>pq_index := x\<rparr>) = pq_size pq" "pq_size (pq\<lparr>pq_val := v\<rparr>) = pq_size pq"
  "pq_size (pq\<lparr>pq_q := qs\<rparr>) = length qs"
  by (simp_all add: pq_size_def)

text \<open>Moving the last entry to position \<open>i\<close> takes out the entry that was there.\<close>

lemma size_move_last [simp]: "pq_size (move_last pq i) = pq_size pq - 1"
  by (simp add: move_last_def Let_def pq_size_def)

lemma key_move_last: "i < pq_size pq \<Longrightarrow> j < pq_size pq - 1 \<Longrightarrow> key (move_last pq i) j = (if j = i then key pq (pq_size pq - 1) else key pq j)"
  by (auto simp: move_last_def Let_def key_def pq_size_def nth_butlast nth_list_update)

lemma mset_butlast_update:
  assumes "i < length xs"
  shows "mset (butlast (xs[i := last xs])) = mset xs - {#xs ! i#}"
proof (cases xs rule: rev_cases)
  case (snoc ys y)
  show ?thesis
  proof (cases "i < length ys")
    case True
    then have "xs ! i \<in># mset ys" by (simp add: snoc nth_append)
    then show ?thesis using True by (simp add: snoc list_update_append nth_append mset_update)
  next
    case False
    then have "i = length ys" using assms snoc by simp
    then show ?thesis by (simp add: snoc)
  qed
qed (use assms in simp)

lemma move_last_mset: "i < pq_size pq \<Longrightarrow> mset (pq_q (move_last pq i)) = mset (pq_q pq) - {#pq_q pq ! i#}"
  using mset_butlast_update [of i "pq_q pq"] last_conv_nth [of "pq_q pq"]
  by (cases "pq_q pq = []") (auto simp: move_last_def Let_def pq_size_def)

lemma move_last_index: "index_ok pq \<Longrightarrow> i < pq_size pq \<Longrightarrow> index_ok (move_last pq i)"
  using index_ok_distinct [of pq]
  by (auto simp: index_ok_def move_last_def Let_def pq_size_def nth_butlast nth_list_update nth_eq_iff_index_eq)

lemma move_last_rest [simp]:
  "pq_val (move_last pq i) = pq_val pq" "pq_capacity (move_last pq i) = pq_capacity pq"
  by (simp_all add: move_last_def Let_def)

text \<open>Which position fields an operation may write.\<close>

definition index_frame :: "'e set \<Rightarrow> ('e, 'k) pq \<Rightarrow> ('e, 'k) pq \<Rightarrow> bool" where
  "index_frame A pq pq' = (\<forall>e. e \<notin> A \<longrightarrow> pq_index pq' e = pq_index pq e)"

lemma move_last_frame: "i < pq_size pq \<Longrightarrow> index_frame (set (pq_q pq)) pq (move_last pq i)"
  by (auto simp: index_frame_def move_last_def Let_def pq_size_def)

lemma permuted_frame:
  "mset (pq_q pq1) = mset (pq_q pq) - X \<Longrightarrow> permuted pq1 pq2 \<Longrightarrow> index_frame (set (pq_q pq)) pq pq1 \<Longrightarrow>
   index_frame (set (pq_q pq)) pq pq2"
  by (auto simp: index_frame_def permuted_def dest: in_diffD simp flip: set_mset_mset)

lemma pq_in_mset: "mset (pq_q pq') \<subseteq># mset (pq_q pq) \<Longrightarrow> pq_val pq' = pq_val pq \<Longrightarrow> pq_in S pq \<Longrightarrow> pq_in S pq'"
  by (auto simp: pq_in_def dest: mset_subset_eqD simp flip: set_mset_mset)

lemma move_last_in: "i < pq_size pq \<Longrightarrow> pq_in S pq \<Longrightarrow> pq_in S (move_last pq i)"
  by (rule pq_in_mset [of _ pq]) (simp_all add: move_last_mset)

context weak_order
begin

text \<open>Push: the new entry climbs from the end.\<close>

lemma push_ok:
  assumes ok: "pq_ok lt pq" and S: "pq_in S pq" "pq_val pq item \<in> S" and new: "item \<notin> set (pq_q pq)"
    and push: "nghttp2_pq_push lt mem_ok pq item = (r, pq')"
  shows "(r = NGHTTP2_ERR_NOMEM \<and> pq' = pq \<and> \<not> mem_ok) \<or>
    (r = 0 \<and> pq_ok lt pq' \<and> mset (pq_q pq') = add_mset item (mset (pq_q pq)) \<and> pq_val pq' = pq_val pq \<and> index_frame (insert item (set (pq_q pq))) pq pq')"
proof (cases "grow mem_ok pq")
  case None
  then show ?thesis using push by (auto simp: nghttp2_pq_push_def grow_def split: if_splits)
next
  case (Some pq1)
  define pq2 where "pq2 = pq1\<lparr>pq_q := pq_q pq1 @ [item], pq_index := (pq_index pq1)(item := pq_size pq1)\<rparr>"
  define n where "n = pq_size pq"
  have n2: "pq_size pq2 = Suc n" and q2: "pq_q pq2 = pq_q pq @ [item]" "pq_val pq2 = pq_val pq"
    using Some by (auto simp: grow_def pq2_def n_def pq_size_def split: if_splits)
  have r: "r = 0" "pq' = bubble_up lt pq2 n" using push Some n2 by (simp_all add: nghttp2_pq_push_def pq2_def Let_def)
  have cap: "pq_size pq2 \<le> pq_capacity pq2"
    using Some ok by (auto simp: grow_def pq2_def pq_ok_def pq_size_def split: if_splits)
  have ix: "index_ok pq2"
    using Some ok new by (auto simp: index_ok_def pq_ok_def pq2_def grow_def pq_size_def nth_append less_Suc_eq split: if_splits)
  have k: "key pq2 j = key pq j" if "j < n" for j using that by (simp add: key_def q2 nth_append n_def pq_size_def)
  have "up_hole lt (key pq2) (pq_size pq2) n"
    unfolding up_hole_def n2
  proof (intro conjI allI impI)
    fix j assume j: "j < Suc n" "0 < j" "j \<noteq> n"
    then have "j < n" "parent j < n" using parent_less [of j] by auto
    then show "\<not> lt (key pq2 j) (key pq2 (parent j))" using ok j by (simp add: k pq_ok_def heap_on_def n_def)
  next
    fix j assume "j < Suc n" "0 < j" "parent j = n"
    then show "\<not> lt (key pq2 j) (key pq2 (parent n))" using parent_less [of j] by simp
  qed
  moreover have "pq_in S pq2" using S by (simp add: pq_in_def q2)
  ultimately have "pq_ok lt pq'" unfolding r using n2 by (intro bubble_up_ok [OF _ _ _ ix cap]) auto
  moreover have "permuted pq2 pq'" unfolding r using n2 by (intro bubble_up_permuted) simp
  moreover have "pq_index pq2 = (pq_index pq)(item := n)"
    using Some by (auto simp: grow_def pq2_def n_def split: if_splits)
  ultimately show ?thesis using r q2 by (simp add: permuted_def index_frame_def)
qed

lemma pop_ok:
  assumes ok: "pq_ok lt pq" and S: "pq_in S pq" and ne: "0 < pq_size pq"
  shows "pq_ok lt (nghttp2_pq_pop lt pq) \<and> mset (pq_q (nghttp2_pq_pop lt pq)) = mset (pq_q pq) - {#pq_q pq ! 0#} \<and>
    pq_val (nghttp2_pq_pop lt pq) = pq_val pq \<and> index_frame (set (pq_q pq)) pq (nghttp2_pq_pop lt pq) \<and> pq_capacity (nghttp2_pq_pop lt pq) = pq_capacity pq"
proof -
  define pq1 where "pq1 = move_last pq 0"
  have ix: "index_ok pq1" and cap: "pq_size pq1 \<le> pq_capacity pq1" and S1: "pq_in S pq1"
    using ok S ne by (auto simp: pq1_def pq_ok_def move_last_index move_last_in)
  have ms: "mset (pq_q pq1) = mset (pq_q pq) - {#pq_q pq ! 0#}" using ne by (simp add: pq1_def move_last_mset)
  have fr: "index_frame (set (pq_q pq)) pq pq1" using ne by (simp add: pq1_def move_last_frame)
  have pop: "nghttp2_pq_pop lt pq = bubble_down lt pq1 0" using ne by (simp add: nghttp2_pq_pop_def pq1_def)
  show ?thesis
  proof (cases "pq_size pq1 = 0")
    case True
    then have "bubble_down lt pq1 0 = pq1" by (subst bubble_down.simps) (simp add: min_child_def Let_def)
    then show ?thesis using True pop ix cap ms fr by (simp add: pq_ok_def heap_on_def pq1_def)
  next
    case False
    have "down_hole lt (key pq1) (pq_size pq1) 0 0"
      unfolding down_hole_def
    proof (intro conjI allI impI)
      fix j assume j: "j < pq_size pq1" "0 < j" "parent j \<noteq> 0"
      have "parent j < pq_size pq - 1" using j parent_less [of j] by (simp add: pq1_def)
      then show "\<not> lt (key pq1 j) (key pq1 (parent j))"
        using j ok ne by (simp add: pq1_def key_move_last pq_ok_def heap_on_def)
    qed simp
    then have "pq_ok lt (bubble_down lt pq1 0)" "permuted pq1 (bubble_down lt pq1 0)"
      using False by (auto intro: bubble_down_ok [OF _ _ S1 ix cap] bubble_down_permuted)
    then show ?thesis using pop ms permuted_frame [OF ms _ fr] by (simp add: permuted_def pq1_def)
  qed
qed

text \<open>Remove: an entry from anywhere, found by its own position field. What replaces it has to go down
  when it comes after the entry taken out, and up otherwise.\<close>

lemma replace_hole:
  assumes heap: "heap_on lt k n 0" and i: "0 < i" "i < n" and x: "x \<in> S" and K: "\<And>j. j < n \<Longrightarrow> k j \<in> S"
  shows "if lt (k i) x then down_hole lt (k(i := x)) n 0 i else up_hole lt (k(i := x)) n i"
proof -
  have pi: "parent i < i" using i by (simp add: parent_less)
  have h: "\<And>j. j < n \<Longrightarrow> 0 < j \<Longrightarrow> \<not> lt (k j) (k (parent j))" using heap by (simp add: heap_on_def)
  have child: "\<not> lt (k j) (k (parent i))" if "j < n" "0 < j" "parent j = i" for j
    using ntrans [OF K [OF that(1)] K [OF i(2)] K [of "parent i"]] h [OF that(1,2)] h [OF i(2,1)] that(3) pi i by simp
  have nij: "j \<noteq> i" if "0 < j" "parent j = i" for j using that parent_less [of j] by auto
  show ?thesis
  proof (cases "lt (k i) x")
    case True
    have "\<not> lt x (k i)" by (rule asym [OF K [OF i(2)] x True])
    then have "\<not> lt x (k (parent i))" using ntrans [OF x K [OF i(2)] K [of "parent i"]] h [OF i(2,1)] pi i by simp
    then show ?thesis using True h child pi nij by (auto simp: down_hole_def)
  next
    case False
    have "\<not> lt (k j) x" if "j < n" "0 < j" "parent j = i" for j
      using ntrans [OF K [OF that(1)] K [OF i(2)] x _ False] h [OF that(1,2)] that(3) by simp
    then show ?thesis using False h child pi nij by (auto simp: up_hole_def)
  qed
qed

lemma hole_cong:
  assumes "\<And>j. j < n \<Longrightarrow> k j = k' j" and "i < n"
  shows "down_hole lt k n m i = down_hole lt k' n m i" "up_hole lt k n i = up_hole lt k' n i"
proof -
  have p: "j < n \<Longrightarrow> 0 < j \<Longrightarrow> k (parent j) = k' (parent j)" for j using assms(1) parent_less [of j] by simp
  have q: "0 < i \<Longrightarrow> k (parent i) = k' (parent i)" using p assms(2) by simp
  show "down_hole lt k n m i = down_hole lt k' n m i" "up_hole lt k n i = up_hole lt k' n i"
    using assms(1) p q by (simp_all add: down_hole_def up_hole_def)
qed

lemma remove_mid:
  assumes ok: "pq_ok lt pq" and S: "pq_in S pq" and i: "0 < i" "i < pq_size pq - 1"
  shows "let pq1 = move_last pq i; pq2 = (if lt (key pq i) (key pq1 i) then bubble_down lt pq1 i else bubble_up lt pq1 i) in
    pq_ok lt pq2 \<and> permuted pq1 pq2"
proof -
  define n pq1 where "n = pq_size pq - 1" and "pq1 = move_last pq i"
  define x where "x = key pq n"
  have ix: "index_ok pq1" and cap: "pq_size pq1 \<le> pq_capacity pq1" and S1: "pq_in S pq1"
    using ok S i by (auto simp: pq1_def pq_ok_def move_last_index move_last_in)
  have n1: "pq_size pq1 = n" by (simp add: pq1_def n_def)
  have k: "\<And>j. j < n \<Longrightarrow> key pq1 j = ((key pq)(i := x)) j"
    using i by (simp add: pq1_def n_def x_def key_move_last)
  have heap: "heap_on lt (key pq) n 0" using ok by (simp add: pq_ok_def heap_on_def n_def)
  have "if lt (key pq i) x then down_hole lt ((key pq)(i := x)) n 0 i else up_hole lt ((key pq)(i := x)) n i"
    using i pq_in_key [OF S] by (intro replace_hole [OF heap]) (simp_all add: n_def x_def)
  then have holes: "if lt (key pq i) (key pq1 i) then down_hole lt (key pq1) n 0 i else up_hole lt (key pq1) n i"
    using hole_cong [where n = n and k = "key pq1" and k' = "(key pq)(i := x)" and i = i, OF k] k [of i] i by (simp add: n_def split: if_split_asm)
  show ?thesis
  proof (cases "lt (key pq i) (key pq1 i)")
    case True
    then have "down_hole lt (key pq1) (pq_size pq1) 0 i" using holes n1 by simp
    then have "pq_ok lt (bubble_down lt pq1 i)" using i n1 by (intro bubble_down_ok [OF _ _ S1 ix cap]) (simp_all add: n_def)
    then show ?thesis using True i n1 by (simp add: pq1_def [symmetric] bubble_down_permuted n_def)
  next
    case False
    then have "up_hole lt (key pq1) (pq_size pq1) i" using holes n1 by simp
    then have "pq_ok lt (bubble_up lt pq1 i)" using i n1 by (intro bubble_up_ok [OF _ _ S1 ix cap]) (simp_all add: n_def)
    then show ?thesis using False i n1 by (simp add: pq1_def [symmetric] bubble_up_permuted n_def)
  qed
qed

lemma remove_end:
  assumes ok: "pq_ok lt pq" and ne: "pq_q pq \<noteq> []"
  shows "pq_ok lt (pq\<lparr>pq_q := butlast (pq_q pq)\<rparr>)"
proof -
  let ?pq = "pq\<lparr>pq_q := butlast (pq_q pq)\<rparr>"
  have "heap_on lt (key ?pq) (pq_size ?pq) 0"
    unfolding heap_on_def
  proof (intro allI impI)
    fix j assume j: "j < pq_size ?pq" "0 < j"
    then have "parent j < pq_size ?pq" using parent_less [of j] by simp
    then show "\<not> lt (key ?pq j) (key ?pq (parent j))"
      using ok j by (simp add: pq_ok_def heap_on_def key_def nth_butlast pq_size_def)
  qed
  then show ?thesis using ok by (auto simp: pq_ok_def index_ok_def nth_butlast pq_size_def)
qed

lemma remove_entry_ok:
  assumes ok: "pq_ok lt pq" and S: "pq_in S pq" and mem: "item \<in> set (pq_q pq)"
  shows "pq_ok lt (remove_entry lt pq item) \<and> mset (pq_q (remove_entry lt pq item)) = mset (pq_q pq) - {#item#} \<and>
    pq_val (remove_entry lt pq item) = pq_val pq \<and> index_frame (set (pq_q pq)) pq (remove_entry lt pq item) \<and> pq_capacity (remove_entry lt pq item) = pq_capacity pq"
proof -
  define i n where "i = pq_index pq item" and "n = pq_size pq"
  have i: "i < n" "pq_q pq ! i = item" using ok index_ok_member [OF _ mem] by (auto simp: pq_ok_def i_def n_def)
  then have ne: "pq_q pq \<noteq> []" by (auto simp: n_def pq_size_def)
  have ms: "mset (butlast ((pq_q pq)[i := last (pq_q pq)])) = mset (pq_q pq) - {#item#}"
    using mset_butlast_update [of i "pq_q pq"] i by (simp add: n_def pq_size_def)
  consider (top) "i = 0" | (last) "0 < i" "i = n - 1" | (mid) "0 < i" "i < n - 1" using i by linarith
  then show ?thesis
  proof cases
    case top
    then have "remove_entry lt pq item = nghttp2_pq_pop lt pq" by (simp add: remove_entry_def i_def)
    then show ?thesis using pop_ok [OF ok S] i top by (simp add: n_def)
  next
    case last
    then have rem: "remove_entry lt pq item = pq\<lparr>pq_q := butlast (pq_q pq)\<rparr>"
      by (simp add: remove_entry_def i_def n_def)
    have "(pq_q pq)[i := last (pq_q pq)] = pq_q pq"
      using last ne by (simp add: n_def pq_size_def last_conv_nth)
    then show ?thesis using rem remove_end [OF ok ne] ms by (simp add: index_frame_def)
  next
    case mid
    have "remove_entry lt pq item =
        (if lt (key pq i) (key (move_last pq i) i) then bubble_down lt (move_last pq i) i else bubble_up lt (move_last pq i) i)"
      using mid i by (simp add: remove_entry_def Let_def i_def [symmetric] n_def key_def)
    then have rem: "pq_ok lt (remove_entry lt pq item)" "permuted (move_last pq i) (remove_entry lt pq item)"
      using remove_mid [OF ok S mid(1)] mid by (simp_all add: n_def Let_def)
    have ms: "mset (pq_q (move_last pq i)) = mset (pq_q pq) - {#item#}" using move_last_mset [of i pq] i by (simp add: n_def)
    have "index_frame (set (pq_q pq)) pq (remove_entry lt pq item)"
      using i by (intro permuted_frame [OF ms rem(2) move_last_frame]) (simp add: n_def)
    then show ?thesis using rem ms by (simp add: permuted_def)
  qed
qed

lemma remove_ok:
  assumes ok: "pq_ok lt pq" and S: "pq_in S pq" and mem: "item \<in> set (pq_q pq)"
  obtains pq' where "nghttp2_pq_remove lt pq item = Some pq'" "pq_ok lt pq'" "mset (pq_q pq') = mset (pq_q pq) - {#item#}"
    "pq_val pq' = pq_val pq" "index_frame (set (pq_q pq)) pq pq'" "pq_capacity pq' = pq_capacity pq"
proof -
  have "pq_index pq item < pq_size pq \<and> pq_q pq ! pq_index pq item = item"
    using ok index_ok_member [OF _ mem] by (simp add: pq_ok_def)
  then show thesis using remove_entry_ok [OF assms] that by (simp add: nghttp2_pq_remove_def)
qed

text \<open>Update: the callback may change every entry; when it says so the heap is rebuilt.\<close>

definition same_order :: "'k \<Rightarrow> 'k \<Rightarrow> bool" where
  "same_order x y = (\<forall>z \<in> S. lt z x = lt z y \<and> lt x z = lt y z)"

definition callback_ok :: "('e \<Rightarrow> 'k \<Rightarrow> 's \<Rightarrow> int \<times> 'k \<times> 's) \<Rightarrow> bool" where
  "callback_ok f = (\<forall>e k s r k' s'. k \<in> S \<longrightarrow> f e k s = (r, k', s') \<longrightarrow> k' \<in> S \<and> (r = 0 \<longrightarrow> same_order k k'))"

lemma update_all_val:
  "callback_ok f \<Longrightarrow> update_all f es v s rv = (rv', v', s') \<Longrightarrow> distinct es \<Longrightarrow> (\<forall>e \<in> set es. v e \<in> S) \<Longrightarrow>
    (\<forall>e \<in> set es. v' e \<in> S) \<and> (\<forall>e. e \<notin> set es \<longrightarrow> v' e = v e) \<and>
    (rv' = 0 \<longrightarrow> rv = 0 \<and> (\<forall>e \<in> set es. same_order (v e) (v' e)))"
proof (induction f es v s rv rule: update_all.induct)
  case (2 f e es v s rv)
  obtain r k t where r: "f e (v e) s = (r, k, t)" by (metis prod_cases3)
  have "v e \<in> S" using 2(5) by simp
  then have k: "k \<in> S" "r = 0 \<Longrightarrow> same_order (v e) k" using 2(2) r unfolding callback_ok_def by blast+
  have run: "update_all f es (v(e := k)) t (or rv r) = (rv', v', s')" using 2(3) r by simp
  have ih: "(\<forall>e \<in> set es. v' e \<in> S) \<and> (\<forall>d. d \<notin> set es \<longrightarrow> v' d = (v(e := k)) d) \<and>
    (rv' = 0 \<longrightarrow> or rv r = 0 \<and> (\<forall>d \<in> set es. same_order ((v(e := k)) d) (v' d)))"
    using 2(1) [OF r [symmetric] refl 2(2) run] 2(4,5) by auto
  have e: "v' e = k" using ih 2(4) by auto
  have "\<forall>d \<in> set es. (v(e := k)) d = v d" using 2(4) by auto
  then have "rv' = 0 \<longrightarrow> or rv r = 0 \<and> (\<forall>d \<in> set es. same_order (v d) (v' d))" using ih by simp
  then show ?case using ih e k 2(4) by (simp add: or_eq_0_iff)
qed auto

lemma update_ok:
  assumes ok: "pq_ok lt pq" and S: "pq_in S pq" and f: "callback_ok f"
  shows "pq_ok lt (fst (nghttp2_pq_update lt f pq s)) \<and> mset (pq_q (fst (nghttp2_pq_update lt f pq s))) = mset (pq_q pq)"
proof (cases "pq_size pq = 0")
  case False
  obtain rv v s' where u: "update_all f (pq_q pq) (pq_val pq) s 0 = (rv, v, s')" by (metis prod_cases3)
  define pq1 where "pq1 = pq\<lparr>pq_val := v\<rparr>"
  have v: "\<forall>e \<in> set (pq_q pq). v e \<in> S" "rv = 0 \<Longrightarrow> \<forall>e \<in> set (pq_q pq). same_order (pq_val pq e) (v e)"
    using update_all_val [OF f u index_ok_distinct] ok S by (auto simp: pq_ok_def pq_in_def)
  have S1: "pq_in S pq1" using v by (simp add: pq_in_def pq1_def)
  have ix: "index_ok pq1" "pq_size pq1 \<le> pq_capacity pq1" using ok by (simp_all add: pq_ok_def pq1_def index_ok_def)
  have run: "fst (nghttp2_pq_update lt f pq s) = (if rv \<noteq> 0 then rebuild lt pq1 (pq_size pq1) else pq1)"
    using False u by (simp add: nghttp2_pq_update_def pq1_def Let_def)
  show ?thesis
  proof (cases "rv = 0")
    case True
    have k: "same_order (key pq j) (key pq1 j)" "key pq j \<in> S" "key pq1 j \<in> S" if "j < pq_size pq" for j
      using that v(2) [OF True] pq_in_key [OF S that] pq_in_key [OF S1] by (auto simp: key_def pq1_def pq_size_def)
    have "heap_on lt (key pq1) (pq_size pq1) 0"
      unfolding heap_on_def
    proof (intro allI impI)
      fix j assume j: "j < pq_size pq1" "0 < j"
      then have jp: "j < pq_size pq" "parent j < pq_size pq" using parent_less [of j] by (auto simp: pq1_def)
      have "\<not> lt (key pq j) (key pq (parent j))" using ok jp j by (simp add: pq_ok_def heap_on_def)
      then have "\<not> lt (key pq1 j) (key pq (parent j))" using k(1) [OF jp(1)] k(2) [OF jp(2)] by (simp add: same_order_def)
      then show "\<not> lt (key pq1 j) (key pq1 (parent j))" using k(1) [OF jp(2)] k(3) [OF jp(1)] by (simp add: same_order_def)
    qed
    then show ?thesis using True run ix by (simp add: pq_ok_def pq1_def)
  next
    case rv: False
    have "heap_on lt (key pq1) (pq_size pq1) (pq_size pq1)"
      using parent_less by (auto simp: heap_on_def dest: less_le_trans) (meson less_trans not_le)
    then have "heap_on lt (key (rebuild lt pq1 (pq_size pq1))) (pq_size pq1) 0" by (intro rebuild_heap [OF _ _ S1]) auto
    moreover have per: "permuted pq1 (rebuild lt pq1 (pq_size pq1))" by (intro rebuild_permuted) simp
    ultimately show ?thesis
      using rv run ix permuted_size [OF per] by (simp add: pq_ok_def permuted_def) (simp add: pq1_def)
  qed
qed (use ok in \<open>simp add: nghttp2_pq_update_def\<close>)

text \<open>The top comes before or ties with every entry.\<close>

lemma top_ok:
  assumes ok: "pq_ok lt pq" and S: "pq_in S pq"
  shows "(nghttp2_pq_top pq = None \<and> pq_q pq = []) \<or>
    (\<exists>t. nghttp2_pq_top pq = Some t \<and> t \<in> set (pq_q pq) \<and> (\<forall>e \<in> set (pq_q pq). \<not> lt (pq_val pq e) (pq_val pq t)))"
proof (cases "pq_q pq = []")
  case False
  have "\<not> lt (pq_val pq e) (pq_val pq (pq_q pq ! 0))" if e: "e \<in> set (pq_q pq)" for e
  proof -
    obtain j where "j < pq_size pq" "pq_q pq ! j = e" using e by (auto simp: in_set_conv_nth pq_size_def)
    then show ?thesis using top_least [of "key pq" "pq_size pq" j] ok pq_in_key [OF S] by (auto simp: pq_ok_def key_def)
  qed
  then show ?thesis using False by (auto simp: nghttp2_pq_top_def pq_size_def)
qed (simp add: nghttp2_pq_top_def pq_size_def)

end

end
