(* ===== verification/Sched.thy ===== *)
theory Sched
  imports Pq "HOL-Library.Word"
begin

unbundle bit_operations_syntax

text \<open>
  The scheduling of outgoing DATA frames in \<^verbatim>\<open>nghttp2/lib/nghttp2_session.c\<close>: one priority queue of
  streams for each of the eight urgency levels of RFC 9218, ordered by a virtual time \<^verbatim>\<open>cycle\<close> that
  wraps at 64 bits. All streams live in one memory \<open>s_streams\<close>, and so do their positions in the
  queues. A failing \<^verbatim>\<open>assert\<close> is \<open>None\<close>; the result of an allocation is an argument.
\<close>

section \<open>Extensible priorities\<close>

definition NGHTTP2_EXTPRI_INC_MASK :: "8 word" where "NGHTTP2_EXTPRI_INC_MASK = 0x80"
definition NGHTTP2_EXTPRI_DEFAULT_URGENCY :: "8 word" where "NGHTTP2_EXTPRI_DEFAULT_URGENCY = 3"
definition NGHTTP2_EXTPRI_URGENCY_LEVELS :: nat where "NGHTTP2_EXTPRI_URGENCY_LEVELS = 8"

record extpri_t =
  ep_urgency :: "32 word"
  ep_inc :: bool

definition nghttp2_extpri_to_uint8 :: "extpri_t \<Rightarrow> 8 word" where
  "nghttp2_extpri_to_uint8 p = ucast (push_bit 7 (of_bool (ep_inc p) :: 32 word) OR ep_urgency p)"

definition nghttp2_extpri_uint8_urgency :: "8 word \<Rightarrow> 32 word" where
  "nghttp2_extpri_uint8_urgency u = ucast (u AND NOT NGHTTP2_EXTPRI_INC_MASK)"

definition nghttp2_extpri_uint8_inc :: "8 word \<Rightarrow> bool" where
  "nghttp2_extpri_uint8_inc u = (u AND NGHTTP2_EXTPRI_INC_MASK \<noteq> 0)"

definition nghttp2_extpri_from_uint8 :: "8 word \<Rightarrow> extpri_t" where
  "nghttp2_extpri_from_uint8 u = \<lparr>ep_urgency = nghttp2_extpri_uint8_urgency u, ep_inc = nghttp2_extpri_uint8_inc u\<rparr>"

section \<open>Streams and the session\<close>

definition NGHTTP2_STREAM_FLAG_DEFERRED_ALL :: "8 word" where "NGHTTP2_STREAM_FLAG_DEFERRED_ALL = 0x0c"

record stream_t =
  st_cycle :: "64 word"
  st_seq :: "64 word"
  st_item :: "nat option"
  st_last_writelen :: "32 word"
  st_flags :: "8 word"
  st_queued :: bool
  st_extpri :: "8 word"

definition nghttp2_stream_init :: "8 word \<Rightarrow> stream_t" where
  "nghttp2_stream_init flags =
     \<lparr>st_cycle = 0, st_seq = 0, st_item = None, st_last_writelen = 0, st_flags = flags, st_queued = False,
      st_extpri = NGHTTP2_EXTPRI_DEFAULT_URGENCY\<rparr>"

definition NGHTTP2_STREAM_MAX_CYCLE_GAP :: "64 word" where "NGHTTP2_STREAM_MAX_CYCLE_GAP = 0xffffff"

definition stream_less :: "stream_t \<Rightarrow> stream_t \<Rightarrow> bool" where
  "stream_less lhs rhs =
     (if st_cycle lhs = st_cycle rhs then st_seq lhs < st_seq rhs
      else st_cycle rhs - st_cycle lhs \<le> NGHTTP2_STREAM_MAX_CYCLE_GAP)"

record session =
  s_levels :: "(nat list \<times> nat) list"
  s_index :: "nat \<Rightarrow> nat"
  s_streams :: "nat \<Rightarrow> stream_t"
  s_stream_seq :: "64 word"
  s_server :: bool

text \<open>The queue of one level with the memory it works on, and its write-back.\<close>

definition level :: "session \<Rightarrow> nat \<Rightarrow> (nat, stream_t) pq" where
  "level s u = \<lparr>pq_q = fst (s_levels s ! u), pq_capacity = snd (s_levels s ! u), pq_index = s_index s, pq_val = s_streams s\<rparr>"

definition put_level :: "session \<Rightarrow> nat \<Rightarrow> (nat, stream_t) pq \<Rightarrow> session" where
  "put_level s u pq =
     s\<lparr>s_levels := (s_levels s)[u := (pq_q pq, pq_capacity pq)], s_index := pq_index pq, s_streams := pq_val pq\<rparr>"

definition set_stream :: "session \<Rightarrow> nat \<Rightarrow> (stream_t \<Rightarrow> stream_t) \<Rightarrow> session" where
  "set_stream s sid f = s\<lparr>s_streams := (s_streams s)(sid := f (s_streams s sid))\<rparr>"

definition session_new :: "bool \<Rightarrow> (nat \<Rightarrow> nat) \<Rightarrow> (nat \<Rightarrow> stream_t) \<Rightarrow> session" where
  "session_new server ix ss =
     \<lparr>s_levels = replicate NGHTTP2_EXTPRI_URGENCY_LEVELS (pq_q (nghttp2_pq_init ix ss), pq_capacity (nghttp2_pq_init ix ss)),
      s_index = ix, s_streams = ss, s_stream_seq = 0, s_server = server\<rparr>"

text \<open>A new stream gets the next sequence number.\<close>

definition session_open_stream :: "session \<Rightarrow> nat \<Rightarrow> 8 word \<Rightarrow> session" where
  "session_open_stream s sid flags =
     (set_stream s sid (\<lambda>_. (nghttp2_stream_init flags)\<lparr>st_seq := s_stream_seq s\<rparr>))\<lparr>s_stream_seq := s_stream_seq s + 1\<rparr>"

definition stream_urgency :: "stream_t \<Rightarrow> nat" where
  "stream_urgency st = unat (nghttp2_extpri_uint8_urgency (st_extpri st))"

definition pq_get_first_cycle :: "(nat, stream_t) pq \<Rightarrow> 64 word" where
  "pq_get_first_cycle pq =
     (if pq_empty pq then 0 else case nghttp2_pq_top pq of None \<Rightarrow> 0 | Some e \<Rightarrow> st_cycle (pq_val pq e))"

section \<open>Queueing a stream\<close>

definition session_ob_data_push :: "bool \<Rightarrow> session \<Rightarrow> nat \<Rightarrow> (int \<times> session) option" where
  "session_ob_data_push mem_ok s sid =
     (let st = s_streams s sid; urgency = stream_urgency st; inc = nghttp2_extpri_uint8_inc (st_extpri st) in
      if st_queued st then None
      else if \<not> urgency < NGHTTP2_EXTPRI_URGENCY_LEVELS then None
      else
        (let first = pq_get_first_cycle (level s urgency);
             cycle = (if inc then first + ucast (st_last_writelen st) else first);
             s1 = set_stream s sid (\<lambda>st. st\<lparr>st_cycle := cycle\<rparr>) in
         case nghttp2_pq_push stream_less mem_ok (level s1 urgency) sid of
           (rv, pq) \<Rightarrow>
             if rv \<noteq> 0 then Some (rv, put_level s1 urgency pq)
             else Some (0, set_stream (put_level s1 urgency pq) sid (\<lambda>st. st\<lparr>st_queued := True\<rparr>))))"

definition session_ob_data_remove :: "session \<Rightarrow> nat \<Rightarrow> session option" where
  "session_ob_data_remove s sid =
     (let st = s_streams s sid; urgency = stream_urgency st in
      if \<not> st_queued st then None
      else if \<not> urgency < NGHTTP2_EXTPRI_URGENCY_LEVELS then None
      else
        (case nghttp2_pq_remove stream_less (level s urgency) sid of
           None \<Rightarrow> None
         | Some pq \<Rightarrow> Some (set_stream (put_level s urgency pq) sid (\<lambda>st. st\<lparr>st_queued := False\<rparr>))))"

definition nghttp2_stream_attach_item :: "session \<Rightarrow> nat \<Rightarrow> nat \<Rightarrow> session option" where
  "nghttp2_stream_attach_item s sid item =
     (if st_flags (s_streams s sid) AND NGHTTP2_STREAM_FLAG_DEFERRED_ALL \<noteq> 0 \<or> st_item (s_streams s sid) \<noteq> None then None
      else Some (set_stream s sid (\<lambda>st. st\<lparr>st_item := Some item\<rparr>)))"

definition nghttp2_stream_detach_item :: "session \<Rightarrow> nat \<Rightarrow> session" where
  "nghttp2_stream_detach_item s sid =
     set_stream s sid (\<lambda>st. st\<lparr>st_item := None, st_flags := st_flags st AND NOT NGHTTP2_STREAM_FLAG_DEFERRED_ALL\<rparr>)"

definition nghttp2_stream_defer_item :: "session \<Rightarrow> nat \<Rightarrow> 8 word \<Rightarrow> session option" where
  "nghttp2_stream_defer_item s sid flags =
     (if st_item (s_streams s sid) = None then None else Some (set_stream s sid (\<lambda>st. st\<lparr>st_flags := st_flags st OR flags\<rparr>)))"

definition nghttp2_stream_resume_deferred_item :: "session \<Rightarrow> nat \<Rightarrow> 8 word \<Rightarrow> session option" where
  "nghttp2_stream_resume_deferred_item s sid flags =
     (if st_item (s_streams s sid) = None then None else Some (set_stream s sid (\<lambda>st. st\<lparr>st_flags := st_flags st AND NOT flags\<rparr>)))"

definition session_attach_stream_item :: "bool \<Rightarrow> session \<Rightarrow> nat \<Rightarrow> nat \<Rightarrow> (int \<times> session) option" where
  "session_attach_stream_item mem_ok s sid item =
     (case nghttp2_stream_attach_item s sid item of
        None \<Rightarrow> None
      | Some s1 \<Rightarrow>
          (case session_ob_data_push mem_ok s1 sid of
             None \<Rightarrow> None
           | Some (rv, s2) \<Rightarrow> if rv \<noteq> 0 then Some (rv, nghttp2_stream_detach_item s2 sid) else Some (0, s2)))"

definition session_detach_stream_item :: "session \<Rightarrow> nat \<Rightarrow> session option" where
  "session_detach_stream_item s sid =
     (let s1 = nghttp2_stream_detach_item s sid in
      if \<not> st_queued (s_streams s1 sid) then Some s1 else session_ob_data_remove s1 sid)"

definition session_defer_stream_item :: "session \<Rightarrow> nat \<Rightarrow> 8 word \<Rightarrow> session option" where
  "session_defer_stream_item s sid flags =
     (case nghttp2_stream_defer_item s sid flags of
        None \<Rightarrow> None
      | Some s1 \<Rightarrow> if \<not> st_queued (s_streams s1 sid) then Some s1 else session_ob_data_remove s1 sid)"

definition session_resume_deferred_stream_item :: "bool \<Rightarrow> session \<Rightarrow> nat \<Rightarrow> 8 word \<Rightarrow> (int \<times> session) option" where
  "session_resume_deferred_stream_item mem_ok s sid flags =
     (case nghttp2_stream_resume_deferred_item s sid flags of
        None \<Rightarrow> None
      | Some s1 \<Rightarrow>
          if st_flags (s_streams s1 sid) AND NGHTTP2_STREAM_FLAG_DEFERRED_ALL \<noteq> 0 then Some (0, s1)
          else session_ob_data_push mem_ok s1 sid)"

section \<open>Choosing and rescheduling\<close>

text \<open>The levels from \<open>u\<close> on; the item of the first top found.\<close>

fun next_item_from :: "session \<Rightarrow> nat list \<Rightarrow> nat option" where
  "next_item_from s [] = None"
| "next_item_from s (u # us) =
     (case nghttp2_pq_top (level s u) of None \<Rightarrow> next_item_from s us | Some e \<Rightarrow> st_item (s_streams s e))"

definition session_sched_get_next_outbound_item :: "session \<Rightarrow> nat option" where
  "session_sched_get_next_outbound_item s = next_item_from s [0..<NGHTTP2_EXTPRI_URGENCY_LEVELS]"

definition session_sched_empty :: "session \<Rightarrow> bool" where
  "session_sched_empty s = list_all (\<lambda>u. pq_empty (level s u)) [0..<NGHTTP2_EXTPRI_URGENCY_LEVELS]"

definition session_sched_reschedule_stream :: "bool \<Rightarrow> session \<Rightarrow> nat \<Rightarrow> session option" where
  "session_sched_reschedule_stream mem_ok s sid =
     (let st = s_streams s sid; urgency = stream_urgency st; inc = nghttp2_extpri_uint8_inc (st_extpri st);
          penalty = (ucast (st_last_writelen st) :: 64 word) in
      if \<not> urgency < NGHTTP2_EXTPRI_URGENCY_LEVELS then None
      else if \<not> inc \<or> pq_size (level s urgency) = 1 then Some s
      else
        (case nghttp2_pq_remove stream_less (level s urgency) sid of
           None \<Rightarrow> None
         | Some pq \<Rightarrow>
             (let s1 = set_stream (put_level s urgency pq) sid (\<lambda>st. st\<lparr>st_cycle := st_cycle st + penalty\<rparr>) in
              case nghttp2_pq_push stream_less mem_ok (level s1 urgency) sid of
                (rv, pq') \<Rightarrow> if rv = 0 then Some (put_level s1 urgency pq') else None)))"

text \<open>\<open>hd_length\<close> is \<^verbatim>\<open>stream->item->frame.hd.length\<close>; there must be an item to read it from.\<close>

definition session_reschedule_stream :: "bool \<Rightarrow> session \<Rightarrow> nat \<Rightarrow> 32 word \<Rightarrow> session option" where
  "session_reschedule_stream mem_ok s sid hd_length =
     (if st_item (s_streams s sid) = None then None
      else let s1 = set_stream s sid (\<lambda>st. st\<lparr>st_last_writelen := hd_length\<rparr>) in
      if \<not> s_server s1 then Some s1 else session_sched_reschedule_stream mem_ok s1 sid)"

definition session_update_stream_priority :: "bool \<Rightarrow> session \<Rightarrow> nat \<Rightarrow> 8 word \<Rightarrow> (int \<times> session) option" where
  "session_update_stream_priority mem_ok s sid u8extpri =
     (let st = s_streams s sid in
      if st_extpri st = u8extpri then Some (0, s)
      else if st_queued st then
        (case session_ob_data_remove s sid of
           None \<Rightarrow> None
         | Some s1 \<Rightarrow> session_ob_data_push mem_ok (set_stream s1 sid (\<lambda>st. st\<lparr>st_extpri := u8extpri\<rparr>)) sid)
      else Some (0, set_stream s sid (\<lambda>st. st\<lparr>st_extpri := u8extpri\<rparr>)))"

text \<open>Closing a stream: its item is detached, and its memory is freed once it is in no queue.\<close>

definition nghttp2_session_destroy_stream :: "session \<Rightarrow> nat \<Rightarrow> session option" where
  "nghttp2_session_destroy_stream s sid =
     (if st_queued (s_streams s sid) then session_ob_data_remove s sid else Some s)"

definition nghttp2_session_close_stream :: "session \<Rightarrow> nat \<Rightarrow> session option" where
  "nghttp2_session_close_stream s sid =
     (case (if st_item (s_streams s sid) \<noteq> None then session_detach_stream_item s sid else Some s) of
        None \<Rightarrow> None
      | Some s1 \<Rightarrow> nghttp2_session_destroy_stream s1 sid)"

section \<open>The order of streams inside a window\<close>

text \<open>Virtual times at most the maximal gap after \<open>c\<close>. On such a window the wrapping comparison is the
  order of the distances from \<open>c\<close>, with the sequence numbers to break ties.\<close>

definition window :: "64 word \<Rightarrow> stream_t set" where
  "window c = {st. st_cycle st - c \<le> NGHTTP2_STREAM_MAX_CYCLE_GAP}"

lemma gap_unat: "unat NGHTTP2_STREAM_MAX_CYCLE_GAP = 16777215"
  by (simp add: NGHTTP2_STREAM_MAX_CYCLE_GAP_def)

lemma sub_le_gap:
  fixes a b :: "64 word"
  assumes "a \<le> NGHTTP2_STREAM_MAX_CYCLE_GAP" and "b \<le> NGHTTP2_STREAM_MAX_CYCLE_GAP" and "a \<noteq> b"
  shows "b - a \<le> NGHTTP2_STREAM_MAX_CYCLE_GAP \<longleftrightarrow> a < b"
proof (cases "a < b")
  case True
  then have "unat (b - a) = unat b - unat a" by (intro unat_sub) simp
  then show ?thesis using True assms(2) by (simp add: word_le_nat_alt gap_unat)
next
  case False
  then have "b < a" using assms(3) by simp
  then have lt: "unat b < unat a" by (simp add: word_less_nat_alt)
  have "unat (b - a) = unat b + 2 ^ 64 - unat a"
    using lt by (simp add: unat_sub_if_size word_size)
  then show ?thesis using False assms(1,2) lt by (simp add: word_le_nat_alt gap_unat)
qed

lemma stream_less_window:
  assumes "x \<in> window c" and "y \<in> window c"
  shows "stream_less x y \<longleftrightarrow> st_cycle x - c < st_cycle y - c \<or> (st_cycle x = st_cycle y \<and> st_seq x < st_seq y)"
proof (cases "st_cycle x = st_cycle y")
  case False
  have "st_cycle y - st_cycle x = (st_cycle y - c) - (st_cycle x - c)" by simp
  then show ?thesis
    using False sub_le_gap [of "st_cycle x - c" "st_cycle y - c"] assms by (simp add: stream_less_def window_def)
qed (simp add: stream_less_def)

interpretation win: weak_order stream_less "window c" for c
proof
  fix x y assume "x \<in> window c" "y \<in> window c" "stream_less x y"
  then show "\<not> stream_less y x" by (auto simp: stream_less_window)
next
  fix x y z assume xyz: "x \<in> window c" "y \<in> window c" "z \<in> window c" and "\<not> stream_less x y" "\<not> stream_less y z"
  then show "\<not> stream_less x z"
    unfolding stream_less_window [OF xyz(1,2)] stream_less_window [OF xyz(2,3)] stream_less_window [OF xyz(1,3)] by auto
qed

section \<open>The invariant of the scheduler\<close>

definition same_key :: "stream_t \<Rightarrow> stream_t \<Rightarrow> bool" where
  "same_key x y = (st_cycle x = st_cycle y \<and> st_seq x = st_seq y)"

lemma same_key_less: "same_key x x' \<Longrightarrow> same_key y y' \<Longrightarrow> stream_less x' y' = stream_less x y"
  by (simp add: same_key_def stream_less_def)

definition queue_ok :: "(nat, stream_t) pq \<Rightarrow> bool" where
  "queue_ok pq = (pq_ok stream_less pq \<and> pq_in (window (pq_get_first_cycle pq)) pq)"

text \<open>Every level is a heap whose streams lie in the window of its first; the flag \<^verbatim>\<open>queued\<close> of a stream
  says exactly whether it is in the queue of its urgency.\<close>

definition sched_ok :: "session \<Rightarrow> bool" where
  "sched_ok s =
     (length (s_levels s) = NGHTTP2_EXTPRI_URGENCY_LEVELS \<and>
      (\<forall>u < NGHTTP2_EXTPRI_URGENCY_LEVELS. queue_ok (level s u) \<and>
         set (pq_q (level s u)) = {e. st_queued (s_streams s e) \<and> stream_urgency (s_streams s e) = u}) \<and>
      (\<forall>e. st_queued (s_streams s e) \<longrightarrow> stream_urgency (s_streams s e) < NGHTTP2_EXTPRI_URGENCY_LEVELS) \<and>
      (\<forall>e. st_last_writelen (s_streams s e) \<le> 0xffffff))"

text \<open>A window can be anchored at the first of the streams in it.\<close>

lemma first_cycle: "pq_get_first_cycle pq = (if pq_q pq = [] then 0 else st_cycle (pq_val pq (pq_q pq ! 0)))"
  by (simp add: pq_get_first_cycle_def pq_empty_def nghttp2_pq_top_def pq_size_def)

lemma queue_okI:
  assumes ok: "pq_ok stream_less pq" and S: "pq_in (window c) pq"
  shows "queue_ok pq"
proof (cases "pq_q pq = []")
  case True
  then show ?thesis using ok by (simp add: queue_ok_def pq_in_def)
next
  case False
  define t where "t = pq_val pq (pq_q pq ! 0)"
  have t: "t \<in> window c" using S False by (simp add: pq_in_def t_def)
  have "pq_val pq e \<in> window (st_cycle t)" if e: "e \<in> set (pq_q pq)" for e
  proof -
    have "\<not> stream_less (pq_val pq e) t" using win.top_ok [OF ok S] e False by (auto simp: nghttp2_pq_top_def pq_size_def t_def)
    moreover have ew: "pq_val pq e \<in> window c" using S e by (simp add: pq_in_def)
    ultimately have "st_cycle t - c \<le> st_cycle (pq_val pq e) - c" unfolding stream_less_window [OF ew t] by (simp add: not_less)
    moreover have "st_cycle (pq_val pq e) - st_cycle t = (st_cycle (pq_val pq e) - c) - (st_cycle t - c)" by simp
    ultimately have "st_cycle (pq_val pq e) - st_cycle t \<le> st_cycle (pq_val pq e) - c"
      using word_sub_le [of "st_cycle t - c" "st_cycle (pq_val pq e) - c"] by simp
    then show ?thesis using ew by (simp add: window_def)
  qed
  then show ?thesis using ok False by (simp add: queue_ok_def pq_in_def first_cycle t_def)
qed

text \<open>A queue sees only positions and keys of its own entries.\<close>

lemma queue_ok_cong:
  assumes ok: "queue_ok pq" and q: "pq_q pq' = pq_q pq" "pq_capacity pq' = pq_capacity pq"
    and mem: "\<And>e. e \<in> set (pq_q pq) \<Longrightarrow> pq_index pq' e = pq_index pq e \<and> same_key (pq_val pq e) (pq_val pq' e)"
  shows "queue_ok pq'"
proof -
  have k: "same_key (key pq j) (key pq' j)" if "j < pq_size pq" for j using that mem q by (simp add: key_def pq_size_def)
  have "heap_on stream_less (key pq') (pq_size pq') 0"
    unfolding heap_on_def
  proof (intro allI impI)
    fix j assume j: "j < pq_size pq'" "0 < j"
    then have jp: "j < pq_size pq" "parent j < pq_size pq" using parent_less [of j] q by (auto simp: pq_size_def)
    then show "\<not> stream_less (key pq' j) (key pq' (parent j))"
      using ok j same_key_less [OF k [OF jp(1)] k [OF jp(2)]] by (simp add: queue_ok_def pq_ok_def heap_on_def)
  qed
  moreover have "index_ok pq'" using ok mem q by (simp add: queue_ok_def pq_ok_def index_ok_def pq_size_def)
  moreover have "pq_in (window (pq_get_first_cycle pq)) pq'"
    using ok mem q by (auto simp: queue_ok_def pq_in_def window_def same_key_def)
  moreover have "pq_size pq' \<le> pq_capacity pq'" using ok q by (simp add: queue_ok_def pq_ok_def pq_size_def)
  ultimately show ?thesis by (intro queue_okI [of _ "pq_get_first_cycle pq"]) (simp_all add: pq_ok_def)
qed

lemma level_simps [simp]:
  "pq_q (level s u) = fst (s_levels s ! u)" "pq_capacity (level s u) = snd (s_levels s ! u)"
  "pq_index (level s u) = s_index s" "pq_val (level s u) = s_streams s"
  by (simp_all add: level_def)

lemma set_stream_simps [simp]:
  "s_levels (set_stream s sid f) = s_levels s" "s_index (set_stream s sid f) = s_index s" "s_server (set_stream s sid f) = s_server s"
  "s_streams (set_stream s sid f) = (s_streams s)(sid := f (s_streams s sid))"
  by (simp_all add: set_stream_def)

lemma put_level_simps [simp]:
  "s_levels (put_level s u pq) = (s_levels s)[u := (pq_q pq, pq_capacity pq)]" "s_index (put_level s u pq) = pq_index pq"
  "s_streams (put_level s u pq) = pq_val pq" "s_server (put_level s u pq) = s_server s"
  by (simp_all add: put_level_def)

text \<open>Writing one level back leaves the others in order, because no stream is in two queues.\<close>

lemma put_queues:
  assumes ok: "sched_ok s" and u: "u < NGHTTP2_EXTPRI_URGENCY_LEVELS"
    and pq: "pq_ok stream_less pq" "pq_in (window c) pq" and frame: "index_frame A (level s u) pq"
    and A: "\<And>v. v < NGHTTP2_EXTPRI_URGENCY_LEVELS \<Longrightarrow> v \<noteq> u \<Longrightarrow> A \<inter> set (fst (s_levels s ! v)) = {}"
    and s': "s_levels s' = (s_levels s)[u := (pq_q pq, pq_capacity pq)]" "s_index s' = pq_index pq"
    and keys: "\<And>e. e \<in> set (pq_q pq) \<Longrightarrow> same_key (pq_val pq e) (s_streams s' e)"
    and others: "\<And>e v. v < NGHTTP2_EXTPRI_URGENCY_LEVELS \<Longrightarrow> v \<noteq> u \<Longrightarrow> e \<in> set (fst (s_levels s ! v)) \<Longrightarrow> same_key (s_streams s e) (s_streams s' e)"
    and v: "v < NGHTTP2_EXTPRI_URGENCY_LEVELS"
  shows "queue_ok (level s' v)"
proof (cases "v = u")
  case True
  have l: "s_levels s' ! v = (pq_q pq, pq_capacity pq)" using True ok u s'(1) by (simp add: sched_ok_def)
  have "queue_ok pq" by (rule queue_okI [OF pq])
  then show ?thesis
  proof (rule queue_ok_cong)
    fix e assume "e \<in> set (pq_q pq)"
    then show "pq_index (level s' v) e = pq_index pq e \<and> same_key (pq_val pq e) (pq_val (level s' v) e)"
      using keys s'(2) by simp
  qed (simp_all add: l)
next
  case False
  have "queue_ok (level s v)" using ok v by (simp add: sched_ok_def)
  then show ?thesis
  proof (rule queue_ok_cong)
    fix e assume e: "e \<in> set (pq_q (level s v))"
    then have "e \<notin> A" using A [OF v False] by auto
    then show "pq_index (level s' v) e = pq_index (level s v) e \<and> same_key (pq_val (level s v) e) (pq_val (level s' v) e)"
      using frame s' others [OF v False] e by (simp add: index_frame_def)
  qed (use False s' in simp_all)
qed

lemma sched_okD:
  assumes "sched_ok s"
  shows "length (s_levels s) = NGHTTP2_EXTPRI_URGENCY_LEVELS"
    and "u < NGHTTP2_EXTPRI_URGENCY_LEVELS \<Longrightarrow> queue_ok (level s u)"
    and "u < NGHTTP2_EXTPRI_URGENCY_LEVELS \<Longrightarrow>
      e \<in> set (fst (s_levels s ! u)) \<longleftrightarrow> st_queued (s_streams s e) \<and> stream_urgency (s_streams s e) = u"
    and "st_queued (s_streams s e) \<Longrightarrow> stream_urgency (s_streams s e) < NGHTTP2_EXTPRI_URGENCY_LEVELS"
    and "st_last_writelen (s_streams s e) \<le> 0xffffff"
  using assms by (auto simp: sched_ok_def)

lemma sched_okI:
  assumes "length (s_levels s) = NGHTTP2_EXTPRI_URGENCY_LEVELS"
    and "\<And>u. u < NGHTTP2_EXTPRI_URGENCY_LEVELS \<Longrightarrow> queue_ok (level s u)"
    and "\<And>u e. u < NGHTTP2_EXTPRI_URGENCY_LEVELS \<Longrightarrow>
      e \<in> set (fst (s_levels s ! u)) \<longleftrightarrow> st_queued (s_streams s e) \<and> stream_urgency (s_streams s e) = u"
    and "\<And>e. st_queued (s_streams s e) \<Longrightarrow> stream_urgency (s_streams s e) < NGHTTP2_EXTPRI_URGENCY_LEVELS"
    and "\<And>e. st_last_writelen (s_streams s e) \<le> 0xffffff"
  shows "sched_ok s"
  unfolding sched_ok_def
proof (intro conjI allI impI)
  fix u assume u: "u < NGHTTP2_EXTPRI_URGENCY_LEVELS"
  show "set (pq_q (level s u)) = {e. st_queued (s_streams s e) \<and> stream_urgency (s_streams s e) = u}"
    using assms(3) [OF u] by auto
qed (rule assms, assumption?)+

text \<open>Changing a stream outside the queues, or what the queues do not look at.\<close>

lemma set_stream_ok:
  assumes ok: "sched_ok s" and len: "st_last_writelen (f (s_streams s sid)) \<le> 0xffffff"
    and f: "(\<not> st_queued (s_streams s sid) \<and> \<not> st_queued (f (s_streams s sid))) \<or>
      (same_key (s_streams s sid) (f (s_streams s sid)) \<and> st_queued (f (s_streams s sid)) = st_queued (s_streams s sid) \<and>
       st_extpri (f (s_streams s sid)) = st_extpri (s_streams s sid))"
  shows "sched_ok (set_stream s sid f)"
proof (rule sched_okI)
  note D = sched_okD [OF ok]
  show "length (s_levels (set_stream s sid f)) = NGHTTP2_EXTPRI_URGENCY_LEVELS" using D(1) by simp
  show "st_last_writelen (s_streams (set_stream s sid f) e) \<le> 0xffffff" for e using D(5) len by simp
  show "stream_urgency (s_streams (set_stream s sid f) e) < NGHTTP2_EXTPRI_URGENCY_LEVELS"
    if "st_queued (s_streams (set_stream s sid f) e)" for e
    using D(4) [of e] that f by (auto simp: stream_urgency_def split: if_splits)
  fix u assume u: "u < NGHTTP2_EXTPRI_URGENCY_LEVELS"
  show "e \<in> set (fst (s_levels (set_stream s sid f) ! u)) \<longleftrightarrow>
      st_queued (s_streams (set_stream s sid f) e) \<and> stream_urgency (s_streams (set_stream s sid f) e) = u" for e
    using D(3) [OF u, of e] f by (auto simp: stream_urgency_def)
  show "queue_ok (level (set_stream s sid f) u)"
    using D(2) [OF u]
  proof (rule queue_ok_cong)
    fix e assume "e \<in> set (pq_q (level s u))"
    then have "st_queued (s_streams s e)" using D(3) [OF u, of e] by simp
    then show "pq_index (level (set_stream s sid f) u) e = pq_index (level s u) e \<and>
        same_key (pq_val (level s u) e) (pq_val (level (set_stream s sid f) u) e)"
      using f by (auto simp: same_key_def)
  qed simp_all
qed

text \<open>Replacing one queue by one with a stream more or less.\<close>

lemma put_level_ok:
  assumes ok: "sched_ok s" and u: "u < NGHTTP2_EXTPRI_URGENCY_LEVELS"
    and pq: "pq_ok stream_less pq" "pq_in (window c) pq" and frame: "index_frame (insert sid (set (fst (s_levels s ! u)))) (level s u) pq"
    and s': "s_levels s' = (s_levels s)[u := (pq_q pq, pq_capacity pq)]" "s_index s' = pq_index pq"
    and streams: "s_streams s' = (s_streams s)(sid := st)"
    and sid: "stream_urgency (s_streams s sid) = u" "stream_urgency st = u" "st_last_writelen st \<le> 0xffffff"
    and mem: "set (pq_q pq) = (if st_queued st then insert sid (set (fst (s_levels s ! u))) else set (fst (s_levels s ! u)) - {sid})"
    and key: "st_queued st \<Longrightarrow> same_key (pq_val pq sid) st" "\<And>e. e \<noteq> sid \<Longrightarrow> pq_val pq e = s_streams s e"
  shows "sched_ok s'"
proof (rule sched_okI)
  note D = sched_okD [OF ok]
  have apart: "e \<noteq> sid" if "v < NGHTTP2_EXTPRI_URGENCY_LEVELS" "v \<noteq> u" "e \<in> set (fst (s_levels s ! v))" for e v
    using D(3) [OF that(1), of sid] sid that by auto
  show "length (s_levels s') = NGHTTP2_EXTPRI_URGENCY_LEVELS" using D(1) s' by simp
  show "st_last_writelen (s_streams s' e) \<le> 0xffffff" for e using D(5) sid streams by simp
  show "stream_urgency (s_streams s' e) < NGHTTP2_EXTPRI_URGENCY_LEVELS" if "st_queued (s_streams s' e)" for e
    using D(4) [of e] that streams sid u by (cases "e = sid") auto
  fix v assume v: "v < NGHTTP2_EXTPRI_URGENCY_LEVELS"
  show "e \<in> set (fst (s_levels s' ! v)) \<longleftrightarrow> st_queued (s_streams s' e) \<and> stream_urgency (s_streams s' e) = v" for e
    using D(1) D(3) [OF v, of e] s' streams sid mem u v apart [of v e] by (cases "v = u"; cases "e = sid") auto
  have same: "same_key (pq_val pq e) (s_streams s' e)" if "e \<in> set (pq_q pq)" for e
    using that key mem streams by (cases "e = sid") (auto simp: same_key_def split: if_splits)
  show "queue_ok (level s' v)"
  proof (rule put_queues [OF ok u pq frame _ s' same _ v])
    fix v' assume v': "v' < NGHTTP2_EXTPRI_URGENCY_LEVELS" "v' \<noteq> u"
    show "insert sid (set (fst (s_levels s ! u))) \<inter> set (fst (s_levels s ! v')) = {}"
      using apart [OF v'] D(3) [OF v'(1)] D(3) [OF u] v'(2) by auto
    fix e assume "e \<in> set (fst (s_levels s ! v'))"
    then show "same_key (s_streams s e) (s_streams s' e)" using apart [OF v'] streams by (auto simp: same_key_def)
  qed
qed

text \<open>The virtual time a stream is given lies in the window of the queue it enters.\<close>

lemma writelen_window:
  fixes c :: "64 word" and l :: "32 word"
  assumes "l \<le> 0xffffff"
  shows "(c + ucast l) - c \<le> NGHTTP2_STREAM_MAX_CYCLE_GAP"
proof -
  have "unat l < 2 ^ LENGTH(32)" by (rule unsigned_less)
  then have "unat (ucast l :: 64 word) = unat l" by (simp add: unsigned_ucast_eq take_bit_nat_eq_self)
  then show ?thesis using assms by (simp add: word_le_nat_alt gap_unat)
qed

lemma ob_data_push_ok:
  assumes ok: "sched_ok s" and q: "\<not> st_queued (s_streams s sid)"
    and u: "stream_urgency (s_streams s sid) < NGHTTP2_EXTPRI_URGENCY_LEVELS"
  obtains rv cyc s' where "session_ob_data_push mem_ok s sid = Some (rv, s')" "sched_ok s'"
    "rv = 0 \<or> (rv = NGHTTP2_ERR_NOMEM \<and> \<not> mem_ok)"
    "s_streams s' = (s_streams s)(sid := (s_streams s sid)\<lparr>st_cycle := cyc, st_queued := (rv = 0)\<rparr>)" "s_server s' = s_server s"
proof -
  define st where "st = s_streams s sid"
  define u where "u = stream_urgency st"
  define first where "first = pq_get_first_cycle (level s u)"
  define cyc where "cyc = (if nghttp2_extpri_uint8_inc (st_extpri st) then first + ucast (st_last_writelen st) else first)"
  define s1 where "s1 = set_stream s sid (\<lambda>st. st\<lparr>st_cycle := cyc\<rparr>)"
  note D = sched_okD [OF ok]
  have uu: "u < NGHTTP2_EXTPRI_URGENCY_LEVELS" using u by (simp add: u_def st_def)
  have new: "sid \<notin> set (pq_q (level s1 u))" using D(3) [OF uu, of sid] q by (simp add: s1_def)
  have cin: "cyc - first \<le> NGHTTP2_STREAM_MAX_CYCLE_GAP"
    using writelen_window [OF D(5) [of sid]] by (simp add: cyc_def st_def)
  have qk: "queue_ok (level s u)" by (rule D(2) [OF uu])
  have lv: "queue_ok (level s1 u)"
    using qk by (rule queue_ok_cong) (use new in \<open>auto simp: s1_def same_key_def\<close>)
  have ok1: "pq_ok stream_less (level s1 u)" using lv by (simp add: queue_ok_def)
  have in1: "pq_in (window first) (level s1 u)"
    using qk new by (auto simp: queue_ok_def pq_in_def first_def s1_def)
  have sidin: "pq_val (level s1 u) sid \<in> window first" using cin by (simp add: window_def s1_def)
  obtain rv pq where push: "nghttp2_pq_push stream_less mem_ok (level s1 u) sid = (rv, pq)" by (cases "nghttp2_pq_push stream_less mem_ok (level s1 u) sid")
  have run: "session_ob_data_push mem_ok s sid =
      (if rv \<noteq> 0 then Some (rv, put_level s1 u pq) else Some (0, set_stream (put_level s1 u pq) sid (\<lambda>st. st\<lparr>st_queued := True\<rparr>)))"
    using q [folded st_def] uu push
    unfolding session_ob_data_push_def Let_def st_def [symmetric] u_def [symmetric] first_def [symmetric] cyc_def [symmetric]
      s1_def [symmetric] by simp
  from win.push_ok [OF ok1 in1 sidin new push] show thesis
  proof (elim disjE conjE)
    assume err: "rv = NGHTTP2_ERR_NOMEM" "pq = level s1 u" "\<not> mem_ok"
    have "put_level s1 u (level s1 u) = s1" using D(1) uu by (simp add: put_level_def s1_def level_def)
    moreover have "sched_ok s1" unfolding s1_def using q D(5) by (intro set_stream_ok [OF ok]) auto
    ultimately show thesis
      using that [of rv s1 cyc] run err q by (auto simp: NGHTTP2_ERR_NOMEM_def s1_def fun_eq_iff)
  next
    assume r: "rv = 0" "pq_ok stream_less pq" "mset (pq_q pq) = add_mset sid (mset (pq_q (level s1 u)))"
      "pq_val pq = pq_val (level s1 u)" "index_frame (insert sid (set (pq_q (level s1 u)))) (level s1 u) pq"
    define s' where "s' = set_stream (put_level s1 u pq) sid (\<lambda>st. st\<lparr>st_queued := True\<rparr>)"
    have set: "set (pq_q pq) = insert sid (set (fst (s_levels s ! u)))"
      using r(3) by (metis level_simps(1) s1_def set_mset_add_mset_insert set_mset_mset set_stream_simps(1))
    have streams: "s_streams s' = (s_streams s)(sid := st\<lparr>st_cycle := cyc, st_queued := True\<rparr>)"
      using r(4) by (simp add: s'_def s1_def st_def)
    have "sched_ok s'"
    proof (rule put_level_ok [OF ok uu r(2) _ _ _ _ streams])
      show "pq_in (window first) pq" using in1 sidin r(4) set by (auto simp: pq_in_def s1_def)
      show "index_frame (insert sid (set (fst (s_levels s ! u)))) (level s u) pq" using r(5) by (simp add: s1_def index_frame_def)
      show "pq_val pq e = s_streams s e" if "e \<noteq> sid" for e using r(4) that by (simp add: s1_def)
    qed (use r set D(5) in \<open>auto simp: s'_def s1_def st_def u_def stream_urgency_def same_key_def\<close>)
    then show thesis using that [of rv s' cyc] run r(1) streams by (simp add: s'_def s1_def st_def)
  qed
qed

lemma ob_data_remove_ok:
  assumes ok: "sched_ok s" and q: "st_queued (s_streams s sid)"
  obtains s' where "session_ob_data_remove s sid = Some s'" "sched_ok s'"
    "s_streams s' = (s_streams s)(sid := (s_streams s sid)\<lparr>st_queued := False\<rparr>)" "s_server s' = s_server s"
proof -
  define st u where "st = s_streams s sid" and "u = stream_urgency (s_streams s sid)"
  note D = sched_okD [OF ok]
  have uu: "u < NGHTTP2_EXTPRI_URGENCY_LEVELS" using D(4) q by (simp add: u_def)
  have mem: "sid \<in> set (pq_q (level s u))" using D(3) [OF uu, of sid] q by (simp add: u_def)
  have l: "pq_ok stream_less (level s u)" "pq_in (window (pq_get_first_cycle (level s u))) (level s u)"
    using D(2) [OF uu] by (simp_all add: queue_ok_def)
  obtain pq where r: "nghttp2_pq_remove stream_less (level s u) sid = Some pq" "pq_ok stream_less pq"
    "mset (pq_q pq) = mset (pq_q (level s u)) - {#sid#}" "pq_val pq = pq_val (level s u)"
    "index_frame (set (pq_q (level s u))) (level s u) pq"
    using win.remove_ok [OF l mem] by metis
  define s' where "s' = set_stream (put_level s u pq) sid (\<lambda>st. st\<lparr>st_queued := False\<rparr>)"
  have "distinct (pq_q (level s u))" using l by (intro index_ok_distinct) (simp add: pq_ok_def)
  then have set: "set (pq_q pq) = set (fst (s_levels s ! u)) - {sid}"
    using r(3) by (metis level_simps(1) mset_remove1 set_mset_mset set_remove1_eq)
  have streams: "s_streams s' = (s_streams s)(sid := st\<lparr>st_queued := False\<rparr>)" using r(4) by (simp add: s'_def st_def)
  have "sched_ok s'"
  proof (rule put_level_ok [OF ok uu r(2) _ _ _ _ streams])
    show "pq_in (window (pq_get_first_cycle (level s u))) pq" using l(2) r(4) set by (auto simp: pq_in_def)
    show "index_frame (insert sid (set (fst (s_levels s ! u)))) (level s u) pq" using r(5) by (simp add: index_frame_def)
  qed (use r set D(5) in \<open>auto simp: s'_def st_def u_def stream_urgency_def\<close>)
  moreover have "session_ob_data_remove s sid = Some s'"
    using q uu r(1) by (simp add: session_ob_data_remove_def Let_def u_def [symmetric] s'_def)
  ultimately show thesis using that [of s'] streams by (simp add: s'_def st_def)
qed

text \<open>Removing and pushing again needs no memory, whatever the virtual time becomes inside the window.\<close>

lemma requeue_ok:
  assumes ok: "sched_ok s" and q: "st_queued (s_streams s sid)" and u: "u = stream_urgency (s_streams s sid)"
    and cyc: "st_cycle (s_streams s sid) + p - pq_get_first_cycle (level s u) \<le> NGHTTP2_STREAM_MAX_CYCLE_GAP"
  obtains pq pq' s' where "nghttp2_pq_remove stream_less (level s u) sid = Some pq"
    "nghttp2_pq_push stream_less mem_ok (level (set_stream (put_level s u pq) sid (\<lambda>st. st\<lparr>st_cycle := st_cycle st + p\<rparr>)) u) sid = (0, pq')"
    "s' = put_level (set_stream (put_level s u pq) sid (\<lambda>st. st\<lparr>st_cycle := st_cycle st + p\<rparr>)) u pq'" "sched_ok s'"
    "s_streams s' = (s_streams s)(sid := (s_streams s sid)\<lparr>st_cycle := st_cycle (s_streams s sid) + p\<rparr>)" "s_server s' = s_server s"
proof -
  define first where "first = pq_get_first_cycle (level s u)"
  note D = sched_okD [OF ok]
  have uu: "u < NGHTTP2_EXTPRI_URGENCY_LEVELS" using D(4) q by (simp add: u)
  have mem: "sid \<in> set (pq_q (level s u))" using D(3) [OF uu, of sid] q by (simp add: u)
  have l: "pq_ok stream_less (level s u)" "pq_in (window first) (level s u)"
    using D(2) [OF uu] by (simp_all add: queue_ok_def first_def)
  obtain pq where r: "nghttp2_pq_remove stream_less (level s u) sid = Some pq" "pq_ok stream_less pq"
    "mset (pq_q pq) = mset (pq_q (level s u)) - {#sid#}" "pq_val pq = pq_val (level s u)"
    "index_frame (set (pq_q (level s u))) (level s u) pq" "pq_capacity pq = pq_capacity (level s u)"
    using win.remove_ok [OF l mem] by metis
  define s1 where "s1 = set_stream (put_level s u pq) sid (\<lambda>st. st\<lparr>st_cycle := st_cycle st + p\<rparr>)"
  have lv: "s_levels s1 ! u = (pq_q pq, pq_capacity pq)" using D(1) uu by (simp add: s1_def)
  have "distinct (pq_q (level s u))" using l by (intro index_ok_distinct) (simp add: pq_ok_def)
  then have set: "set (pq_q pq) = set (fst (s_levels s ! u)) - {sid}"
    using r(3) by (metis level_simps(1) mset_remove1 set_mset_mset set_remove1_eq)
  have "queue_ok pq" using l(2) r(4) set by (intro queue_okI [OF r(2), of first]) (auto simp: pq_in_def)
  then have "queue_ok (level s1 u)"
    by (rule queue_ok_cong) (use set lv in \<open>auto simp: s1_def same_key_def r(4)\<close>)
  then have ok1: "pq_ok stream_less (level s1 u)" by (simp add: queue_ok_def)
  have in1: "pq_in (window first) (level s1 u)" using l(2) set by (auto simp: pq_in_def lv) (auto simp: s1_def r(4))
  have sidin: "pq_val (level s1 u) sid \<in> window first" using cyc r(4) by (simp add: window_def s1_def first_def)
  have new: "sid \<notin> set (pq_q (level s1 u))" using set lv by simp
  obtain rv pq' where push: "nghttp2_pq_push stream_less mem_ok (level s1 u) sid = (rv, pq')" by (cases "nghttp2_pq_push stream_less mem_ok (level s1 u) sid")
  have "pq_size (level s u) \<le> pq_capacity (level s u)" using l(1) by (simp add: pq_ok_def)
  moreover have "Suc (length (pq_q pq)) = pq_size (level s u)"
    using arg_cong [OF r(3), of size] mem by (simp add: pq_size_def size_Diff_singleton) (metis Suc_pred length_pos_if_in_set)
  ultimately have "grow mem_ok (level s1 u) = Some (level s1 u)" using lv r(6) by (simp add: grow_def pq_size_def)
  then have "rv = 0" using push by (simp add: nghttp2_pq_push_def Let_def)
  then have p: "pq_ok stream_less pq'" "mset (pq_q pq') = add_mset sid (mset (pq_q (level s1 u)))"
    "pq_val pq' = pq_val (level s1 u)" "index_frame (insert sid (set (pq_q (level s1 u)))) (level s1 u) pq'"
    using win.push_ok [OF ok1 in1 sidin new push] by (auto simp: NGHTTP2_ERR_NOMEM_def)
  define s' where "s' = put_level s1 u pq'"
  have set': "set (pq_q pq') = insert sid (set (fst (s_levels s ! u)))"
    using p(2) set lv by (metis insert_Diff_single level_simps(1) fst_conv set_mset_add_mset_insert set_mset_mset)
  have streams: "s_streams s' = (s_streams s)(sid := (s_streams s sid)\<lparr>st_cycle := st_cycle (s_streams s sid) + p\<rparr>)"
    using p(3) r(4) by (simp add: s'_def s1_def)
  have "sched_ok s'"
  proof (rule put_level_ok [OF ok uu p(1) _ _ _ _ streams])
    show "pq_in (window first) pq'" using in1 sidin p(3) set' lv set by (auto simp: pq_in_def)
    show "index_frame (insert sid (set (fst (s_levels s ! u)))) (level s u) pq'"
      using p(4) r(5) set lv by (auto simp: index_frame_def s1_def)
    show "pq_val pq' e = s_streams s e" if "e \<noteq> sid" for e using p(3) r(4) that by (simp add: s1_def)
  qed (use p set' D(5) q u in \<open>auto simp: s'_def s1_def stream_urgency_def same_key_def r(4)\<close>)
  then show thesis
    using that [of pq pq' s'] r(1) push \<open>rv = 0\<close> streams by (simp add: s'_def s1_def)
qed

section \<open>The scheduler as a state machine\<close>

text \<open>The calls of the session code, and when it makes them. The conditions are the callers' own
  checks and arguments, not the assertions of the code called: \<open>Attach\<close> tests the item only
  (\<^verbatim>\<open>nghttp2_session_add_item\<close>), \<open>Resume\<close> the item and a deferred flag
  (\<^verbatim>\<open>nghttp2_stream_check_deferred_item\<close>, and \<^verbatim>\<open>_by_flow_control\<close>, which implies it), \<open>Defer\<close> and \<open>Sent\<close>
  follow the choice of the stream from its queue, \<open>Prio\<close> gets an urgency that was parsed or
  cut to the range, and \<open>Open\<close> takes memory that is in no queue and one of the four flag
  combinations of \<^verbatim>\<open>nghttp2_session_open_stream\<close>.

  \<open>Sent\<close> is the call after a frame of \<open>len\<close> bytes has been packed. It asks that the stream's virtual
  time, moved on by the frame, stays within the maximal gap. A stream that was chosen and not
  touched since is at the first virtual time of its level, so that every frame length will do
  (\<open>chosen_may_send\<close>). A read callback that changes the priority of the very stream it reads for
  can put it one earlier frame behind the first (\<open>moved_may_send\<close>): then both frames together
  must stay below 2^24 bytes, which the default frame size of 2^14 does.\<close>

datatype sched_op =
  Open nat "8 word" | Attach bool nat nat | Detach nat | Defer nat "8 word" | Resume bool nat "8 word"
  | Sent bool nat "32 word" | Prio bool nat "8 word" | Close nat

fun sched_exec :: "sched_op \<Rightarrow> session \<Rightarrow> session option" where
  "sched_exec (Open sid flags) s = Some (session_open_stream s sid flags)"
| "sched_exec (Attach mem_ok sid item) s = map_option snd (session_attach_stream_item mem_ok s sid item)"
| "sched_exec (Detach sid) s = session_detach_stream_item s sid"
| "sched_exec (Defer sid flags) s = session_defer_stream_item s sid flags"
| "sched_exec (Resume mem_ok sid flags) s = map_option snd (session_resume_deferred_stream_item mem_ok s sid flags)"
| "sched_exec (Sent mem_ok sid len) s = session_reschedule_stream mem_ok s sid len"
| "sched_exec (Prio mem_ok sid p) s = map_option snd (session_update_stream_priority mem_ok s sid p)"
| "sched_exec (Close sid) s = nghttp2_session_close_stream s sid"

definition NGHTTP2_STREAM_FLAGS_OPEN :: "8 word list" where
  "NGHTTP2_STREAM_FLAGS_OPEN = [0, 0x01, 0x40, 0x41]"

fun sched_allowed :: "sched_op \<Rightarrow> session \<Rightarrow> bool" where
  "sched_allowed (Open sid flags) s = (\<not> st_queued (s_streams s sid) \<and> flags \<in> set NGHTTP2_STREAM_FLAGS_OPEN)"
| "sched_allowed (Attach mem_ok sid item) s = (st_item (s_streams s sid) = None)"
| "sched_allowed (Detach sid) s = True"
| "sched_allowed (Defer sid flags) s = (st_queued (s_streams s sid) \<or> st_item (s_streams s sid) \<noteq> None)"
| "sched_allowed (Resume mem_ok sid flags) s =
     (st_item (s_streams s sid) \<noteq> None \<and> st_flags (s_streams s sid) AND NGHTTP2_STREAM_FLAG_DEFERRED_ALL \<noteq> 0)"
| "sched_allowed (Sent mem_ok sid len) s =
     (st_queued (s_streams s sid) \<and> len \<le> 0xffffff \<and>
      st_cycle (s_streams s sid) - pq_get_first_cycle (level s (stream_urgency (s_streams s sid))) + ucast len
        \<le> NGHTTP2_STREAM_MAX_CYCLE_GAP)"
| "sched_allowed (Prio mem_ok sid p) s = (unat (nghttp2_extpri_uint8_urgency p) < NGHTTP2_EXTPRI_URGENCY_LEVELS)"
| "sched_allowed (Close sid) s = True"

definition session_start :: "bool \<Rightarrow> session" where
  "session_start server = session_new server (\<lambda>_. 0) (\<lambda>_. nghttp2_stream_init 0)"

inductive sched_reach :: "session \<Rightarrow> bool" where
  sched_init: "sched_reach (session_start server)"
| sched_step: "sched_reach s \<Longrightarrow> sched_allowed op s \<Longrightarrow> sched_exec op s = Some s' \<Longrightarrow> sched_reach s'"

definition stream_ready :: "stream_t \<Rightarrow> bool" where
  "stream_ready st = (st_item st \<noteq> None \<and> st_flags st AND NGHTTP2_STREAM_FLAG_DEFERRED_ALL = 0)"

definition sched_inv :: "session \<Rightarrow> bool" where
  "sched_inv s =
     (sched_ok s \<and> (\<forall>e. stream_urgency (s_streams s e) < NGHTTP2_EXTPRI_URGENCY_LEVELS \<and>
        (st_queued (s_streams s e) \<longrightarrow> stream_ready (s_streams s e)) \<and>
        (st_item (s_streams s e) = None \<longrightarrow> st_flags (s_streams s e) AND NGHTTP2_STREAM_FLAG_DEFERRED_ALL = 0)))"

lemma sched_invI:
  assumes "sched_ok s'" and "sched_inv s" and "s_streams s' = (s_streams s)(sid := st)"
    and "stream_urgency st < NGHTTP2_EXTPRI_URGENCY_LEVELS" and "\<not> st_queued st \<or> stream_ready st"
    and "st_item st = None \<longrightarrow> st_flags st AND NGHTTP2_STREAM_FLAG_DEFERRED_ALL = 0"
  shows "sched_inv s'"
  using assms by (auto simp: sched_inv_def)

lemma default_urgency: "stream_urgency ((nghttp2_stream_init flags)\<lparr>st_seq := q\<rparr>) = 3" "stream_urgency (nghttp2_stream_init flags) = 3"
  by (simp_all add: stream_urgency_def nghttp2_stream_init_def nghttp2_extpri_uint8_urgency_def NGHTTP2_EXTPRI_DEFAULT_URGENCY_def
      NGHTTP2_EXTPRI_INC_MASK_def)

lemma init_inv: "sched_inv (session_start server)"
proof -
  have "queue_ok (level (session_start server) u)" if "u < NGHTTP2_EXTPRI_URGENCY_LEVELS" for u
    by (rule queue_okI [of _ 0])
      (use that in \<open>simp_all add: session_start_def session_new_def nghttp2_pq_init_def level_def pq_ok_def heap_on_def
        index_ok_def pq_size_def pq_in_def\<close>)
  then have "sched_ok (session_start server)"
    by (intro sched_okI) (auto simp: session_start_def session_new_def nghttp2_pq_init_def nghttp2_stream_init_def)
  then show ?thesis
    by (simp add: sched_inv_def session_start_def session_new_def default_urgency NGHTTP2_EXTPRI_URGENCY_LEVELS_def)
      (simp add: nghttp2_stream_init_def)
qed

lemma urgency_same [simp]:
  "stream_urgency (st\<lparr>st_cycle := c\<rparr>) = stream_urgency st" "stream_urgency (st\<lparr>st_queued := q\<rparr>) = stream_urgency st"
  "stream_urgency (st\<lparr>st_item := i\<rparr>) = stream_urgency st" "stream_urgency (st\<lparr>st_flags := f\<rparr>) = stream_urgency st"
  "stream_urgency (st\<lparr>st_last_writelen := l\<rparr>) = stream_urgency st" "stream_urgency (st\<lparr>st_seq := n\<rparr>) = stream_urgency st"
  by (simp_all add: stream_urgency_def)

lemma detached_flags: "(x AND NOT NGHTTP2_STREAM_FLAG_DEFERRED_ALL) AND NGHTTP2_STREAM_FLAG_DEFERRED_ALL = 0"
  by (simp add: and.assoc)

text \<open>Every call that is made gives a result and keeps the invariant.\<close>

definition sched_goes :: "session option \<Rightarrow> bool" where
  "sched_goes r = (\<exists>s'. r = Some s' \<and> sched_inv s')"

lemma push_goes:
  assumes inv: "sched_inv s" and s1: "sched_ok s1" "s_streams s1 = (s_streams s)(sid := st)"
    and st: "\<not> st_queued st" "stream_urgency st < NGHTTP2_EXTPRI_URGENCY_LEVELS" "stream_ready st"
  obtains rv s2 where "session_ob_data_push mem_ok s1 sid = Some (rv, s2)" "sched_inv s2"
    "rv \<noteq> 0 \<Longrightarrow> \<not> st_queued (s_streams s2 sid)" "st_last_writelen (s_streams s2 sid) \<le> 0xffffff"
proof -
  have c: "\<not> st_queued (s_streams s1 sid)" "stream_urgency (s_streams s1 sid) < NGHTTP2_EXTPRI_URGENCY_LEVELS"
    using s1(2) st by simp_all
  obtain rv cyc s2 where p: "session_ob_data_push mem_ok s1 sid = Some (rv, s2)" "sched_ok s2"
    "s_streams s2 = (s_streams s1)(sid := (s_streams s1 sid)\<lparr>st_cycle := cyc, st_queued := (rv = 0)\<rparr>)"
    by (rule ob_data_push_ok [OF s1(1) c])
  have "s_streams s2 = (s_streams s)(sid := st\<lparr>st_cycle := cyc, st_queued := (rv = 0)\<rparr>)" using p(3) s1(2) by simp
  then have "sched_inv s2" by (rule sched_invI [OF p(2) inv]) (use st in \<open>simp_all add: stream_ready_def\<close>)
  then show thesis using that [of rv s2] p(1,3) sched_okD(5) [OF p(2), of sid] by simp
qed

lemma remove_goes:
  assumes inv: "sched_inv s" and s1: "sched_ok s1" "s_streams s1 = (s_streams s)(sid := st)"
    and st: "st_queued st" "stream_urgency st < NGHTTP2_EXTPRI_URGENCY_LEVELS"
      "st_item st = None \<longrightarrow> st_flags st AND NGHTTP2_STREAM_FLAG_DEFERRED_ALL = 0"
  shows "sched_goes (session_ob_data_remove s1 sid)"
proof -
  have q: "st_queued (s_streams s1 sid)" using s1(2) st by simp
  obtain s2 where p: "session_ob_data_remove s1 sid = Some s2" "sched_ok s2"
    "s_streams s2 = (s_streams s1)(sid := (s_streams s1 sid)\<lparr>st_queued := False\<rparr>)"
    by (rule ob_data_remove_ok [OF s1(1) q])
  have "s_streams s2 = (s_streams s)(sid := st\<lparr>st_queued := False\<rparr>)" using p(3) s1(2) by simp
  then have "sched_inv s2" by (rule sched_invI [OF p(2) inv]) (use st in simp_all)
  then show ?thesis using p by (simp add: sched_goes_def)
qed

lemma sched_invD:
  assumes "sched_inv s"
  shows "sched_ok s" "stream_urgency (s_streams s e) < NGHTTP2_EXTPRI_URGENCY_LEVELS"
    "st_queued (s_streams s e) \<Longrightarrow> stream_ready (s_streams s e)" "st_last_writelen (s_streams s e) \<le> 0xffffff"
    "st_item (s_streams s e) = None \<Longrightarrow> st_flags (s_streams s e) AND NGHTTP2_STREAM_FLAG_DEFERRED_ALL = 0"
  using assms by (auto simp: sched_inv_def sched_okD(5))

lemma open_flags: "flags \<in> set NGHTTP2_STREAM_FLAGS_OPEN \<Longrightarrow> flags AND NGHTTP2_STREAM_FLAG_DEFERRED_ALL = 0"
  by (auto simp: NGHTTP2_STREAM_FLAGS_OPEN_def NGHTTP2_STREAM_FLAG_DEFERRED_ALL_def)

lemma open_goes:
  "sched_inv s \<Longrightarrow> \<not> st_queued (s_streams s sid) \<Longrightarrow> flags \<in> set NGHTTP2_STREAM_FLAGS_OPEN \<Longrightarrow>
     sched_inv (session_open_stream s sid flags)"
proof -
  assume inv: "sched_inv s" and q: "\<not> st_queued (s_streams s sid)" and f: "flags \<in> set NGHTTP2_STREAM_FLAGS_OPEN"
  define s1 where "s1 = set_stream s sid (\<lambda>_. (nghttp2_stream_init flags)\<lparr>st_seq := s_stream_seq s\<rparr>)"
  have "sched_ok s1"
    unfolding s1_def by (rule set_stream_ok [OF sched_invD(1) [OF inv]]) (use q in \<open>simp_all add: nghttp2_stream_init_def\<close>)
  then have "sched_ok (s1\<lparr>s_stream_seq := s_stream_seq s + 1\<rparr>)" by (simp add: sched_ok_def level_def)
  then show ?thesis
    unfolding session_open_stream_def s1_def [symmetric]
    by (rule sched_invI [OF _ inv, of _ sid "(nghttp2_stream_init flags)\<lparr>st_seq := s_stream_seq s\<rparr>"])
      (simp_all only: default_urgency,
        simp_all add: s1_def NGHTTP2_EXTPRI_URGENCY_LEVELS_def nghttp2_stream_init_def open_flags [OF f])
qed

lemma attach_goes:
  assumes inv: "sched_inv s" and item: "st_item (s_streams s sid) = None"
  shows "sched_goes (map_option snd (session_attach_stream_item mem_ok s sid item))"
proof -
  note D = sched_invD [OF inv]
  have q: "\<not> st_queued (s_streams s sid)" using D(3) [of sid] item by (auto simp: stream_ready_def)
  note flags = D(5) [OF item]
  define s1 where "s1 = set_stream s sid (\<lambda>st. st\<lparr>st_item := Some item\<rparr>)"
  have s1: "sched_ok s1" unfolding s1_def by (rule set_stream_ok [OF D(1)]) (use D(4) q in simp_all)
  have streams: "s_streams s1 = (s_streams s)(sid := (s_streams s sid)\<lparr>st_item := Some item\<rparr>)" by (simp add: s1_def)
  obtain rv s2 where p: "session_ob_data_push mem_ok s1 sid = Some (rv, s2)" "sched_inv s2"
    "rv \<noteq> 0 \<Longrightarrow> \<not> st_queued (s_streams s2 sid)" "st_last_writelen (s_streams s2 sid) \<le> 0xffffff"
    by (rule push_goes [OF inv s1 streams, where mem_ok = mem_ok]) (use q D(2) flags in \<open>simp_all add: stream_ready_def\<close>)
  have "sched_inv (nghttp2_stream_detach_item s2 sid)" if "rv \<noteq> 0"
  proof -
    have "sched_ok (nghttp2_stream_detach_item s2 sid)"
      unfolding nghttp2_stream_detach_item_def by (rule set_stream_ok [OF sched_invD(1) [OF p(2)]]) (use p(3,4) that in simp_all)
    then show ?thesis
      by (rule sched_invI [OF _ p(2), of _ sid "(s_streams s2 sid)\<lparr>st_item := None,
            st_flags := st_flags (s_streams s2 sid) AND NOT NGHTTP2_STREAM_FLAG_DEFERRED_ALL\<rparr>"])
        (use p(3) that sched_invD(2) [OF p(2), of sid] in \<open>simp_all add: nghttp2_stream_detach_item_def detached_flags\<close>)
  qed
  then show ?thesis
    using item flags p(1,2) by (simp add: session_attach_stream_item_def nghttp2_stream_attach_item_def s1_def [symmetric] sched_goes_def)
qed

lemma detach_goes:
  assumes inv: "sched_inv s"
  shows "sched_goes (session_detach_stream_item s sid)"
proof -
  note D = sched_invD [OF inv]
  define st where "st = (s_streams s sid)\<lparr>st_item := None, st_flags := st_flags (s_streams s sid) AND NOT NGHTTP2_STREAM_FLAG_DEFERRED_ALL\<rparr>"
  define s1 where "s1 = nghttp2_stream_detach_item s sid"
  have s1: "sched_ok s1"
    unfolding s1_def nghttp2_stream_detach_item_def by (rule set_stream_ok [OF D(1)]) (use D(4) in \<open>simp_all add: same_key_def\<close>)
  have streams: "s_streams s1 = (s_streams s)(sid := st)" by (simp add: s1_def nghttp2_stream_detach_item_def st_def)
  have st: "stream_urgency st < NGHTTP2_EXTPRI_URGENCY_LEVELS"
    "st_item st = None \<longrightarrow> st_flags st AND NGHTTP2_STREAM_FLAG_DEFERRED_ALL = 0"
    using D(2) [of sid] by (simp_all add: st_def detached_flags)
  show ?thesis
  proof (cases "st_queued st")
    case True
    then show ?thesis
      using remove_goes [OF inv s1 streams True st] streams by (simp add: session_detach_stream_item_def Let_def s1_def [symmetric])
  next
    case False
    then have "sched_inv s1" by (intro sched_invI [OF s1 inv streams st(1) _ st(2)]) simp
    then show ?thesis using False streams by (simp add: session_detach_stream_item_def Let_def s1_def [symmetric] sched_goes_def)
  qed
qed

lemma close_goes:
  assumes inv: "sched_inv s"
  shows "sched_goes (nghttp2_session_close_stream s sid)"
proof -
  have "sched_goes (if st_item (s_streams s sid) \<noteq> None then session_detach_stream_item s sid else Some s)"
    using detach_goes [OF inv] inv by (simp add: sched_goes_def)
  then obtain s1 where s1: "(if st_item (s_streams s sid) \<noteq> None then session_detach_stream_item s sid else Some s) = Some s1"
    "sched_inv s1" by (auto simp: sched_goes_def)
  have "sched_goes (nghttp2_session_destroy_stream s1 sid)"
  proof (cases "st_queued (s_streams s1 sid)")
    case True
    note D1 = sched_invD [OF s1(2)]
    have "sched_goes (session_ob_data_remove s1 sid)"
      by (rule remove_goes [OF s1(2) D1(1) _ True D1(2)]) (use D1(5) [of sid] in simp_all)
    then show ?thesis using True by (simp add: nghttp2_session_destroy_stream_def)
  qed (use s1(2) in \<open>simp add: nghttp2_session_destroy_stream_def sched_goes_def\<close>)
  then show ?thesis using s1(1) by (simp add: nghttp2_session_close_stream_def)
qed

lemma defer_goes:
  assumes inv: "sched_inv s" and ok: "st_queued (s_streams s sid) \<or> st_item (s_streams s sid) \<noteq> None"
  shows "sched_goes (session_defer_stream_item s sid flags)"
proof -
  note D = sched_invD [OF inv]
  obtain it where item: "st_item (s_streams s sid) = Some it" using ok D(3) [of sid] by (auto simp: stream_ready_def)
  define st where "st = (s_streams s sid)\<lparr>st_flags := st_flags (s_streams s sid) OR flags\<rparr>"
  define s1 where "s1 = set_stream s sid (\<lambda>st. st\<lparr>st_flags := st_flags st OR flags\<rparr>)"
  have s1: "sched_ok s1" unfolding s1_def by (rule set_stream_ok [OF D(1)]) (use D(4) in \<open>simp_all add: same_key_def\<close>)
  have streams: "s_streams s1 = (s_streams s)(sid := st)" by (simp add: s1_def st_def)
  have st: "stream_urgency st < NGHTTP2_EXTPRI_URGENCY_LEVELS"
    "st_item st = None \<longrightarrow> st_flags st AND NGHTTP2_STREAM_FLAG_DEFERRED_ALL = 0"
    using D(2) [of sid] item by (simp_all add: st_def)
  have run: "session_defer_stream_item s sid flags = (if \<not> st_queued st then Some s1 else session_ob_data_remove s1 sid)"
    using item streams by (auto simp: session_defer_stream_item_def nghttp2_stream_defer_item_def s1_def [symmetric])
  show ?thesis
  proof (cases "st_queued st")
    case True
    then show ?thesis using remove_goes [OF inv s1 streams True st] run by simp
  next
    case False
    then have "sched_inv s1" by (intro sched_invI [OF s1 inv streams st(1) _ st(2)]) simp
    then show ?thesis using False run by (simp add: sched_goes_def)
  qed
qed

lemma resume_goes:
  assumes inv: "sched_inv s" and item: "st_item (s_streams s sid) \<noteq> None"
    and deferred: "st_flags (s_streams s sid) AND NGHTTP2_STREAM_FLAG_DEFERRED_ALL \<noteq> 0"
  shows "sched_goes (map_option snd (session_resume_deferred_stream_item mem_ok s sid flags))"
proof -
  note D = sched_invD [OF inv]
  obtain it where it: "st_item (s_streams s sid) = Some it" using item by auto
  have q: "\<not> st_queued (s_streams s sid)" using D(3) [of sid] deferred by (auto simp: stream_ready_def)
  define st where "st = (s_streams s sid)\<lparr>st_flags := st_flags (s_streams s sid) AND NOT flags\<rparr>"
  define s1 where "s1 = set_stream s sid (\<lambda>st. st\<lparr>st_flags := st_flags st AND NOT flags\<rparr>)"
  have s1: "sched_ok s1" unfolding s1_def by (rule set_stream_ok [OF D(1)]) (use D(4) q in simp_all)
  have streams: "s_streams s1 = (s_streams s)(sid := st)" by (simp add: s1_def st_def)
  have st: "stream_urgency st < NGHTTP2_EXTPRI_URGENCY_LEVELS" "\<not> st_queued st" using D(2) [of sid] q by (simp_all add: st_def)
  have run: "session_resume_deferred_stream_item mem_ok s sid flags =
      (if st_flags st AND NGHTTP2_STREAM_FLAG_DEFERRED_ALL \<noteq> 0 then Some (0, s1) else session_ob_data_push mem_ok s1 sid)"
    using item streams by (auto simp: session_resume_deferred_stream_item_def nghttp2_stream_resume_deferred_item_def s1_def [symmetric])
  show ?thesis
  proof (cases "st_flags st AND NGHTTP2_STREAM_FLAG_DEFERRED_ALL = 0")
    case True
    obtain rv s2 where "session_ob_data_push mem_ok s1 sid = Some (rv, s2)" "sched_inv s2"
      by (rule push_goes [OF inv s1 streams st(2,1), where mem_ok = mem_ok]) (use True item in \<open>simp_all add: stream_ready_def st_def\<close>)
    then show ?thesis using True run by (simp add: sched_goes_def)
  next
    case False
    have "sched_inv s1" by (rule sched_invI [OF s1 inv streams st(1)]) (use st it in \<open>simp_all add: st_def\<close>)
    then show ?thesis using False run by (simp add: sched_goes_def)
  qed
qed

text \<open>What a sent frame does to its stream: the length is noted, and on a server an incremental stream
  that shares its level moves on by that length.\<close>

definition sent_stream :: "session \<Rightarrow> nat \<Rightarrow> 32 word \<Rightarrow> stream_t" where
  "sent_stream s sid len =
     (let st = (s_streams s sid)\<lparr>st_last_writelen := len\<rparr> in
      if s_server s \<and> nghttp2_extpri_uint8_inc (st_extpri st) \<and> pq_size (level s (stream_urgency st)) \<noteq> 1
      then st\<lparr>st_cycle := st_cycle st + ucast len\<rparr> else st)"

lemma sent_ok:
  assumes inv: "sched_inv s" and allowed: "sched_allowed (Sent mem_ok sid len) s"
  obtains s' where "session_reschedule_stream mem_ok s sid len = Some s'" "sched_inv s'"
    "s_streams s' = (s_streams s)(sid := sent_stream s sid len)"
proof -
  note D = sched_invD [OF inv]
  define st where "st = (s_streams s sid)\<lparr>st_last_writelen := len\<rparr>"
  define u where "u = stream_urgency st"
  define s1 where "s1 = set_stream s sid (\<lambda>st. st\<lparr>st_last_writelen := len\<rparr>)"
  have q: "st_queued (s_streams s sid)" and len: "len \<le> 0xffffff"
    and gap: "st_cycle (s_streams s sid) - pq_get_first_cycle (level s (stream_urgency (s_streams s sid))) + ucast len
      \<le> NGHTTP2_STREAM_MAX_CYCLE_GAP"
    using allowed by auto
  obtain it where item: "st_item (s_streams s sid) = Some it" using D(3) [OF q] by (auto simp: stream_ready_def)
  have s1: "sched_ok s1" unfolding s1_def by (rule set_stream_ok [OF D(1)]) (use len in \<open>simp_all add: same_key_def\<close>)
  have str1: "s_streams s1 = (s_streams s)(sid := st)" by (simp add: s1_def st_def)
  have str1s: "s_streams s1 sid = st" and wl: "st_last_writelen st = len" using str1 by (simp_all add: st_def)
  have us: "u = stream_urgency (s_streams s1 sid)" and u8: "u < NGHTTP2_EXTPRI_URGENCY_LEVELS"
    using str1 D(2) [of sid] by (simp_all add: u_def st_def)
  have ready: "\<not> st_queued st \<or> stream_ready st" "st_item st = Some it"
    using D(3) [of sid] item by (simp_all add: stream_ready_def st_def)
  have "st_cycle (s_streams s1 e) = st_cycle (s_streams s e)" for e by (simp add: s1_def)
  then have first1: "pq_get_first_cycle (level s1 u) = pq_get_first_cycle (level s u)"
    unfolding first_cycle by (simp only: level_simps) (simp add: s1_def)
  have size: "pq_size (level s1 u) = pq_size (level s u)" by (simp add: pq_size_def s1_def)
  have key: "session_reschedule_stream mem_ok s sid len =
      (if \<not> s_server s then Some s1 else session_sched_reschedule_stream mem_ok s1 sid)"
    using item by (simp add: session_reschedule_stream_def Let_def s1_def [symmetric]) (simp add: s1_def)
  show thesis
  proof (cases "s_server s \<and> nghttp2_extpri_uint8_inc (st_extpri st) \<and> pq_size (level s u) \<noteq> 1")
    case True
    have cyc: "st_cycle (s_streams s1 sid) + ucast len - pq_get_first_cycle (level s1 u) \<le> NGHTTP2_STREAM_MAX_CYCLE_GAP"
      unfolding first1 str1s using gap by (simp add: st_def u_def algebra_simps)
    have q1: "st_queued (s_streams s1 sid)" using q str1 by (simp add: st_def)
    obtain pq pq' s' where r: "nghttp2_pq_remove stream_less (level s1 u) sid = Some pq"
      "nghttp2_pq_push stream_less mem_ok (level (set_stream (put_level s1 u pq) sid (\<lambda>x. x\<lparr>st_cycle := st_cycle x + ucast len\<rparr>)) u) sid = (0, pq')"
      "s' = put_level (set_stream (put_level s1 u pq) sid (\<lambda>x. x\<lparr>st_cycle := st_cycle x + ucast len\<rparr>)) u pq'" "sched_ok s'"
      "s_streams s' = (s_streams s1)(sid := (s_streams s1 sid)\<lparr>st_cycle := st_cycle (s_streams s1 sid) + ucast len\<rparr>)"
      by (rule requeue_ok [OF s1 q1 us cyc])
    have streams: "s_streams s' = (s_streams s)(sid := st\<lparr>st_cycle := st_cycle st + ucast len\<rparr>)" using r(5) str1 by simp
    have "session_sched_reschedule_stream mem_ok s1 sid = Some s'"
      unfolding session_sched_reschedule_stream_def Let_def str1s u_def [symmetric] wl using True u8 r(1,2,3) size by simp
    moreover have "sched_inv s'" by (rule sched_invI [OF r(4) inv streams]) (use u8 ready in \<open>simp_all add: u_def stream_ready_def\<close>)
    ultimately show thesis using that [of s'] True key streams by (simp add: sent_stream_def Let_def st_def [symmetric] u_def [symmetric])
  next
    case False
    then have "session_reschedule_stream mem_ok s sid len = Some s1"
      using key u8 size str1s unfolding session_sched_reschedule_stream_def Let_def str1s u_def [symmetric] by auto
    moreover have "sched_inv s1" by (rule sched_invI [OF s1 inv str1]) (use u8 ready in \<open>simp_all add: u_def\<close>)
    ultimately show thesis using that [of s1] False str1 by (auto simp: sent_stream_def Let_def st_def [symmetric] u_def [symmetric])
  qed
qed

lemma prio_goes:
  assumes inv: "sched_inv s" and p: "unat (nghttp2_extpri_uint8_urgency p) < NGHTTP2_EXTPRI_URGENCY_LEVELS"
  shows "sched_goes (map_option snd (session_update_stream_priority mem_ok s sid p))"
proof -
  note D = sched_invD [OF inv]
  define st where "st = (s_streams s sid)\<lparr>st_extpri := p\<rparr>"
  have urg: "stream_urgency st < NGHTTP2_EXTPRI_URGENCY_LEVELS" using p by (simp add: st_def stream_urgency_def)
  consider (same) "st_extpri (s_streams s sid) = p" | (queued) "st_extpri (s_streams s sid) \<noteq> p" "st_queued (s_streams s sid)"
    | (idle) "st_extpri (s_streams s sid) \<noteq> p" "\<not> st_queued (s_streams s sid)" by blast
  then show ?thesis
  proof cases
    case same
    then show ?thesis using inv by (simp add: session_update_stream_priority_def sched_goes_def)
  next
    case queued
    obtain s1 where r: "session_ob_data_remove s sid = Some s1" "sched_ok s1"
      "s_streams s1 = (s_streams s)(sid := (s_streams s sid)\<lparr>st_queued := False\<rparr>)"
      by (rule ob_data_remove_ok [OF D(1) queued(2)])
    define s2 where "s2 = set_stream s1 sid (\<lambda>st. st\<lparr>st_extpri := p\<rparr>)"
    have s2: "sched_ok s2" unfolding s2_def by (rule set_stream_ok [OF r(2)]) (use r(3) D(4) [of sid] in simp_all)
    have str2: "s_streams s2 = (s_streams s)(sid := (s_streams s sid)\<lparr>st_queued := False, st_extpri := p\<rparr>)" using r(3) by (simp add: s2_def)
    obtain rv s3 where "session_ob_data_push mem_ok s2 sid = Some (rv, s3)" "sched_inv s3"
      by (rule push_goes [OF inv s2 str2, where mem_ok = mem_ok])
        (use urg D(3) [OF queued(2)] in \<open>simp_all add: stream_ready_def st_def stream_urgency_def\<close>)
    then show ?thesis using queued r(1) by (simp add: session_update_stream_priority_def Let_def s2_def sched_goes_def)
  next
    case idle
    have "sched_ok (set_stream s sid (\<lambda>st. st\<lparr>st_extpri := p\<rparr>))"
      by (rule set_stream_ok [OF D(1)]) (use idle D(4) [of sid] in simp_all)
    then have "sched_inv (set_stream s sid (\<lambda>st. st\<lparr>st_extpri := p\<rparr>))"
      by (rule sched_invI [OF _ inv, of _ sid st]) (use idle urg D(5) [of sid] in \<open>simp_all add: st_def\<close>)
    then show ?thesis using idle by (simp add: session_update_stream_priority_def Let_def sched_goes_def)
  qed
qed

text \<open>When a frame may follow: the two cases named with \<open>sched_allowed\<close>.\<close>

lemma chosen_may_send:
  assumes "st_queued (s_streams s sid)" and "len \<le> 0xffffff"
    and "st_cycle (s_streams s sid) = pq_get_first_cycle (level s (stream_urgency (s_streams s sid)))"
  shows "sched_allowed (Sent mem_ok sid len) s"
  using assms writelen_window [of len 0] by simp

lemma moved_may_send:
  assumes "st_queued (s_streams s sid)" and "unat l + unat len \<le> 0xffffff"
    and "st_cycle (s_streams s sid) = pq_get_first_cycle (level s (stream_urgency (s_streams s sid))) + ucast (l :: 32 word)"
  shows "sched_allowed (Sent mem_ok sid len) s"
proof -
  have b: "unat l < 2 ^ LENGTH(32)" "unat len < 2 ^ LENGTH(32)" by (rule unsigned_less)+
  have u: "unat (ucast l :: 64 word) = unat l" "unat (ucast len :: 64 word) = unat len"
    using b by (simp_all add: unsigned_ucast_eq take_bit_nat_eq_self)
  have "unat (ucast l + ucast len :: 64 word) = unat l + unat len"
    using assms(2) u by (subst unat_add_lem [THEN iffD1]) simp_all
  then have "ucast l + ucast len \<le> NGHTTP2_STREAM_MAX_CYCLE_GAP"
    using assms(2) by (simp add: word_le_nat_alt gap_unat)
  moreover have "len \<le> 0xffffff" using assms(2) by (simp add: word_le_nat_alt)
  ultimately show ?thesis using assms(1,3) by simp
qed

lemma sched_exec_goes: "sched_inv s \<Longrightarrow> sched_allowed op s \<Longrightarrow> sched_goes (sched_exec op s)"
proof (cases op)
  case (Open sid flags)
  assume "sched_inv s" "sched_allowed op s"
  then show ?thesis using Open open_goes by (simp add: sched_goes_def)
next
  case (Sent mem_ok sid len)
  assume "sched_inv s" "sched_allowed op s"
  then show ?thesis using sent_ok [of s mem_ok sid len] Sent by (metis sched_exec.simps(6) sched_goes_def)
qed (simp_all add: attach_goes detach_goes defer_goes resume_goes prio_goes close_goes)

section \<open>Properties\<close>

lemma sched_reach_inv: "sched_reach s \<Longrightarrow> sched_inv s"
proof (induction rule: sched_reach.induct)
  case (sched_init server)
  then show ?case by (rule init_inv)
next
  case (sched_step s op s')
  then show ?case using sched_exec_goes by (fastforce simp: sched_goes_def)
qed

text \<open>The first level with a stream decides.\<close>

lemma next_item_from_spec:
  "(next_item_from s us = None \<and> (\<forall>u \<in> set us. pq_q (level s u) = [])) \<or>
   (\<exists>xs u ys. us = xs @ u # ys \<and> (\<forall>v \<in> set xs. pq_q (level s v) = []) \<and> pq_q (level s u) \<noteq> [] \<and>
     next_item_from s us = st_item (s_streams s (pq_q (level s u) ! 0)))"
proof (induction us)
  case (Cons u us)
  show ?case
  proof (cases "pq_q (level s u) = []")
    case True
    then have "next_item_from s (u # us) = next_item_from s us" by (simp add: nghttp2_pq_top_def pq_size_def)
    note skip = this
    from Cons show ?thesis
    proof (elim disjE exE conjE)
      fix xs v ys
      assume "us = xs @ v # ys" "\<forall>w \<in> set xs. pq_q (level s w) = []" "pq_q (level s v) \<noteq> []"
        "next_item_from s us = st_item (s_streams s (pq_q (level s v) ! 0))"
      then show ?thesis using skip True by (intro disjI2 exI [of _ "u # xs"] exI [of _ v] exI [of _ ys]) simp
    qed (use skip True in simp)
  next
    case False
    then show ?thesis by (intro disjI2 exI [of _ "[]"] exI [of _ u] exI [of _ us]) (simp add: nghttp2_pq_top_def pq_size_def)
  qed
qed simp

lemma upt_split: "[0..<n] = xs @ u # ys \<Longrightarrow> set xs = {0..<u} \<and> u < n"
proof -
  assume eq: "[0..<n] = xs @ u # ys"
  have len: "length xs < n" using arg_cong [OF eq, of length] by simp
  have "xs = take (length xs) [0..<n]" "u = [0..<n] ! length xs" by (simp_all add: eq)
  then have u: "u = length xs" and "xs = [0..<u]" using len by (simp_all add: take_upt)
  have "set xs = set [0..<u]" using \<open>xs = [0..<u]\<close> by (rule arg_cong)
  then show ?thesis using u len by simp
qed

text \<open>The stream a session sends from next: it is queued, has an item, is not deferred, and no queued
  stream has a lower urgency value or, at the same urgency, comes before it.\<close>

definition sched_choice :: "session \<Rightarrow> nat \<Rightarrow> bool" where
  "sched_choice s t =
     (let T = s_streams s t in
      st_queued T \<and> stream_ready T \<and> session_sched_get_next_outbound_item s = st_item T \<and>
      (\<forall>e. st_queued (s_streams s e) \<longrightarrow> stream_urgency T < stream_urgency (s_streams s e) \<or>
        (stream_urgency T = stream_urgency (s_streams s e) \<and> \<not> stream_less (s_streams s e) T)))"

lemma sched_choice_top:
  assumes inv: "sched_inv s" and u: "u < NGHTTP2_EXTPRI_URGENCY_LEVELS" and low: "\<And>v. v < u \<Longrightarrow> pq_q (level s v) = []"
    and ne: "pq_q (level s u) \<noteq> []"
    and item: "session_sched_get_next_outbound_item s = st_item (s_streams s (pq_q (level s u) ! 0))"
  shows "sched_choice s (pq_q (level s u) ! 0)"
proof -
  note D = sched_invD [OF inv] and O = sched_okD [OF sched_invD(1) [OF inv]]
  define t where "t = pq_q (level s u) ! 0"
  have t: "st_queued (s_streams s t)" "stream_urgency (s_streams s t) = u"
    using O(3) [OF u, of t] ne by (simp_all add: t_def)
  have qk: "pq_ok stream_less (level s u)" "pq_in (window (pq_get_first_cycle (level s u))) (level s u)"
    using O(2) [OF u] by (simp_all add: queue_ok_def)
  have least: "\<not> stream_less (s_streams s e) (s_streams s t)" if "e \<in> set (pq_q (level s u))" for e
    using win.top_ok [OF qk] ne that by (auto simp: nghttp2_pq_top_def pq_size_def t_def)
  have "u < stream_urgency (s_streams s e) \<or> (u = stream_urgency (s_streams s e) \<and> \<not> stream_less (s_streams s e) (s_streams s t))"
    if e: "st_queued (s_streams s e)" for e
  proof (cases "stream_urgency (s_streams s e) = u")
    case True
    then show ?thesis using least [of e] O(3) [OF u, of e] e by simp
  next
    case False
    have "stream_urgency (s_streams s e) \<ge> u"
      using low [of "stream_urgency (s_streams s e)"] O(3) [OF O(4) [OF e], of e] e by (intro leI) auto
    then show ?thesis using False by simp
  qed
  then show ?thesis
    using t D(3) [OF t(1)] item [folded t_def] by (simp add: sched_choice_def Let_def t_def [symmetric, unfolded level_simps] t_def [symmetric])
qed

text \<open>C18. In every state the session code can reach, the scheduler picks the right frame: nothing when no
  stream is queued, and otherwise the item of a ready stream of the most urgent level, the one with
  the earliest virtual time there and the lowest sequence number among those.\<close>

theorem sched_picks_first:
  assumes "sched_reach s"
  shows "(session_sched_empty s \<and> session_sched_get_next_outbound_item s = None \<and> {e. st_queued (s_streams s e)} = {}) \<or>
    (\<not> session_sched_empty s \<and> Ex (sched_choice s))"
proof -
  have inv: "sched_inv s" by (rule sched_reach_inv [OF assms])
  note O = sched_okD [OF sched_invD(1) [OF inv]]
  have empty: "session_sched_empty s \<longleftrightarrow> (\<forall>u < NGHTTP2_EXTPRI_URGENCY_LEVELS. pq_q (level s u) = [])"
    by (auto simp: session_sched_empty_def list_all_iff pq_empty_def pq_size_def)
  from next_item_from_spec [of s "[0..<NGHTTP2_EXTPRI_URGENCY_LEVELS]"] show ?thesis
  proof (elim disjE exE conjE)
    assume n: "next_item_from s [0..<NGHTTP2_EXTPRI_URGENCY_LEVELS] = None"
      "\<forall>u \<in> set [0..<NGHTTP2_EXTPRI_URGENCY_LEVELS]. pq_q (level s u) = []"
    have "\<not> st_queued (s_streams s e)" for e using O(4) [of e] O(3) [of _ e] n(2) by fastforce
    then show ?thesis using n empty by (simp add: session_sched_get_next_outbound_item_def)
  next
    fix xs u ys
    assume split: "[0..<NGHTTP2_EXTPRI_URGENCY_LEVELS] = xs @ u # ys" and before: "\<forall>v \<in> set xs. pq_q (level s v) = []"
      and ne: "pq_q (level s u) \<noteq> []"
      and item: "next_item_from s [0..<NGHTTP2_EXTPRI_URGENCY_LEVELS] = st_item (s_streams s (pq_q (level s u) ! 0))"
    have u: "u < NGHTTP2_EXTPRI_URGENCY_LEVELS" and low: "\<And>v. v < u \<Longrightarrow> pq_q (level s v) = []"
      using upt_split [OF split] before by auto
    have "sched_choice s (pq_q (level s u) ! 0)"
      by (rule sched_choice_top [OF inv u low ne item [folded session_sched_get_next_outbound_item_def]])
    then show ?thesis using ne u empty by blast
  qed
qed

text \<open>C7. In every state the session code can reach, each level is a heap in which every stream knows its
  position, all virtual times of a level lie within one maximal frame length of its first, so that
  the wrapping comparison is an order, and a stream is in the queue of its urgency exactly when its
  flag says so, then with an item to send and not deferred.\<close>

theorem sched_invariant:
  assumes "sched_reach s"
  shows "sched_inv s"
  by (rule sched_reach_inv [OF assms])

text \<open>C30. No assertion of the scheduling code can fail, though its callers check only part of what it
  asserts: that a stream to be resumed is in no queue, that a stream without an item has no
  deferred flag, and that a queued stream has an item follows from what the operations before
  have done. Every operation returns, the re-queueing of a stream that has sent a frame even when
  no memory is left.\<close>

theorem sched_no_abort:
  assumes "sched_reach s" and "sched_allowed op s"
  shows "sched_exec op s \<noteq> None"
  using sched_exec_goes [OF sched_reach_inv [OF assms(1)] assms(2)] by (auto simp: sched_goes_def)

text \<open>A stream that has sent a frame gives way to the streams of its level that were less than the
  length of the frame behind it.\<close>

definition waits_behind :: "session \<Rightarrow> nat \<Rightarrow> 32 word \<Rightarrow> nat \<Rightarrow> bool" where
  "waits_behind s sid len e =
     (st_queued (s_streams s e) \<and> stream_urgency (s_streams s e) = stream_urgency (s_streams s sid) \<and> e \<noteq> sid \<and>
      st_cycle (s_streams s e) - st_cycle (s_streams s sid) < ucast len)"

text \<open>C31. Fairness of the incremental streams on a server: after a stream has sent a frame of \<open>len\<close> bytes,
  every other queued stream of its level whose virtual time was less than \<open>len\<close> ahead comes before it.\<close>

theorem sched_gives_way:
  assumes reach: "sched_reach s" and allowed: "sched_allowed (Sent mem_ok sid len) s" and server: "s_server s"
    and inc: "nghttp2_extpri_uint8_inc (st_extpri (s_streams s sid))" and e: "waits_behind s sid len e"
    and exec: "sched_exec (Sent mem_ok sid len) s = Some s'"
  shows "stream_less (s_streams s' e) (s_streams s' sid)"
proof -
  have inv: "sched_inv s" by (rule sched_reach_inv [OF reach])
  note D = sched_invD [OF inv] and O = sched_okD [OF sched_invD(1) [OF inv]]
  define u where "u = stream_urgency (s_streams s sid)"
  define c where "c = st_cycle (s_streams s sid)"
  define d where "d = st_cycle (s_streams s e) - c"
  define first where "first = pq_get_first_cycle (level s u)"
  define a where "a = c - first"
  have q: "st_queued (s_streams s sid)" and len: "len \<le> 0xffffff" and gap: "a + ucast len \<le> NGHTTP2_STREAM_MAX_CYCLE_GAP"
    using allowed by (simp_all add: c_def u_def a_def first_def)
  have u: "u < NGHTTP2_EXTPRI_URGENCY_LEVELS" using D(2) by (simp add: u_def)
  have mem: "sid \<in> set (pq_q (level s u))" "e \<in> set (pq_q (level s u))"
    using O(3) [OF u] q e by (simp_all add: u_def waits_behind_def)
  have "pq_size (level s u) \<noteq> 1"
    using mem e by (auto simp: pq_size_def length_Suc_conv waits_behind_def)
  then have sent: "sent_stream s sid len = (s_streams s sid)\<lparr>st_last_writelen := len, st_cycle := c + ucast len\<rparr>"
    using server inc by (simp add: sent_stream_def Let_def u_def c_def)
  obtain s2 where "sched_exec (Sent mem_ok sid len) s = Some s2"
    "s_streams s2 = (s_streams s)(sid := sent_stream s sid len)"
    by (rule sent_ok [OF inv allowed]) simp
  then have streams: "s_streams s' sid = sent_stream s sid len" "s_streams s' e = s_streams s e"
    using exec e by (auto simp: waits_behind_def)
  have in_e: "s_streams s' e \<in> window first"
    using O(2) [OF u] mem(2) streams by (simp add: queue_ok_def pq_in_def first_def)
  have cyc: "st_cycle (s_streams s' sid) - first = a + ucast len" "st_cycle (s_streams s' e) - first = a + d"
    by (simp_all add: streams sent a_def d_def)
  have in_s: "s_streams s' sid \<in> window first" using gap by (simp add: window_def cyc)
  have sid_in: "s_streams s sid \<in> window first"
    using O(2) [OF u] mem(1) by (simp add: queue_ok_def pq_in_def first_def)
  have l: "unat (ucast len :: 64 word) \<le> 16777215"
    using writelen_window [OF len, of 0] by (simp add: word_le_nat_alt gap_unat)
  have a: "unat a \<le> 16777215" using sid_in by (simp add: window_def a_def c_def word_le_nat_alt gap_unat)
  have d: "unat d < unat (ucast len :: 64 word)"
    using e by (simp add: waits_behind_def d_def c_def word_less_nat_alt)
  have "unat (a + d) = unat a + unat d" "unat (a + ucast len) = unat a + unat (ucast len :: 64 word)"
    using a d l by (subst unat_add_lem [THEN iffD1]; simp)+
  then have "a + d < a + ucast len" using d by (simp add: word_less_nat_alt)
  then show ?thesis unfolding stream_less_window [OF in_e in_s] cyc by simp
qed

section \<open>A run\<close>

text \<open>Two incremental streams of urgency 3 on a server, both with a frame to send.\<close>

fun sched_run :: "sched_op list \<Rightarrow> session \<Rightarrow> session option" where
  "sched_run [] s = Some s"
| "sched_run (op # ops) s =
     (if sched_allowed op s then (case sched_exec op s of None \<Rightarrow> None | Some s' \<Rightarrow> sched_run ops s') else None)"

lemma run_reach: "sched_run ops s = Some s' \<Longrightarrow> sched_reach s \<Longrightarrow> sched_reach s'"
  by (induction ops s rule: sched_run.induct) (auto split: if_splits option.splits intro: sched_step)

definition demo_ops :: "sched_op list" where
  "demo_ops = [Open 1 0, Open 3 0, Prio True 1 0x83, Prio True 3 0x83, Attach True 1 10, Attach True 3 11]"

definition demo_s :: session where
  "demo_s = (case sched_run demo_ops (session_start True) of None \<Rightarrow> session_start True | Some s \<Rightarrow> s)"

lemma demo_reach: "sched_reach demo_s"
proof (cases "sched_run demo_ops (session_start True)")
  case None
  then show ?thesis using sched_init by (simp add: demo_s_def)
next
  case (Some s)
  then show ?thesis using run_reach [OF Some sched_init] by (simp add: demo_s_def)
qed

lemma demo_allowed: "sched_allowed (Sent False 1 100) demo_s"
  by code_simp

lemma sched_picks_first_witness:
  "(session_sched_empty demo_s \<and> session_sched_get_next_outbound_item demo_s = None \<and> {e. st_queued (s_streams demo_s e)} = {}) \<or>
    (\<not> session_sched_empty demo_s \<and> Ex (sched_choice demo_s))"
  by (rule sched_picks_first [OF demo_reach])

lemma sched_invariant_witness: "sched_inv demo_s"
  by (rule sched_invariant [OF demo_reach])

text \<open>The first of the two streams deferred by the application, and resumed.\<close>

definition demo_deferred :: session where
  "demo_deferred = (case sched_run (demo_ops @ [Defer 1 0x08]) (session_start True) of
     None \<Rightarrow> session_start True | Some s \<Rightarrow> s)"

lemma demo_deferred_reach: "sched_reach demo_deferred"
proof (cases "sched_run (demo_ops @ [Defer 1 0x08]) (session_start True)")
  case None
  then show ?thesis using sched_init by (simp add: demo_deferred_def)
next
  case (Some s)
  then show ?thesis using run_reach [OF Some sched_init] by (simp add: demo_deferred_def)
qed

lemma sched_no_abort_witness: "sched_exec (Resume True 1 0x08) demo_deferred \<noteq> None"
  by (rule sched_no_abort [OF demo_deferred_reach]) code_simp

lemma sched_gives_way_witness:
  "stream_less (s_streams (the (sched_exec (Sent False 1 100) demo_s)) 3) (s_streams (the (sched_exec (Sent False 1 100) demo_s)) 1)"
proof (rule sched_gives_way [OF demo_reach demo_allowed])
  show "s_server demo_s" by code_simp
  show "nghttp2_extpri_uint8_inc (st_extpri (s_streams demo_s 1))" by code_simp
  show "waits_behind demo_s 1 100 3" by code_simp
  show "sched_exec (Sent False 1 100) demo_s = Some (the (sched_exec (Sent False 1 100) demo_s))"
    using sched_exec_goes [OF sched_reach_inv [OF demo_reach] demo_allowed] by (auto simp: sched_goes_def)
qed

text \<open>There are only 256 priorities.\<close>

lemma extpri_all:
  "list_all (\<lambda>n. list_all (\<lambda>b. nghttp2_extpri_from_uint8 (nghttp2_extpri_to_uint8 \<lparr>ep_urgency = word_of_nat n, ep_inc = b\<rparr>) =
     \<lparr>ep_urgency = word_of_nat n, ep_inc = b\<rparr>) [True, False]) [0..<128]"
  by code_simp

text \<open>Coding a priority as one byte and reading it back gives the same priority for every urgency that
  fits in seven bits.\<close>

theorem extpri_roundtrip:
  assumes "ep_urgency p < 128"
  shows "nghttp2_extpri_from_uint8 (nghttp2_extpri_to_uint8 p) = p"
proof -
  define n where "n = unat (ep_urgency p)"
  have "n < 128" using assms by (simp add: n_def word_less_nat_alt)
  then have "list_all (\<lambda>b. nghttp2_extpri_from_uint8 (nghttp2_extpri_to_uint8 \<lparr>ep_urgency = word_of_nat n, ep_inc = b\<rparr>) =
      \<lparr>ep_urgency = word_of_nat n, ep_inc = b\<rparr>) [True, False]"
    using extpri_all unfolding list_all_iff by simp
  then have "nghttp2_extpri_from_uint8 (nghttp2_extpri_to_uint8 \<lparr>ep_urgency = ep_urgency p, ep_inc = ep_inc p\<rparr>) =
      \<lparr>ep_urgency = ep_urgency p, ep_inc = ep_inc p\<rparr>"
    by (cases "ep_inc p") (simp_all add: n_def)
  then show ?thesis by (cases p) simp
qed

lemma extpri_roundtrip_witness:
  "nghttp2_extpri_from_uint8 (nghttp2_extpri_to_uint8 \<lparr>ep_urgency = 5, ep_inc = True\<rparr>) = \<lparr>ep_urgency = 5, ep_inc = True\<rparr>"
  by (rule extpri_roundtrip) simp

end
