(* ===== verification/NMap.thy ===== *)
theory NMap
  imports Pq
begin

text \<open>
  The hash map \<^verbatim>\<open>nghttp2_map.c\<close> that an HTTP/2 session finds its streams with: open addressing with
  Robin Hood probing, backward-shift deletion and doubling at a load of three quarters. Buckets are
  records, the empty bucket has no data; \<open>nghttp2_mem_calloc\<close> answers from an argument. The probing
  loops have no exit of their own but a free bucket, so they are partial functions, and that they
  end is proved. Table lengths stay below the address space, so lengths, indices and probe
  distances are natural numbers.
\<close>

unbundle bit_operations_syntax

section \<open>The code\<close>

type_synonym map_key = u32

record 'd map_bucket =
  psl :: nat
  bkt_key :: map_key
  bkt_data :: "'d option"

record 'd nghttp2_map =
  map_table :: "'d map_bucket list"
  map_size :: nat
  hashbits :: nat

definition NGHTTP2_INITIAL_TABLE_LENBITS :: nat where "NGHTTP2_INITIAL_TABLE_LENBITS = 4"
definition NGHTTP2_ERR_INVALID_ARGUMENT :: int where "NGHTTP2_ERR_INVALID_ARGUMENT = - 501"

definition nghttp2_map_init :: "'d nghttp2_map" where
  "nghttp2_map_init = \<lparr>map_table = [], map_size = 0, hashbits = 0\<rparr>"

definition hash :: "map_key \<Rightarrow> nat \<Rightarrow> nat" where
  "hash k bits = unat (drop_bit (32 - bits) (k * 2654435769))"

definition empty_bucket :: "'d map_bucket" where
  "empty_bucket = \<lparr>psl = 0, bkt_key = 0, bkt_data = None\<rparr>"

text \<open>The loop of \<^verbatim>\<open>insert\<close>: \<open>b\<close> is the bucket in hand, \<open>k\<close> the key of the call.\<close>

partial_function (option) insert_loop ::
  "nat \<Rightarrow> map_key \<Rightarrow> nat \<Rightarrow> 'd map_bucket \<Rightarrow> 'd map_bucket list \<Rightarrow> (int \<times> 'd map_bucket list) option" where
  "insert_loop msk k idx b table =
     (let bkt = table ! idx in
      if bkt_data bkt = None then Some (0, table[idx := b])
      else if psl b > psl bkt
      then insert_loop msk k ((idx + 1) AND msk) (bkt\<lparr>psl := psl bkt + 1\<rparr>) (table[idx := b])
      else if bkt_key bkt = k then Some (NGHTTP2_ERR_INVALID_ARGUMENT, table)
      else insert_loop msk k ((idx + 1) AND msk) (b\<lparr>psl := psl b + 1\<rparr>) table)"

definition insert_bucket ::
  "'d map_bucket list \<Rightarrow> nat \<Rightarrow> map_key \<Rightarrow> 'd \<Rightarrow> (int \<times> 'd map_bucket list) option" where
  "insert_bucket table bits k dat =
     insert_loop (2 ^ bits - 1) k (hash k bits) \<lparr>psl = 0, bkt_key = k, bkt_data = Some dat\<rparr> table"

text \<open>\<^verbatim>\<open>map_resize\<close> moves every bucket into the new table and asserts that this works.\<close>

fun rehash :: "nat \<Rightarrow> 'd map_bucket list \<Rightarrow> 'd map_bucket list \<Rightarrow> 'd map_bucket list option" where
  "rehash bits [] new_table = Some new_table"
| "rehash bits (bkt # bkts) new_table =
     (case bkt_data bkt of
        None \<Rightarrow> rehash bits bkts new_table
      | Some dat \<Rightarrow>
          (case insert_bucket new_table bits (bkt_key bkt) dat of
             None \<Rightarrow> None
           | Some (rv, t) \<Rightarrow> if rv = 0 then rehash bits bkts t else None))"

definition map_resize :: "bool \<Rightarrow> nat \<Rightarrow> 'd nghttp2_map \<Rightarrow> (int \<times> 'd nghttp2_map) option" where
  "map_resize mem_ok new_hashbits m =
     (if \<not> mem_ok then Some (NGHTTP2_ERR_NOMEM, m)
      else
        (case (if map_size m \<noteq> 0 then rehash new_hashbits (map_table m) (replicate (2 ^ new_hashbits) empty_bucket)
               else Some (replicate (2 ^ new_hashbits) empty_bucket)) of
           None \<Rightarrow> None
         | Some t \<Rightarrow> Some (0, m\<lparr>hashbits := new_hashbits, map_table := t\<rparr>)))"

definition nghttp2_map_insert :: "bool \<Rightarrow> map_key \<Rightarrow> 'd \<Rightarrow> 'd nghttp2_map \<Rightarrow> (int \<times> 'd nghttp2_map) option" where
  "nghttp2_map_insert mem_ok k dat m =
     (case (if (map_size m + 1) * 4 > 2 ^ hashbits m * 3
            then map_resize mem_ok (if hashbits m \<noteq> 0 then hashbits m + 1 else NGHTTP2_INITIAL_TABLE_LENBITS) m
            else Some (0, m)) of
        None \<Rightarrow> None
      | Some (rv, m1) \<Rightarrow>
          if rv \<noteq> 0 then Some (rv, m1)
          else
            (case insert_bucket (map_table m1) (hashbits m1) k dat of
               None \<Rightarrow> None
             | Some (rv2, t) \<Rightarrow>
                 Some (rv2, if rv2 \<noteq> 0 then m1\<lparr>map_table := t\<rparr> else m1\<lparr>map_table := t, map_size := map_size m1 + 1\<rparr>)))"

text \<open>The search loop of \<^verbatim>\<open>nghttp2_map_find\<close> and \<^verbatim>\<open>nghttp2_map_remove\<close>: the index of the key.\<close>

partial_function (option) find_loop ::
  "nat \<Rightarrow> 'd map_bucket list \<Rightarrow> map_key \<Rightarrow> nat \<Rightarrow> nat \<Rightarrow> nat option option" where
  "find_loop msk table k idx d =
     (let bkt = table ! idx in
      if bkt_data bkt = None \<or> d > psl bkt then Some None
      else if bkt_key bkt = k then Some (Some idx)
      else find_loop msk table k ((idx + 1) AND msk) (d + 1))"

definition nghttp2_map_find :: "'d nghttp2_map \<Rightarrow> map_key \<Rightarrow> 'd option option" where
  "nghttp2_map_find m k =
     (if map_size m = 0 then Some None
      else
        (case find_loop (2 ^ hashbits m - 1) (map_table m) k (hash k (hashbits m)) 0 of
           None \<Rightarrow> None
         | Some None \<Rightarrow> Some None
         | Some (Some idx) \<Rightarrow> Some (bkt_data (map_table m ! idx))))"

text \<open>Backward shift: \<open>b\<close> is the bucket to fill, \<open>idx\<close> the next one.\<close>

partial_function (option) shift_loop :: "nat \<Rightarrow> nat \<Rightarrow> nat \<Rightarrow> 'd map_bucket list \<Rightarrow> 'd map_bucket list option" where
  "shift_loop msk b idx table =
     (let bkt = table ! idx in
      if bkt_data bkt = None \<or> psl bkt = 0 then Some (table[b := (table ! b)\<lparr>bkt_data := None\<rparr>])
      else
        (let bkt1 = bkt\<lparr>psl := psl bkt - 1\<rparr> in
         shift_loop msk idx ((idx + 1) AND msk) (table[idx := bkt1, b := bkt1])))"

definition nghttp2_map_remove :: "map_key \<Rightarrow> 'd nghttp2_map \<Rightarrow> (int \<times> 'd nghttp2_map) option" where
  "nghttp2_map_remove k m =
     (if map_size m = 0 then Some (NGHTTP2_ERR_INVALID_ARGUMENT, m)
      else
        (let msk = 2 ^ hashbits m - 1 in
         case find_loop msk (map_table m) k (hash k (hashbits m)) 0 of
           None \<Rightarrow> None
         | Some None \<Rightarrow> Some (NGHTTP2_ERR_INVALID_ARGUMENT, m)
         | Some (Some i) \<Rightarrow>
             map_option (\<lambda>t. (0, m\<lparr>map_table := t, map_size := map_size m - 1\<rparr>))
               (shift_loop msk i ((i + 1) AND msk) (map_table m))))"

definition nghttp2_map_clear :: "'d nghttp2_map \<Rightarrow> 'd nghttp2_map" where
  "nghttp2_map_clear m =
     (if map_size m = 0 then m
      else m\<lparr>map_table := replicate (2 ^ hashbits m) empty_bucket, map_size := 0\<rparr>)"

definition nghttp2_map_size :: "'d nghttp2_map \<Rightarrow> nat" where "nghttp2_map_size m = map_size m"

text \<open>The callback gets the data and the user's state.\<close>

fun each_loop :: "('d \<Rightarrow> 's \<Rightarrow> int \<times> 's) \<Rightarrow> 'd map_bucket list \<Rightarrow> 's \<Rightarrow> int \<times> 's" where
  "each_loop func [] s = (0, s)"
| "each_loop func (bkt # bkts) s =
     (case bkt_data bkt of
        None \<Rightarrow> each_loop func bkts s
      | Some dat \<Rightarrow> (case func dat s of (rv, s1) \<Rightarrow> if rv \<noteq> 0 then (rv, s1) else each_loop func bkts s1))"

definition nghttp2_map_each :: "'d nghttp2_map \<Rightarrow> ('d \<Rightarrow> 's \<Rightarrow> int \<times> 's) \<Rightarrow> 's \<Rightarrow> int \<times> 's" where
  "nghttp2_map_each m func s = (if map_size m = 0 then (0, s) else each_loop func (map_table m) s)"

section \<open>Robin Hood tables\<close>

definition occ :: "'d map_bucket \<Rightarrow> bool" where "occ b \<longleftrightarrow> bkt_data b \<noteq> None"

lemma occ_simps [simp]: "bkt_data b = None \<longleftrightarrow> \<not> occ b" "occ (b\<lparr>psl := x\<rparr>) = occ b" "\<not> occ (b\<lparr>bkt_data := None\<rparr>)"
  "\<not> occ empty_bucket" "occ \<lparr>psl = p, bkt_key = k, bkt_data = v\<rparr> \<longleftrightarrow> v \<noteq> None"
  by (simp_all add: occ_def empty_bucket_def)

definition entry :: "'d map_bucket \<Rightarrow> map_key \<times> 'd" where
  "entry b = (bkt_key b, the (bkt_data b))"

definition entries :: "'d map_bucket list \<Rightarrow> (map_key \<times> 'd) set" where
  "entries T = entry ` {b \<in> set T. occ b}"

text \<open>The entries outside the bucket \<open>j\<close>.\<close>

definition others :: "'d map_bucket list \<Rightarrow> nat \<Rightarrow> (map_key \<times> 'd) set" where
  "others T j = {entry (T ! i) | i. i < length T \<and> i \<noteq> j \<and> occ (T ! i)}"

lemma entry_psl [simp]: "entry (b\<lparr>psl := x\<rparr>) = entry b"
  by (simp add: entry_def)

lemma entries_others: "j < length T \<Longrightarrow> entries T = others T j \<union> (if occ (T ! j) then {entry (T ! j)} else {})"
  by (auto simp: entries_def others_def in_set_conv_nth image_iff)

lemma others_update [simp]: "others (T[j := b]) j = others T j"
  unfolding others_def by (rule Collect_cong) (metis length_list_update nth_list_update_neq)

lemma fst_entry [simp]: "fst (entry b) = bkt_key b"
  by (simp add: entry_def)

lemma keys_others: "k \<in> fst ` others T j \<longleftrightarrow> (\<exists>i<length T. i \<noteq> j \<and> occ (T ! i) \<and> bkt_key (T ! i) = k)"
  unfolding others_def image_def by (auto simp: entry_def)

lemma entries_update:
  "j < length T \<Longrightarrow> occ b \<Longrightarrow> entries (T[j := b]) = insert (entry b) (others T j)"
  using entries_others [of j "T[j := b]"] by simp

text \<open>\<open>home\<close> is the hash function of a table of \<open>n\<close> buckets.\<close>

locale probing =
  fixes home :: "map_key \<Rightarrow> nat" and bits :: nat
  assumes home_less: "home k < 2 ^ bits"
begin

abbreviation n :: nat where "n \<equiv> 2 ^ bits"
abbreviation at :: "'d map_bucket list \<Rightarrow> nat \<Rightarrow> 'd map_bucket" where "at T i \<equiv> T ! (i mod n)"

lemma next_index: "(i mod n + 1) AND (n - 1) = (i + 1) mod n"
proof -
  have "(i mod n + 1) AND (n - 1) = take_bit bits (i mod n + 1)" by (simp add: take_bit_eq_mask mask_eq_exp_minus_1)
  then show ?thesis by (simp add: take_bit_eq_mod mod_simps)
qed

text \<open>A bucket that is not at home follows one that is at most one step closer to its own home.\<close>

definition chain :: "'d map_bucket list \<Rightarrow> bool" where
  "chain T \<longleftrightarrow> (\<forall>i. occ (at T (i + 1)) \<and> 0 < psl (at T (i + 1)) \<longrightarrow> occ (at T i) \<and> psl (at T (i + 1)) \<le> psl (at T i) + 1)"

definition placed :: "'d map_bucket list \<Rightarrow> bool" where
  "placed T \<longleftrightarrow> (\<forall>i<n. occ (T ! i) \<longrightarrow> (home (bkt_key (T ! i)) + psl (T ! i)) mod n = i)"

definition unique :: "'d map_bucket list \<Rightarrow> bool" where
  "unique T \<longleftrightarrow> (\<forall>i<n. \<forall>j<n. occ (T ! i) \<and> occ (T ! j) \<and> bkt_key (T ! i) = bkt_key (T ! j) \<longrightarrow> i = j)"

definition rh :: "'d map_bucket list \<Rightarrow> bool" where
  "rh T \<longleftrightarrow> length T = n \<and> chain T \<and> placed T \<and> unique T"

lemma at_update: "length T = n \<Longrightarrow> at (T[j mod n := b]) i = (if i mod n = j mod n then b else at T i)"
  by (simp add: nth_list_update)

lemma shift_mod: "0 < t \<Longrightarrow> t < n \<Longrightarrow> (j + t) mod n \<noteq> j mod n"
  using mod_eq_dvd_iff_nat [of j "j + t" n] dvd_imp_le [of n t] by auto

lemma succ_mod: "(i + 1) mod n = (j + 1) mod n \<longleftrightarrow> i mod n = j mod n"
  using mod_eq_dvd_iff_nat [of i j n] mod_eq_dvd_iff_nat [of "i + 1" "j + 1" n]
    mod_eq_dvd_iff_nat [of j i n] mod_eq_dvd_iff_nat [of "j + 1" "i + 1" n]
  by (cases "i \<le> j") auto

lemma run:
  assumes "chain T" "t \<le> d" "occ (at T (a + d))" "d \<le> psl (at T (a + d))"
  shows "occ (at T (a + t)) \<and> t \<le> psl (at T (a + t))"
  using assms(2)
proof (induction t rule: inc_induct)
  case (step t)
  then show ?case using assms(1) [unfolded chain_def, rule_format, of "a + t"] by auto
qed (use assms in simp)

lemma reach_slot: "\<exists>D<n. (j + D) mod n = e mod n"
proof -
  have "(j + ((e + (n - 1) * j) mod n)) mod n = (j + (e + (n - 1) * j)) mod n" by (simp add: mod_simps)
  also have "j + (e + (n - 1) * j) = e + n * j"
    by (metis add.assoc add.commute add.left_commute le_add_diff_inverse mult_Suc one_le_numeral one_le_power plus_1_eq_Suc)
  finally have "(j + ((e + (n - 1) * j) mod n)) mod n = e mod n" by simp
  then show ?thesis by (intro exI [of _ "(e + (n - 1) * j) mod n"]) simp
qed

section \<open>Search\<close>

lemma find_hit:
  assumes "rh T" "i < n" "occ (T ! i)" "bkt_key (T ! i) = k" "t \<le> psl (T ! i)"
  shows "find_loop (n - 1) T k ((home k + t) mod n) t = Some (Some i)"
  using assms(5)
proof (induction t rule: inc_induct)
  case base
  have "(home k + psl (T ! i)) mod n = i" using assms by (auto simp: rh_def placed_def)
  then show ?case using assms(3,4) by (subst find_loop.simps) (simp add: Let_def)
next
  case (step t)
  have i: "(home k + psl (T ! i)) mod n = i" using assms by (auto simp: rh_def placed_def)
  have o: "occ (at T (home k + t))" "t \<le> psl (at T (home k + t))"
    using run [of T t "psl (T ! i)" "home k"] assms(1,3) step i by (auto simp: rh_def)
  have "bkt_key (at T (home k + t)) = k \<Longrightarrow> (home k + t) mod n = i"
    using assms o by (auto simp: rh_def unique_def)
  then show ?case using step.IH o next_index [of "home k + t"] by (subst find_loop.simps) (auto simp: Let_def)
qed

lemma find_miss:
  assumes "\<And>i. i < n \<Longrightarrow> occ (T ! i) \<Longrightarrow> bkt_key (T ! i) \<noteq> k" and "\<not> occ (at T (j + D))"
  shows "find_loop (n - 1) T k (j mod n) d = Some None"
  using assms(2)
proof (induction D arbitrary: j d)
  case 0
  then show ?case by (subst find_loop.simps) simp
next
  case (Suc D)
  have "find_loop (n - 1) T k ((j + 1) mod n) (d + 1) = Some None" by (rule Suc.IH) (use Suc.prems in simp)
  then show ?case using assms(1) [of "j mod n"] next_index [of j] by (subst find_loop.simps) (auto simp: Let_def)
qed

section \<open>Insertion\<close>

lemma insert_dup:
  assumes "rh T" "i < n" "occ (T ! i)" "bkt_key (T ! i) = k" "t \<le> psl (T ! i)" "psl b = t"
  shows "insert_loop (n - 1) k ((home k + t) mod n) b T = Some (NGHTTP2_ERR_INVALID_ARGUMENT, T)"
  using assms(5,6)
proof (induction t arbitrary: b rule: inc_induct)
  case base
  have "(home k + psl (T ! i)) mod n = i" using assms by (auto simp: rh_def placed_def)
  then show ?case using assms(3,4) base by (subst insert_loop.simps) (simp add: Let_def)
next
  case (step t)
  have i: "(home k + psl (T ! i)) mod n = i" using assms by (auto simp: rh_def placed_def)
  have o: "occ (at T (home k + t))" "t \<le> psl (at T (home k + t))"
    using run [of T t "psl (T ! i)" "home k"] assms(1,3) step i by (auto simp: rh_def)
  have "insert_loop (n - 1) k ((home k + Suc t) mod n) (b\<lparr>psl := psl b + 1\<rparr>) T = Some (NGHTTP2_ERR_INVALID_ARGUMENT, T)"
    by (rule step.IH) (simp add: step.prems)
  then show ?case using o step.prems next_index [of "home k + t"] by (subst insert_loop.simps) (auto simp: Let_def)
qed

text \<open>The bucket \<open>b\<close> may stand at \<open>j\<close>.\<close>

definition fits :: "'d map_bucket list \<Rightarrow> nat \<Rightarrow> 'd map_bucket \<Rightarrow> bool" where
  "fits T j b \<longleftrightarrow> occ b \<and> (home (bkt_key b) + psl b) mod n = j mod n \<and>
     (\<forall>i. (i + 1) mod n = j mod n \<and> 0 < psl b \<longrightarrow> occ (at T i) \<and> psl b \<le> psl (at T i) + 1)"

lemma fresh_others:
  "length T = n \<Longrightarrow> k \<notin> fst ` others T j \<Longrightarrow> i < n \<Longrightarrow> i \<noteq> j \<Longrightarrow> occ (T ! i) \<Longrightarrow> bkt_key (T ! i) \<noteq> k"
  by (auto simp: keys_others)

lemma unique_others:
  assumes "length T = n" "unique T" "occ (at T j)"
  shows "bkt_key (at T j) \<notin> fst ` others T (j mod n)"
  using assms(2) [unfolded unique_def, rule_format, of _ "j mod n"] assms(1,3) by (auto simp: keys_others)

lemma chain_store:
  assumes len: "length T = n" and c: "chain T" and f: "fits T j b" and p: "occ (at T j) \<longrightarrow> psl (at T j) \<le> psl b"
  shows "chain (T[j mod n := b])"
  unfolding chain_def at_update [OF len]
proof (intro allI impI)
  fix i
  assume a: "occ (if (i + 1) mod n = j mod n then b else at T (i + 1)) \<and> 0 < psl (if (i + 1) mod n = j mod n then b else at T (i + 1))"
  note ci = c [unfolded chain_def, rule_format, of i]
  show "occ (if i mod n = j mod n then b else at T i) \<and>
    psl (if (i + 1) mod n = j mod n then b else at T (i + 1)) \<le> psl (if i mod n = j mod n then b else at T i) + 1"
  proof (cases "(i + 1) mod n = j mod n")
    case True
    then have "occ (at T i) \<and> psl b \<le> psl (at T i) + 1"
      using a f [unfolded fits_def, THEN conjunct2, THEN conjunct2, rule_format, of i] by simp
    then show ?thesis using True f by (simp add: fits_def)
  next
    case False
    then have q: "occ (at T i)" "psl (at T (i + 1)) \<le> psl (at T i) + 1" using a ci by auto
    show ?thesis
    proof (cases "i mod n = j mod n")
      case True
      then have "at T i = at T j" by simp
      then show ?thesis using False True q p f by (simp add: fits_def)
    next
      case 2: False
      then show ?thesis by (simp only: False 2 if_False simp_thms q)
    qed
  qed
qed

lemma rh_store:
  assumes "rh T" "fits T j b" "bkt_key b \<notin> fst ` others T (j mod n)" "occ (at T j) \<longrightarrow> psl (at T j) \<le> psl b"
  shows "rh (T[j mod n := b])"
proof -
  have len: "length T = n" and c: "chain T" and pl: "placed T" and un: "unique T" using assms(1) by (auto simp: rh_def)
  have nth: "T[j mod n := b] ! i = (if i = j mod n then b else T ! i)" if "i < n" for i
    using that len by (simp add: nth_list_update)
  have "placed (T[j mod n := b])"
    unfolding placed_def
  proof (intro allI impI)
    fix i assume "i < n" "occ (T[j mod n := b] ! i)"
    then show "(home (bkt_key (T[j mod n := b] ! i)) + psl (T[j mod n := b] ! i)) mod n = i"
      using nth [of i] pl [unfolded placed_def, rule_format, of i] assms(2) by (cases "i = j mod n") (simp_all add: fits_def)
  qed
  moreover have "unique (T[j mod n := b])"
    unfolding unique_def
  proof (intro allI impI)
    fix i i' assume "i < n" "i' < n"
      and "occ (T[j mod n := b] ! i) \<and> occ (T[j mod n := b] ! i') \<and> bkt_key (T[j mod n := b] ! i) = bkt_key (T[j mod n := b] ! i')"
    then show "i = i'"
      using nth [of i] nth [of i'] un [unfolded unique_def, rule_format, of i i'] fresh_others [OF len assms(3), of i]
        fresh_others [OF len assms(3), of i']
      by (cases "i = j mod n"; cases "i' = j mod n") simp_all
  qed
  ultimately show ?thesis using chain_store [OF len c assms(2,4)] len by (simp add: rh_def)
qed

lemma fits_moved:
  assumes "fits T j b" "occ c" "(home (bkt_key c) + psl c) mod n = j mod n" "occ (at U j)" "psl c \<le> psl (at U j)"
  shows "fits U (j + 1) (c\<lparr>psl := psl c + 1\<rparr>)"
  unfolding fits_def
proof (intro conjI allI impI)
  show "(home (bkt_key (c\<lparr>psl := psl c + 1\<rparr>)) + psl (c\<lparr>psl := psl c + 1\<rparr>)) mod n = (j + 1) mod n"
    using assms(3) succ_mod [of "home (bkt_key c) + psl c" j] by (simp add: add.assoc)
  fix i
  assume "(i + 1) mod n = (j + 1) mod n \<and> 0 < psl (c\<lparr>psl := psl c + 1\<rparr>)"
  then have "at U i = at U j" using succ_mod [of i j] by simp
  then show "occ (at U i)" "psl (c\<lparr>psl := psl c + 1\<rparr>) \<le> psl (at U i) + 1" using assms by simp_all
qed (use assms in simp)

lemma insert_new:
  assumes "rh T" "fits T j b" "bkt_key b \<notin> fst ` entries T" "D < n" "\<not> occ (at T (j + D))"
    and "\<And>t. t < D \<Longrightarrow> occ (at T (j + t)) \<and> bkt_key (at T (j + t)) \<noteq> k"
  shows "\<exists>T'. insert_loop (n - 1) k (j mod n) b T = Some (0, T') \<and> rh T' \<and> entries T' = insert (entry b) (entries T)"
  using assms
proof (induction D arbitrary: T j b)
  case 0
  have len: "length T = n" using 0 by (simp add: rh_def)
  have e: "entries T = others T (j mod n)" using entries_others [of "j mod n" T] 0 len by simp
  have "rh (T[j mod n := b])" by (rule rh_store) (use 0 e in simp_all)
  moreover have "occ b" using 0(2) by (simp add: fits_def)
  then have "entries (T[j mod n := b]) = insert (entry b) (entries T)" using entries_update [of "j mod n" T b] e len by simp
  ultimately show ?case using 0 by (subst insert_loop.simps) (simp add: Let_def)
next
  case (Suc D)
  have len: "length T = n" and un: "unique T" using Suc.prems(1) by (auto simp: rh_def)
  let ?bkt = "at T j"
  have bkt: "occ ?bkt" "bkt_key ?bkt \<noteq> k" using Suc.prems(6) [of 0] by simp_all
  have b: "occ b" "(home (bkt_key b) + psl b) mod n = j mod n" using Suc.prems(2) by (simp_all add: fits_def)
  have e: "entries T = insert (entry ?bkt) (others T (j mod n))" using entries_others [of "j mod n" T] len bkt by simp
  show ?case
  proof (cases "psl ?bkt < psl b")
    case True
    let ?T = "T[j mod n := b]" and ?b = "?bkt\<lparr>psl := psl ?bkt + 1\<rparr>"
    have r: "rh ?T" by (rule rh_store) (use Suc.prems True e in simp_all)
    have at: "at ?T i = (if i mod n = j mod n then b else at T i)" for i by (rule at_update [OF len])
    have "(home (bkt_key ?bkt) + psl ?bkt) mod n = j mod n" using Suc.prems(1) bkt(1) by (simp add: rh_def placed_def)
    then have f: "fits ?T (j + 1) ?b" using fits_moved [OF Suc.prems(2), of ?bkt ?T] bkt(1) b(1) at True by simp
    have eT: "entries ?T = insert (entry b) (others T (j mod n))" using entries_update [of "j mod n" T b] b(1) len by simp
    have fr: "bkt_key ?b \<notin> fst ` entries ?T" using unique_others [OF len un bkt(1)] Suc.prems(3) e eT by auto
    have ahead: "at ?T (j + 1 + t) = at T (j + Suc t)" if "t \<le> D" for t
      using at shift_mod [of "Suc t" j] that Suc.prems(4) by simp
    have "\<exists>T'. insert_loop (n - 1) k ((j + 1) mod n) ?b ?T = Some (0, T') \<and> rh T' \<and> entries T' = insert (entry ?b) (entries ?T)"
    proof (rule Suc.IH [OF r f fr])
      show "\<not> occ (at ?T (j + 1 + D))" using ahead [of D] Suc.prems(5) by simp
      show "occ (at ?T (j + 1 + t)) \<and> bkt_key (at ?T (j + 1 + t)) \<noteq> k" if "t < D" for t
        using ahead [of t] Suc.prems(6) [of "Suc t"] that by simp
    qed (use Suc.prems(4) in simp)
    moreover have "insert (entry ?b) (entries ?T) = insert (entry b) (entries T)" using e eT by auto
    ultimately show ?thesis using bkt True next_index [of j] by (subst insert_loop.simps) (simp add: Let_def)
  next
    case False
    let ?b = "b\<lparr>psl := psl b + 1\<rparr>"
    have f: "fits T (j + 1) ?b" using fits_moved [OF Suc.prems(2) b, of T] bkt(1) False by simp
    have "\<exists>T'. insert_loop (n - 1) k ((j + 1) mod n) ?b T = Some (0, T') \<and> rh T' \<and> entries T' = insert (entry ?b) (entries T)"
    proof (rule Suc.IH [OF Suc.prems(1) f])
      show "occ (at T (j + 1 + t)) \<and> bkt_key (at T (j + 1 + t)) \<noteq> k" if "t < D" for t
        using Suc.prems(6) [of "Suc t"] that by simp
    qed (use Suc.prems(3-5) in simp_all)
    then show ?thesis using bkt False next_index [of j] by (subst insert_loop.simps) (simp add: Let_def)
  qed
qed

section \<open>Removal\<close>

text \<open>While the hole at \<open>j\<close> is filled: with an occupied bucket \<open>X\<close> in its place the chain is whole.\<close>

definition hole_ok :: "'d map_bucket list \<Rightarrow> nat \<Rightarrow> bool" where
  "hole_ok T j \<longleftrightarrow> length T = n \<and> (\<exists>X. occ X \<and> chain (T[j mod n := X])) \<and>
     (\<forall>i<n. i \<noteq> j mod n \<and> occ (T ! i) \<longrightarrow> (home (bkt_key (T ! i)) + psl (T ! i)) mod n = i) \<and>
     (\<forall>i<n. \<forall>i'<n. i \<noteq> j mod n \<and> i' \<noteq> j mod n \<and> occ (T ! i) \<and> occ (T ! i') \<and> bkt_key (T ! i) = bkt_key (T ! i') \<longrightarrow> i = i')"

lemma hole_len: "hole_ok T j \<Longrightarrow> length T = n"
  unfolding hole_ok_def by (rule conjunct1)

lemma hole_placed:
  "hole_ok T j \<Longrightarrow> i < n \<Longrightarrow> i \<noteq> j mod n \<Longrightarrow> occ (T ! i) \<Longrightarrow> (home (bkt_key (T ! i)) + psl (T ! i)) mod n = i"
  unfolding hole_ok_def by blast

lemma hole_unique:
  "hole_ok T j \<Longrightarrow> i < n \<Longrightarrow> i' < n \<Longrightarrow> i \<noteq> j mod n \<Longrightarrow> i' \<noteq> j mod n \<Longrightarrow> occ (T ! i) \<Longrightarrow> occ (T ! i') \<Longrightarrow>
     bkt_key (T ! i) = bkt_key (T ! i') \<Longrightarrow> i = i'"
  unfolding hole_ok_def by blast

lemma hole_close:
  assumes h: "hole_ok T j" and stop: "\<not> occ (at T (j + 1)) \<or> psl (at T (j + 1)) = 0" and "1 < n" and e: "\<not> occ E"
  shows "rh (T[j mod n := E])"
proof -
  have len: "length T = n" by (rule hole_len [OF h])
  obtain X where X: "occ X" "chain (T[j mod n := X])" using h by (auto simp: hole_ok_def)
  have ne: "(j + 1) mod n \<noteq> j mod n" using shift_mod [of 1 j] assms(3) by simp
  have nth: "T[j mod n := E] ! i = (if i = j mod n then E else T ! i)" if "i < n" for i
    using that len by (simp add: nth_list_update)
  have "chain (T[j mod n := E])"
    unfolding chain_def at_update [OF len]
  proof (intro allI impI)
    fix i
    assume a: "occ (if (i + 1) mod n = j mod n then E else at T (i + 1)) \<and> 0 < psl (if (i + 1) mod n = j mod n then E else at T (i + 1))"
    then have 1: "(i + 1) mod n \<noteq> j mod n" using e by (cases "(i + 1) mod n = j mod n") simp_all
    have 2: "i mod n \<noteq> j mod n"
    proof
      assume "i mod n = j mod n"
      then have "at T (i + 1) = at T (j + 1)" using succ_mod [of i j] by simp
      then show False using a stop 1 by simp
    qed
    have "occ (at (T[j mod n := X]) i) \<and> psl (at (T[j mod n := X]) (i + 1)) \<le> psl (at (T[j mod n := X]) i) + 1"
      using X(2) [unfolded chain_def, rule_format, of i] a 1 by (simp only: at_update [OF len] if_False)
    then show "occ (if i mod n = j mod n then E else at T i) \<and>
        psl (if (i + 1) mod n = j mod n then E else at T (i + 1)) \<le> psl (if i mod n = j mod n then E else at T i) + 1"
      using 1 2 by (simp only: at_update [OF len] if_False)
  qed
  moreover have "placed (T[j mod n := E])"
    unfolding placed_def
  proof (intro allI impI)
    fix i assume "i < n" "occ (T[j mod n := E] ! i)"
    then show "(home (bkt_key (T[j mod n := E] ! i)) + psl (T[j mod n := E] ! i)) mod n = i"
      using nth [of i] hole_placed [OF h, of i] e by (cases "i = j mod n") simp_all
  qed
  moreover have "unique (T[j mod n := E])"
    unfolding unique_def
  proof (intro allI impI)
    fix i i' assume "i < n" "i' < n"
      and "occ (T[j mod n := E] ! i) \<and> occ (T[j mod n := E] ! i') \<and> bkt_key (T[j mod n := E] ! i) = bkt_key (T[j mod n := E] ! i')"
    then show "i = i'"
      using nth [of i] nth [of i'] hole_unique [OF h, of i i'] e by (cases "i = j mod n"; cases "i' = j mod n") simp_all
  qed
  ultimately show ?thesis using len by (simp add: rh_def)
qed

lemma hole_move:
  assumes h: "hole_ok T j" and c: "occ (at T (j + 1))" "0 < psl (at T (j + 1))" and "1 < n"
    and T1: "T1 = T[(j + 1) mod n := c, j mod n := c]" "c = (at T (j + 1))\<lparr>psl := psl (at T (j + 1)) - 1\<rparr>"
  shows "hole_ok T1 (j + 1)" and "others T1 ((j + 1) mod n) = others T (j mod n)"
proof -
  have len: "length T = n" by (rule hole_len [OF h])
  obtain X where X: "occ X" "chain (T[j mod n := X])" using h by (auto simp: hole_ok_def)
  have ne: "(j + 1) mod n \<noteq> j mod n" using shift_mod [of 1 j] assms(4) by simp
  let ?k = "(j + 1) mod n" and ?old = "at T (j + 1)"
  have nth: "T1 ! i = (if i = j mod n then c else if i = ?k then c else T ! i)" if "i < n" for i
    using that len ne by (simp add: T1(1) nth_list_update)
  have at1: "at (T1[?k := ?old]) i = (if i mod n = j mod n then c else at T i)" for i
    using len ne by (simp add: T1(1) nth_list_update)
  have "chain (T1[?k := ?old])"
    unfolding chain_def at1
  proof (intro allI impI)
    fix i
    assume a: "occ (if (i + 1) mod n = j mod n then c else at T (i + 1)) \<and> 0 < psl (if (i + 1) mod n = j mod n then c else at T (i + 1))"
    note cX = X(2) [unfolded chain_def at_update [OF len], rule_format]
    have pX: "psl ?old \<le> psl X + 1" using cX [of j] c ne by simp
    show "occ (if i mod n = j mod n then c else at T i) \<and>
      psl (if (i + 1) mod n = j mod n then c else at T (i + 1)) \<le> psl (if i mod n = j mod n then c else at T i) + 1"
    proof (cases "(i + 1) mod n = j mod n")
      case True
      then have "0 < psl X" using a pX by (simp add: T1(2))
      then have "occ (if i mod n = j mod n then X else at T i) \<and> psl X \<le> psl (if i mod n = j mod n then X else at T i) + 1"
        using cX [of i] True X(1) by simp
      then show ?thesis using True pX c(1) by (auto simp: T1(2) split: if_splits)
    next
      case False
      then have b: "occ (at T (i + 1)) \<and> 0 < psl (at T (i + 1))" using a by simp
      show ?thesis
      proof (cases "i mod n = j mod n")
        case True
        then have "at T (i + 1) = ?old" using succ_mod [of i j] by simp
        then show ?thesis using False True c by (simp add: T1(2))
      next
        case 2: False
        then show ?thesis using cX [of i] b False by simp
      qed
    qed
  qed
  moreover have "(home (bkt_key ?old) + (psl ?old - 1)) mod n = j mod n"
  proof -
    have "(home (bkt_key ?old) + psl ?old) mod n = ?k" by (rule hole_placed [OF h]) (use c(1) ne in simp_all)
    then show ?thesis using succ_mod [of "home (bkt_key ?old) + (psl ?old - 1)" j] c(2) by simp
  qed
  then have "(home (bkt_key (T1 ! i)) + psl (T1 ! i)) mod n = i" if "i < n" "i \<noteq> ?k" "occ (T1 ! i)" for i
    using that nth [of i] hole_placed [OF h, of i] by (cases "i = j mod n") (simp_all add: T1(2))
  moreover have "i = i'" if i: "i < n" "i' < n" "i \<noteq> ?k" "i' \<noteq> ?k" "occ (T1 ! i)" "occ (T1 ! i')" "bkt_key (T1 ! i) = bkt_key (T1 ! i')" for i i'
  proof -
    note u = hole_unique [OF h]
    show ?thesis
      using i nth [of i] nth [of i'] u [of i i'] u [of i ?k] u [of ?k i'] c(1) ne
      by (cases "i = j mod n"; cases "i' = j mod n") (simp_all add: T1(2))
  qed
  moreover have "length T1 = n" using len by (simp add: T1(1))
  ultimately show "hole_ok T1 (j + 1)" unfolding hole_ok_def using c(1) by blast
  show "others T1 ?k = others T (j mod n)"
  proof (intro set_eqI iffI)
    fix x assume "x \<in> others T1 ?k"
    then obtain i where i: "x = entry (T1 ! i)" "i < n" "i \<noteq> ?k" "occ (T1 ! i)" using len by (auto simp: others_def T1(1))
    then show "x \<in> others T (j mod n)"
    proof (cases "i = j mod n")
      case True
      then have "x = entry ?old" using i nth [of i] by (simp add: T1(2))
      then show ?thesis using c(1) ne len unfolding others_def by (intro CollectI exI [of _ ?k]) simp
    next
      case False
      then show ?thesis using i nth [of i] len unfolding others_def by (intro CollectI exI [of _ i]) simp
    qed
  next
    fix x assume "x \<in> others T (j mod n)"
    then obtain i where i: "x = entry (T ! i)" "i < n" "i \<noteq> j mod n" "occ (T ! i)" using len by (auto simp: others_def)
    show "x \<in> others T1 ?k"
    proof (cases "i = ?k")
      case True
      then show ?thesis using i nth [of "j mod n"] ne len c(1) unfolding others_def
        by (intro CollectI exI [of _ "j mod n"]) (simp add: T1)
    next
      case False
      then show ?thesis using i nth [of i] len unfolding others_def by (intro CollectI exI [of _ i]) (simp add: T1(1))
    qed
  qed
qed

lemma shift_ok:
  assumes "hole_ok T j" "D + 1 < n" "\<not> occ (at T (j + 1 + D))"
  shows "\<exists>T'. shift_loop (n - 1) (j mod n) ((j + 1) mod n) T = Some T' \<and> rh T' \<and> entries T' = others T (j mod n)"
  using assms
proof (induction D arbitrary: T j)
  case 0
  let ?E = "(at T j)\<lparr>bkt_data := None\<rparr>"
  have "rh (T[j mod n := ?E])" by (rule hole_close) (use 0 in simp_all)
  moreover have "entries (T[j mod n := ?E]) = others T (j mod n)"
    using entries_others [of "j mod n" "T[j mod n := ?E]"] hole_len [OF 0(1)] by simp
  ultimately show ?case using 0 by (subst shift_loop.simps) (simp add: Let_def)
next
  case (Suc D)
  show ?case
  proof (cases "\<not> occ (at T (j + 1)) \<or> psl (at T (j + 1)) = 0")
    case True
    let ?E = "(at T j)\<lparr>bkt_data := None\<rparr>"
    have "rh (T[j mod n := ?E])" by (rule hole_close) (use Suc.prems True in simp_all)
    moreover have "entries (T[j mod n := ?E]) = others T (j mod n)"
      using entries_others [of "j mod n" "T[j mod n := ?E]"] hole_len [OF Suc.prems(1)] by simp
    ultimately show ?thesis using True by (subst shift_loop.simps) (auto simp: Let_def)
  next
    case False
    define c where "c = (at T (j + 1))\<lparr>psl := psl (at T (j + 1)) - 1\<rparr>"
    define T1 where "T1 = T[(j + 1) mod n := c, j mod n := c]"
    have len: "length T = n" by (rule hole_len [OF Suc.prems(1)])
    note mv = hole_move [OF Suc.prems(1) _ _ _ T1_def c_def]
    have m: "hole_ok T1 (j + 1)" "others T1 ((j + 1) mod n) = others T (j mod n)"
      using mv False Suc.prems(2) by simp_all
    have "(j + 1 + Suc D) mod n \<noteq> j mod n" "(j + 1 + Suc D) mod n \<noteq> (j + 1) mod n"
      using shift_mod [of "Suc (Suc D)" j] shift_mod [of "Suc D" "j + 1"] Suc.prems(2) by simp_all
    then have "at T1 (j + 1 + Suc D) = at T (j + 1 + Suc D)" using len by (simp add: T1_def nth_list_update)
    then have "\<not> occ (at T1 (j + 1 + 1 + D))" using Suc.prems(3) by simp
    then have "\<exists>T'. shift_loop (n - 1) ((j + 1) mod n) ((j + 1 + 1) mod n) T1 = Some T' \<and> rh T' \<and> entries T' = others T1 ((j + 1) mod n)"
      using Suc.IH [OF m(1)] Suc.prems(2) by simp
    then show ?thesis
      using False m(2) next_index [of "j + 1"] by (subst shift_loop.simps) (auto simp: Let_def T1_def c_def)
  qed
qed

lemma hole_start: "rh T \<Longrightarrow> occ (at T j) \<Longrightarrow> hole_ok T j"
  unfolding hole_ok_def rh_def placed_def unique_def by (metis list_update_id)

section \<open>Whole tables\<close>

lemma keys_entries: "length T = n \<Longrightarrow> k \<in> fst ` entries T \<longleftrightarrow> (\<exists>i<n. occ (T ! i) \<and> bkt_key (T ! i) = k)"
  unfolding entries_def image_image by (auto simp: image_iff in_set_conv_nth)

lemma empty_slot:
  assumes "rh T" "card (entries T) < n"
  shows "\<exists>e<n. \<not> occ (T ! e)"
proof (rule ccontr)
  assume "\<not> ?thesis"
  then have all: "\<forall>i<n. occ (T ! i)" by simp
  have len: "length T = n" and un: "unique T" using assms(1) by (simp_all add: rh_def)
  have "inj_on (\<lambda>i. entry (T ! i)) {..<n}"
    by (rule inj_onI) (use un all in \<open>simp add: unique_def entry_def\<close>)
  moreover have "(\<lambda>i. entry (T ! i)) ` {..<n} \<subseteq> entries T" using all len by (auto simp: entries_def)
  moreover have "finite (entries T)" by (simp add: entries_def)
  ultimately have "n \<le> card (entries T)" using card_inj_on_le by fastforce
  then show False using assms(2) by simp
qed

lemma free_ahead:
  assumes "rh T" "card (entries T) < n"
  shows "\<exists>D<n. \<not> occ (at T (j + D)) \<and> (\<forall>t<D. occ (at T (j + t)))"
proof -
  obtain e where "e < n" "\<not> occ (T ! e)" using empty_slot [OF assms] by blast
  then obtain D where D: "D < n" "\<not> occ (at T (j + D))" using reach_slot [of j e] by auto
  define D0 where "D0 = (LEAST D. \<not> occ (at T (j + D)))"
  have "\<not> occ (at T (j + D0))" "D0 \<le> D" unfolding D0_def using D(2) by (rule LeastI, intro Least_le)
  moreover have "occ (at T (j + t))" if "t < D0" for t using that not_less_Least unfolding D0_def by blast
  ultimately show ?thesis using D(1) by (meson le_less_trans)
qed

lemma home_mod [simp]: "home k mod n = home k"
  using home_less by simp

lemma find_ok:
  assumes "rh T" "card (entries T) < n"
  shows "\<exists>r. find_loop (n - 1) T k (home k) 0 = Some r \<and>
     (case r of None \<Rightarrow> k \<notin> fst ` entries T | Some i \<Rightarrow> i < n \<and> occ (T ! i) \<and> bkt_key (T ! i) = k)"
proof (cases "k \<in> fst ` entries T")
  case True
  then obtain i where i: "i < n" "occ (T ! i)" "bkt_key (T ! i) = k" using assms(1) by (auto simp: keys_entries rh_def)
  then show ?thesis using find_hit [OF assms(1) i, of 0] by simp
next
  case False
  obtain D where "\<not> occ (at T (home k + D))" using free_ahead [OF assms, of "home k"] by blast
  from find_miss [of T k, OF _ this, of 0] show ?thesis
    using False assms(1) keys_entries [of T k] by (auto simp: rh_def)
qed

lemma insert_ok:
  assumes "rh T" "card (entries T) < n"
  shows "if k \<in> fst ` entries T
    then insert_loop (n - 1) k (home k) \<lparr>psl = 0, bkt_key = k, bkt_data = Some d\<rparr> T = Some (NGHTTP2_ERR_INVALID_ARGUMENT, T)
    else \<exists>T'. insert_loop (n - 1) k (home k) \<lparr>psl = 0, bkt_key = k, bkt_data = Some d\<rparr> T = Some (0, T') \<and> rh T' \<and>
      entries T' = insert (k, d) (entries T)"
proof (cases "k \<in> fst ` entries T")
  case True
  then obtain i where i: "i < n" "occ (T ! i)" "bkt_key (T ! i) = k" using assms(1) by (auto simp: keys_entries rh_def)
  then show ?thesis using True insert_dup [OF assms(1) i, of 0] by simp
next
  case False
  let ?b = "\<lparr>psl = 0, bkt_key = k, bkt_data = Some d\<rparr>"
  obtain D where D: "D < n" "\<not> occ (at T (home k + D))" "\<forall>t<D. occ (at T (home k + t))"
    using free_ahead [OF assms, of "home k"] by blast
  have fresh: "\<forall>i<n. occ (T ! i) \<longrightarrow> bkt_key (T ! i) \<noteq> k"
    using False assms(1) keys_entries [of T k] unfolding rh_def by blast
  have "bkt_key (at T (home k + t)) \<noteq> k" if "t < D" for t
  proof -
    have "(home k + t) mod n < n" "occ (at T (home k + t))" using D(3) that by simp_all
    then show ?thesis using fresh by blast
  qed
  moreover have "fits T (home k) ?b" by (simp add: fits_def)
  ultimately show ?thesis
    using insert_new [OF assms(1), of "home k" ?b D k] False D by (auto simp: entry_def)
qed

lemma others_entries:
  assumes "rh T" "i < n" "occ (T ! i)"
  shows "others T i = {e \<in> entries T. fst e \<noteq> bkt_key (T ! i)}"
proof -
  have len: "length T = n" and un: "unique T" using assms(1) by (simp_all add: rh_def)
  have "bkt_key (T ! i) \<notin> fst ` others T i" using unique_others [OF len un, of i] assms by simp
  then show ?thesis using entries_others [of i T] len assms(2,3) by (auto simp: image_iff)
qed

lemma remove_ok:
  assumes "rh T" "card (entries T) < n" "i < n" "occ (T ! i)"
  shows "\<exists>T'. shift_loop (n - 1) i ((i + 1) AND (n - 1)) T = Some T' \<and> rh T' \<and>
    entries T' = {e \<in> entries T. fst e \<noteq> bkt_key (T ! i)}"
proof -
  obtain D where D: "D < n" "\<not> occ (at T (i + D))" "\<forall>t<D. occ (at T (i + t))"
    using free_ahead [OF assms(1,2), of i] by blast
  have "D \<noteq> 0" using D(2) assms(3,4) by (cases D) simp_all
  then have "D - 1 + 1 < n" "\<not> occ (at T (i + 1 + (D - 1)))" using D by simp_all
  moreover have "hole_ok T i" by (rule hole_start [OF assms(1)]) (use assms in simp)
  ultimately have "\<exists>T'. shift_loop (n - 1) (i mod n) ((i + 1) mod n) T = Some T' \<and> rh T' \<and> entries T' = others T (i mod n)"
    by (intro shift_ok)
  then show ?thesis using others_entries [OF assms(1,3,4)] next_index [of i] assms(3) by simp
qed

lemma entries_functional: "rh T \<Longrightarrow> (k, d) \<in> entries T \<Longrightarrow> (k, d') \<in> entries T \<Longrightarrow> d = d'"
proof -
  assume r: "rh T" and "(k, d) \<in> entries T" "(k, d') \<in> entries T"
  then obtain i i' where "i < n" "i' < n" "occ (T ! i)" "occ (T ! i')" "(k, d) = entry (T ! i)" "(k, d') = entry (T ! i')"
    by (auto simp: entries_def rh_def in_set_conv_nth)
  moreover from this have "i = i'" using r by (simp add: rh_def unique_def entry_def)
  ultimately show "d = d'" by (simp add: entry_def)
qed

lemma rh_empty: "rh (replicate n empty_bucket)"
  by (simp add: rh_def chain_def placed_def unique_def)

end


text \<open>The table as a partial map.\<close>

definition contents :: "'d map_bucket list \<Rightarrow> (map_key \<rightharpoonup> 'd)" where
  "contents T = map_of (List.map entry (filter occ T))"

lemma contents_some: "contents T k = Some d \<Longrightarrow> (k, d) \<in> entries T"
  by (auto simp: contents_def entries_def dest: map_of_SomeD)

lemma contents_dom: "dom (contents T) = fst ` entries T"
  by (auto simp: contents_def entries_def dom_map_of_conv_image_fst image_image)

lemma hash_less: "hash k bits < 2 ^ bits"
proof -
  define x where "x = unat (k * 2654435769)"
  have x: "x < 2 ^ 32" unfolding x_def by (rule order_less_le_trans [OF unsigned_less]) simp
  have "x div 2 ^ (32 - bits) < 2 ^ bits"
  proof (cases "bits \<le> 32")
    case True
    then have "x < 2 ^ bits * 2 ^ (32 - bits)" using x by (simp flip: power_add)
    then show ?thesis by (rule less_mult_imp_div_less)
  next
    case False
    then have "(2::nat) ^ 32 \<le> 2 ^ bits" by (intro power_increasing) simp_all
    then show ?thesis using False x by simp
  qed
  then show ?thesis by (simp only: hash_def x_def unat_drop_bit_eq) (simp add: drop_bit_eq_div)
qed

interpretation hm: probing "\<lambda>k. hash k bits" bits for bits
  by unfold_locales (rule hash_less)

lemma contents_iff:
  assumes "hm.rh bits T"
  shows "contents T k = Some d \<longleftrightarrow> (k, d) \<in> entries T"
proof
  assume e: "(k, d) \<in> entries T"
  then have "k \<in> fst ` entries T" by force
  then have "k \<in> dom (contents T)" by (simp only: contents_dom)
  then obtain d' where "contents T k = Some d'" by auto
  moreover from this have "d = d'" using hm.entries_functional [OF assms e] contents_some by fast
  ultimately show "contents T k = Some d" by simp
qed (rule contents_some)

lemma map_eqI: "(\<And>k d. f k = Some d \<longleftrightarrow> g k = Some d) \<Longrightarrow> f = g"
  by (rule ext) (metis not_Some_eq)

lemma distinct_filter_nth:
  "(\<And>i j. i < length xs \<Longrightarrow> j < length xs \<Longrightarrow> P (xs ! i) \<Longrightarrow> P (xs ! j) \<Longrightarrow> f (xs ! i) = f (xs ! j) \<Longrightarrow> i = j) \<Longrightarrow>
   distinct (List.map f (filter P xs))"
proof (induction xs)
  case (Cons x xs)
  have "f y \<noteq> f x" if "P x" "y \<in> set xs" "P y" for y
    using that Cons.prems [of 0 "Suc i" for i] by (auto simp: in_set_conv_nth) metis
  moreover have "distinct (List.map f (filter P xs))"
    by (rule Cons.IH) (use Cons.prems [of "Suc i" "Suc j" for i j] in simp)
  ultimately show ?case by (auto simp: image_iff) metis
qed simp

lemma distinct_keys: "hm.rh bits T \<Longrightarrow> distinct (List.map bkt_key (filter occ T))"
  by (rule distinct_filter_nth) (simp add: hm.rh_def hm.unique_def)

lemma entries_list: "entries T = set (List.map entry (filter occ T))"
  by (simp add: entries_def)

lemma card_entries: "hm.rh bits T \<Longrightarrow> card (entries T) = length (filter occ T)"
  using distinct_keys [of bits T] distinct_map [of bkt_key "filter occ T"]
  by (subst entries_list, subst distinct_card) (auto simp: distinct_map inj_on_def entry_def)

lemma card_dom: "hm.rh bits T \<Longrightarrow> card (dom (contents T)) = card (entries T)"
proof -
  assume r: "hm.rh bits T"
  have "inj_on fst (entries T)" using hm.entries_functional [OF r] by (auto simp: inj_on_def)
  then show ?thesis by (simp add: contents_dom card_image)
qed

section \<open>The operations on a whole map\<close>

text \<open>The states the operations reach; a table is allocated by the first insertion.\<close>

definition map_ok :: "'d nghttp2_map \<Rightarrow> bool" where
  "map_ok m \<longleftrightarrow>
     (if hashbits m = 0 then map_table m = [] \<and> map_size m = 0
      else hm.rh (hashbits m) (map_table m) \<and> map_size m = card (entries (map_table m)) \<and>
        4 * map_size m \<le> 3 * 2 ^ hashbits m)"

definition map_abs :: "'d nghttp2_map \<Rightarrow> (map_key \<rightharpoonup> 'd) \<times> nat" where
  "map_abs m = (contents (map_table m), hashbits m)"

lemma empty_contents [simp]: "contents (replicate c empty_bucket) = Map.empty" "contents [] = Map.empty"
  by (simp_all add: contents_def)

lemma empty_entries [simp]: "entries (replicate c empty_bucket) = {}"
  by (simp add: entries_def)

lemma load_free: "4 * c \<le> 3 * (2::nat) ^ b \<Longrightarrow> c < 2 ^ b"
  using zero_less_power [of "2::nat" b] by linarith

lemma contents_insert:
  assumes "hm.rh bits T" "hm.rh bits' T'" "entries T' = insert (k, d) (entries T)" "k \<notin> fst ` entries T"
  shows "contents T' = (contents T)(k \<mapsto> d)"
  by (rule map_eqI) (use assms in \<open>force simp: contents_iff\<close>)

lemma contents_delete:
  assumes "hm.rh bits T" "hm.rh bits' T'" "entries T' = {e \<in> entries T. fst e \<noteq> k}"
  shows "contents T' = (contents T)(k := None)"
  by (rule map_eqI) (use assms in \<open>auto simp: contents_iff\<close>)

lemma rehash_ok:
  assumes "hm.rh bits T" "distinct (List.map bkt_key (filter occ bkts))"
    and "fst ` entries T \<inter> fst ` entries bkts = {}" "card (entries T) + length (filter occ bkts) \<le> 3 * 2 ^ bits div 4"
  shows "\<exists>T'. rehash bits bkts T = Some T' \<and> hm.rh bits T' \<and> entries T' = entries T \<union> entries bkts"
  using assms
proof (induction bkts arbitrary: T)
  case Nil
  then show ?case by (simp add: entries_def)
next
  case (Cons b bkts)
  have eq: "entries (b # bkts) = (if occ b then {entry b} else {}) \<union> entries bkts" by (auto simp: entries_def)
  show ?case
  proof (cases "bkt_data b")
    case None
    have "\<not> occ b" using None by simp
    then show ?thesis using Cons eq by (simp add: None del: occ_simps(1))
  next
    case (Some d)
    have o: "occ b" and en: "entry b = (bkt_key b, d)" using Some by (simp_all add: occ_def entry_def del: occ_simps)
    have room: "card (entries T) < 2 ^ bits" using Cons.prems(4) o load_free [of "card (entries T)" bits] by simp
    have new: "bkt_key b \<notin> fst ` entries T" using Cons.prems(3) o by (auto simp: eq)
    obtain T1 where T1: "insert_bucket T bits (bkt_key b) d = Some (0, T1)" "hm.rh bits T1"
      "entries T1 = insert (bkt_key b, d) (entries T)"
      using hm.insert_ok [OF Cons.prems(1) room, of "bkt_key b" d] new by (auto simp: insert_bucket_def)
    have "bkt_key b \<notin> fst ` entries bkts" using Cons.prems(2) o by (auto simp: entries_def image_image)
    then have "fst ` entries T1 \<inter> fst ` entries bkts = {}" using Cons.prems(3) by (auto simp: T1(3) eq)
    moreover have "card (entries T1) + length (filter occ bkts) \<le> 3 * 2 ^ bits div 4"
      using Cons.prems(4) o new T1(3) card_insert_le_m1 [of "Suc (card (entries T))" "entries T" "(bkt_key b, d)"] by simp
    ultimately obtain T' where "rehash bits bkts T1 = Some T'" "hm.rh bits T'" "entries T' = entries T1 \<union> entries bkts"
      using Cons.IH [OF T1(2)] Cons.prems(2) o by auto
    then show ?thesis using Some T1 o en by (auto simp: eq)
  qed
qed

lemma resize_ok:
  assumes "map_ok m" "1 \<le> b" "4 * map_size m \<le> 3 * 2 ^ b"
  shows "\<exists>m'. map_resize True b m = Some (0, m') \<and> map_ok m' \<and> hashbits m' = b \<and> map_size m' = map_size m \<and>
    contents (map_table m') = contents (map_table m)"
proof (cases "map_size m = 0")
  case True
  have "contents (map_table m) = Map.empty"
    using assms(1) True by (auto simp: map_ok_def contents_def entries_def filter_empty_conv split: if_splits)
  then show ?thesis using True assms(2) by (auto simp: map_resize_def map_ok_def hm.rh_empty)
next
  case False
  then have ok: "hm.rh (hashbits m) (map_table m)" "map_size m = card (entries (map_table m))"
    using assms(1) by (auto simp: map_ok_def split: if_splits)
  have room: "length (filter occ (map_table m)) \<le> 3 * 2 ^ b div 4" using assms(3) ok card_entries [OF ok(1)] by linarith
  obtain T where T: "rehash b (map_table m) (replicate (2 ^ b) empty_bucket) = Some T" "hm.rh b T" "entries T = entries (map_table m)"
    using rehash_ok [OF hm.rh_empty distinct_keys [OF ok(1)], of b] room by auto
  moreover have "contents T = contents (map_table m)"
    by (rule map_eqI) (simp add: contents_iff [OF T(2)] contents_iff [OF ok(1)] T(3))
  ultimately show ?thesis using False assms ok by (auto simp: map_resize_def map_ok_def)
qed

lemma find_map:
  assumes "map_ok m"
  shows "nghttp2_map_find m k = Some (contents (map_table m) k)"
proof (cases "map_size m = 0")
  case True
  then have "contents (map_table m) = Map.empty"
    using assms by (auto simp: map_ok_def contents_def entries_def filter_empty_conv split: if_splits)
  then show ?thesis using True by (simp add: nghttp2_map_find_def)
next
  case False
  let ?T = "map_table m"
  have ok: "hm.rh (hashbits m) ?T" "card (entries ?T) < 2 ^ hashbits m"
    using assms False by (auto simp: map_ok_def load_free split: if_splits)
  obtain r where r: "find_loop (2 ^ hashbits m - 1) ?T k (hash k (hashbits m)) 0 = Some r"
    "case r of None \<Rightarrow> k \<notin> fst ` entries ?T | Some i \<Rightarrow> i < 2 ^ hashbits m \<and> occ (?T ! i) \<and> bkt_key (?T ! i) = k"
    using hm.find_ok [OF ok, of k] by blast
  show ?thesis
  proof (cases r)
    case None
    then have "contents ?T k = None" using r(2) contents_dom [of ?T] by auto
    then show ?thesis using r(1) None False by (simp add: nghttp2_map_find_def)
  next
    case (Some i)
    then have "entry (?T ! i) \<in> entries ?T" using r(2) ok(1) by (auto simp: entries_def hm.rh_def)
    then have "contents ?T (bkt_key (?T ! i)) = Some (the (bkt_data (?T ! i)))"
      by (simp only: contents_iff [OF ok(1)] entry_def)
    then show ?thesis using r Some False by (auto simp: nghttp2_map_find_def occ_def simp del: occ_simps)
  qed
qed

lemma size_abs: "map_ok m \<Longrightarrow> map_size m = card (dom (contents (map_table m)))"
  by (auto simp: map_ok_def card_dom split: if_splits)

section \<open>What the map promises\<close>

text \<open>
  The specification keeps a partial map and the number of hash bits, which decides when memory is
  asked for. \<open>spec_room\<close> is the growth rule.
\<close>

definition spec_room :: "(map_key \<rightharpoonup> 'd) \<Rightarrow> nat \<Rightarrow> nat" where
  "spec_room M b = (if 4 * (card (dom M) + 1) \<le> 3 * 2 ^ b then b else if b = 0 then 4 else b + 1)"

datatype 'd map_op = MapInsert bool map_key 'd | MapRemove map_key | MapFind map_key | MapSize | MapClear

datatype 'd map_reply = MapCode int | MapData "'d option" | MapCount nat | MapDone

fun spec_step :: "'d map_op \<Rightarrow> (map_key \<rightharpoonup> 'd) \<times> nat \<Rightarrow> 'd map_reply \<times> (map_key \<rightharpoonup> 'd) \<times> nat" where
  "spec_step (MapInsert mem_ok k d) (M, b) =
     (if spec_room M b \<noteq> b \<and> \<not> mem_ok then (MapCode NGHTTP2_ERR_NOMEM, M, b)
      else if k \<in> dom M then (MapCode NGHTTP2_ERR_INVALID_ARGUMENT, M, spec_room M b)
      else (MapCode 0, M(k \<mapsto> d), spec_room M b))"
| "spec_step (MapRemove k) (M, b) =
     (if k \<in> dom M then (MapCode 0, M(k := None), b) else (MapCode NGHTTP2_ERR_INVALID_ARGUMENT, M, b))"
| "spec_step (MapFind k) (M, b) = (MapData (M k), M, b)"
| "spec_step MapSize (M, b) = (MapCount (card (dom M)), M, b)"
| "spec_step MapClear (M, b) = (MapDone, Map.empty, b)"

fun spec_run :: "'d map_op list \<Rightarrow> (map_key \<rightharpoonup> 'd) \<times> nat \<Rightarrow> 'd map_reply list \<times> (map_key \<rightharpoonup> 'd) \<times> nat" where
  "spec_run [] S = ([], S)"
| "spec_run (x # xs) S = (case spec_step x S of (r, S1) \<Rightarrow> case spec_run xs S1 of (rs, S2) \<Rightarrow> (r # rs, S2))"

text \<open>The same operations on the model of the code.\<close>

fun map_step :: "'d map_op \<Rightarrow> 'd nghttp2_map \<Rightarrow> ('d map_reply \<times> 'd nghttp2_map) option" where
  "map_step (MapInsert mem_ok k d) m = map_option (\<lambda>(rv, m1). (MapCode rv, m1)) (nghttp2_map_insert mem_ok k d m)"
| "map_step (MapRemove k) m = map_option (\<lambda>(rv, m1). (MapCode rv, m1)) (nghttp2_map_remove k m)"
| "map_step (MapFind k) m = map_option (\<lambda>r. (MapData r, m)) (nghttp2_map_find m k)"
| "map_step MapSize m = Some (MapCount (nghttp2_map_size m), m)"
| "map_step MapClear m = Some (MapDone, nghttp2_map_clear m)"

fun map_run :: "'d map_op list \<Rightarrow> 'd nghttp2_map \<Rightarrow> ('d map_reply list \<times> 'd nghttp2_map) option" where
  "map_run [] m = Some ([], m)"
| "map_run (x # xs) m =
     (case map_step x m of
        None \<Rightarrow> None
      | Some (r, m1) \<Rightarrow> map_option (\<lambda>(rs, m2). (r # rs, m2)) (map_run xs m1))"

lemma insert_table:
  assumes "map_ok m" "hashbits m \<noteq> 0" "4 * (map_size m + 1) \<le> 3 * 2 ^ hashbits m"
  shows "\<exists>rv T. insert_bucket (map_table m) (hashbits m) k d = Some (rv, T) \<and>
    (if k \<in> dom (contents (map_table m)) then rv = NGHTTP2_ERR_INVALID_ARGUMENT \<and> T = map_table m
     else rv = 0 \<and> map_ok (m\<lparr>map_table := T, map_size := map_size m + 1\<rparr>) \<and> contents T = (contents (map_table m))(k \<mapsto> d))"
proof -
  let ?T = "map_table m"
  have ok: "hm.rh (hashbits m) ?T" "map_size m = card (entries ?T)" using assms by (auto simp: map_ok_def)
  have room: "card (entries ?T) < 2 ^ hashbits m" using load_free [of "card (entries ?T) + 1"] assms(3) ok(2) by simp
  show ?thesis
  proof (cases "k \<in> fst ` entries ?T")
    case True
    then show ?thesis using hm.insert_ok [OF ok(1) room, of k d] by (simp add: insert_bucket_def contents_dom)
  next
    case False
    then obtain T where T: "insert_bucket ?T (hashbits m) k d = Some (0, T)" "hm.rh (hashbits m) T" "entries T = insert (k, d) (entries ?T)"
      using hm.insert_ok [OF ok(1) room, of k d] by (auto simp: insert_bucket_def)
    have "(k, d) \<notin> entries ?T" "finite (entries ?T)" using False by (force, simp add: entries_def)
    then have "map_ok (m\<lparr>map_table := T, map_size := map_size m + 1\<rparr>)" using T ok assms by (simp add: map_ok_def)
    then show ?thesis using T False contents_insert [OF ok(1) T(2,3) False] by (simp add: contents_dom)
  qed
qed

lemma spec_room_ok: "4 * card (dom M) \<le> 3 * 2 ^ b \<or> b = 0 \<and> M = Map.empty \<Longrightarrow>
   spec_room M b \<noteq> 0 \<and> 4 * (card (dom M) + 1) \<le> 3 * 2 ^ spec_room M b"
  using power_increasing [of 1 b "2::nat"] by (auto simp: spec_room_def)

lemma room_ok: "map_ok m \<Longrightarrow> spec_room (contents (map_table m)) (hashbits m) \<noteq> 0 \<and>
   4 * (map_size m + 1) \<le> 3 * 2 ^ spec_room (contents (map_table m)) (hashbits m)"
  using spec_room_ok [of "contents (map_table m)" "hashbits m"] size_abs [of m]
  by (auto simp: map_ok_def split: if_splits)

text \<open>The insertion after the growth of the table.\<close>

lemma insert_grown:
  assumes "map_ok m" "mem_ok \<or> spec_room (contents (map_table m)) (hashbits m) = hashbits m"
  shows "\<exists>m1. (if (map_size m + 1) * 4 > 2 ^ hashbits m * 3
         then map_resize mem_ok (if hashbits m \<noteq> 0 then hashbits m + 1 else NGHTTP2_INITIAL_TABLE_LENBITS) m
         else Some (0, m)) = Some (0, m1) \<and>
      map_ok m1 \<and> hashbits m1 = spec_room (contents (map_table m)) (hashbits m) \<and> map_size m1 = map_size m \<and>
      contents (map_table m1) = contents (map_table m)"
proof (cases "(map_size m + 1) * 4 > 2 ^ hashbits m * 3")
  case True
  let ?b = "if hashbits m \<noteq> 0 then hashbits m + 1 else NGHTTP2_INITIAL_TABLE_LENBITS"
  have b: "spec_room (contents (map_table m)) (hashbits m) = ?b"
    using True size_abs [OF assms(1)] by (auto simp: spec_room_def NGHTTP2_INITIAL_TABLE_LENBITS_def)
  then have "mem_ok" using assms(2) by (auto simp: NGHTTP2_INITIAL_TABLE_LENBITS_def split: if_splits)
  moreover have "4 * map_size m \<le> 3 * 2 ^ ?b" using room_ok [OF assms(1)] b by simp
  ultimately show ?thesis using True b resize_ok [OF assms(1), of ?b] by (auto simp: NGHTTP2_INITIAL_TABLE_LENBITS_def)
next
  case False
  then show ?thesis using assms(1) size_abs [OF assms(1)] by (auto simp: spec_room_def)
qed

lemma insert_map:
  assumes "map_ok m"
  shows "\<exists>rv m'. nghttp2_map_insert mem_ok k d m = Some (rv, m') \<and> map_ok m' \<and>
    (MapCode rv, map_abs m') = spec_step (MapInsert mem_ok k d) (map_abs m)"
proof (cases "mem_ok \<or> spec_room (contents (map_table m)) (hashbits m) = hashbits m")
  case True
  let ?r = "spec_room (contents (map_table m)) (hashbits m)"
  obtain m1 where g: "(if (map_size m + 1) * 4 > 2 ^ hashbits m * 3
         then map_resize mem_ok (if hashbits m \<noteq> 0 then hashbits m + 1 else NGHTTP2_INITIAL_TABLE_LENBITS) m
         else Some (0, m)) = Some (0, m1)"
    and m1: "map_ok m1" "hashbits m1 = ?r" "map_size m1 = map_size m" "contents (map_table m1) = contents (map_table m)"
    using insert_grown [OF assms True] by blast
  have "hashbits m1 \<noteq> 0" "4 * (map_size m1 + 1) \<le> 3 * 2 ^ hashbits m1" using room_ok [OF assms] m1 by simp_all
  from insert_table [OF m1(1) this, of k d] obtain rv T where T: "insert_bucket (map_table m1) (hashbits m1) k d = Some (rv, T)"
    "if k \<in> dom (contents (map_table m1)) then rv = NGHTTP2_ERR_INVALID_ARGUMENT \<and> T = map_table m1
     else rv = 0 \<and> map_ok (m1\<lparr>map_table := T, map_size := map_size m1 + 1\<rparr>) \<and> contents T = (contents (map_table m1))(k \<mapsto> d)"
    by blast
  have "nghttp2_map_insert mem_ok k d m =
    Some (rv, if rv \<noteq> 0 then m1\<lparr>map_table := T\<rparr> else m1\<lparr>map_table := T, map_size := map_size m1 + 1\<rparr>)"
    unfolding nghttp2_map_insert_def g by (simp add: T(1))
  then show ?thesis using T(2) m1 True
    by (cases "k \<in> dom (contents (map_table m))") (auto simp: map_abs_def NGHTTP2_ERR_INVALID_ARGUMENT_def)
next
  case False
  then have "nghttp2_map_insert mem_ok k d m = Some (NGHTTP2_ERR_NOMEM, m)"
    using size_abs [OF assms]
    by (auto simp: nghttp2_map_insert_def map_resize_def spec_room_def NGHTTP2_ERR_NOMEM_def split: if_splits)
  then show ?thesis using False assms by (simp add: map_abs_def)
qed

lemma remove_map:
  assumes "map_ok m"
  shows "\<exists>rv m'. nghttp2_map_remove k m = Some (rv, m') \<and> map_ok m' \<and>
    (MapCode rv, map_abs m') = spec_step (MapRemove k) (map_abs m)"
proof (cases "map_size m = 0")
  case True
  then have "contents (map_table m) = Map.empty" using size_abs [OF assms] finite_dom_map_of
    by (simp add: contents_def)
  then show ?thesis using True assms by (simp add: nghttp2_map_remove_def map_abs_def)
next
  case False
  let ?T = "map_table m"
  have ok: "hm.rh (hashbits m) ?T" "map_size m = card (entries ?T)" and room: "card (entries ?T) < 2 ^ hashbits m"
    using assms False by (auto simp: map_ok_def load_free split: if_splits)
  obtain r where r: "find_loop (2 ^ hashbits m - 1) ?T k (hash k (hashbits m)) 0 = Some r"
    "case r of None \<Rightarrow> k \<notin> fst ` entries ?T | Some i \<Rightarrow> i < 2 ^ hashbits m \<and> occ (?T ! i) \<and> bkt_key (?T ! i) = k"
    using hm.find_ok [OF ok(1) room, of k] by blast
  show ?thesis
  proof (cases r)
    case None
    then show ?thesis using r False assms by (auto simp: nghttp2_map_remove_def map_abs_def contents_dom Let_def)
  next
    case (Some i)
    then have i: "i < 2 ^ hashbits m" "occ (?T ! i)" "bkt_key (?T ! i) = k" using r(2) by simp_all
    obtain T where T: "shift_loop (2 ^ hashbits m - 1) i ((i + 1) AND (2 ^ hashbits m - 1)) ?T = Some T"
      "hm.rh (hashbits m) T" "entries T = {e \<in> entries ?T. fst e \<noteq> k}"
      using hm.remove_ok [OF ok(1) room i(1,2)] i(3) by blast
    have c: "contents T = (contents ?T)(k := None)" by (rule contents_delete [OF ok(1) T(2,3)])
    have "entry (?T ! i) \<in> entries ?T" using i(1,2) ok(1) by (auto simp: entries_def hm.rh_def)
    then have "k \<in> fst ` entries ?T" using i(3) fst_entry image_eqI by metis
    then have k: "k \<in> dom (contents ?T)" by (simp only: contents_dom)
    then have "card (entries T) = map_size m - 1"
      using c card_dom [OF T(2)] card_dom [OF ok(1)] ok(2) by simp
    then have "map_ok (m\<lparr>map_table := T, map_size := map_size m - 1\<rparr>)"
      using T(2) assms False by (auto simp: map_ok_def split: if_splits)
    then show ?thesis using r(1) Some T(1) False c k by (auto simp: nghttp2_map_remove_def map_abs_def Let_def)
  qed
qed

lemma map_step_ok:
  assumes "map_ok m"
  shows "\<exists>r m'. map_step x m = Some (r, m') \<and> map_ok m' \<and> (r, map_abs m') = spec_step x (map_abs m)"
proof (cases x)
  case (MapInsert mem_ok k d)
  then show ?thesis using insert_map [OF assms, of mem_ok k d] by auto
next
  case (MapRemove k)
  then show ?thesis using remove_map [OF assms, of k] by auto
next
  case (MapFind k)
  then show ?thesis using find_map [OF assms, of k] assms by (simp add: map_abs_def)
next
  case MapSize
  then show ?thesis using size_abs [OF assms] assms by (simp add: map_abs_def nghttp2_map_size_def)
next
  case MapClear
  then show ?thesis using assms size_abs [OF assms] hm.rh_empty [of "hashbits m"] finite_dom_map_of
    by (auto simp: nghttp2_map_clear_def map_abs_def map_ok_def contents_def split: if_splits)
qed

lemma map_run_ok:
  "map_ok m \<Longrightarrow> \<exists>rs m'. map_run xs m = Some (rs, m') \<and> map_ok m' \<and> (rs, map_abs m') = spec_run xs (map_abs m)"
proof (induction xs arbitrary: m)
  case (Cons x xs)
  obtain r m1 where 1: "map_step x m = Some (r, m1)" "map_ok m1" "(r, map_abs m1) = spec_step x (map_abs m)"
    using map_step_ok [OF Cons.prems] by blast
  obtain rs m2 where "map_run xs m1 = Some (rs, m2)" "map_ok m2" "(rs, map_abs m2) = spec_run xs (map_abs m1)"
    using Cons.IH [OF 1(2)] by blast
  then show ?case using 1 by (auto split: prod.splits simp flip: 1(3))
qed simp

lemma map_init_ok: "map_ok nghttp2_map_init"
  by (simp add: map_ok_def nghttp2_map_init_def)

section \<open>Visiting the entries\<close>

fun visit :: "('d \<Rightarrow> 's \<Rightarrow> int \<times> 's) \<Rightarrow> 'd list \<Rightarrow> 's \<Rightarrow> int \<times> 's" where
  "visit func [] s = (0, s)"
| "visit func (d # ds) s = (case func d s of (rv, s1) \<Rightarrow> if rv \<noteq> 0 then (rv, s1) else visit func ds s1)"

lemma each_loop_visit: "each_loop func T s = visit func (List.map (\<lambda>b. the (bkt_data b)) (filter occ T)) s"
  by (induction T arbitrary: s) (auto simp: occ_def simp del: occ_simps split: option.splits prod.splits)

text \<open>\<^verbatim>\<open>nghttp2_map_each\<close> hands every entry to the callback once, until one returns non-zero.\<close>

lemma each_visits_all:
  assumes "map_ok m"
  shows "\<exists>ks. distinct ks \<and> set ks = dom (contents (map_table m)) \<and>
    nghttp2_map_each m func s = visit func (List.map (\<lambda>k. the (contents (map_table m) k)) ks) s"
proof (cases "map_size m = 0")
  case True
  then have "contents (map_table m) = Map.empty" using size_abs [OF assms] finite_dom_map_of by (simp add: contents_def)
  then show ?thesis using True by (intro exI [of _ "[]"]) (simp add: nghttp2_map_each_def)
next
  case False
  let ?T = "map_table m" and ?ks = "List.map bkt_key (filter occ (map_table m))"
  have ok: "hm.rh (hashbits m) ?T" using assms False by (auto simp: map_ok_def split: if_splits)
  have "contents ?T (bkt_key b) = Some (the (bkt_data b))" if "b \<in> set ?T" "occ b" for b
    unfolding contents_iff [OF ok] using that by (auto simp: entries_def entry_def)
  then have "the (contents ?T (bkt_key b)) = the (bkt_data b)" if "b \<in> set ?T" "occ b" for b
    using that by (metis option.sel)
  then have "List.map (\<lambda>k. the (contents ?T k)) ?ks = List.map (\<lambda>b. the (bkt_data b)) (filter occ ?T)" by simp
  moreover have "set ?ks = dom (contents ?T)" by (auto simp: contents_dom entries_def image_image)
  ultimately show ?thesis using False distinct_keys [OF ok]
    by (intro exI [of _ ?ks]) (simp only: nghttp2_map_each_def each_loop_visit if_False simp_thms)
qed

section \<open>The property\<close>

text \<open>C11. Every sequence of insertions, removals, searches, size queries and clearings on a fresh map
  returns (no probing loop runs on), and its replies and the entries left are those of a partial map:
  insertion of a present key is refused, memory is asked for exactly by the growth rule and its lack
  changes nothing, a search finds the data last inserted and not removed.
\<close>

theorem map_is_a_map:
  "\<exists>rs m. map_run ops nghttp2_map_init = Some (rs, m) \<and> (rs, contents (map_table m), hashbits m) = spec_run ops (Map.empty, 0)"
  using map_run_ok [OF map_init_ok, of ops] by (auto simp: map_abs_def nghttp2_map_init_def)

end
