(* ===== verification/Adler32.thy ===== *)
theory Adler32
  imports Prelude "HOL-Library.Word"
begin

unbundle bit_operations_syntax

text \<open>
  The Adler-32 checksum \<^verbatim>\<open>zlib/adler32.c\<close>, in the default build (hardware division) on the 32-bit
  target, where \<^verbatim>\<open>uLong\<close> has 32 bits: the byte-wise, short and blocked paths of \<^verbatim>\<open>adler32_z\<close>, whose
  sums must not wrap before they are reduced, and the combination of two checksums. The buffer is
  \<open>None\<close> for the null pointer, with a length other than one.
\<close>

section \<open>The code\<close>

definition BASE :: nat where "BASE = 65521"
definition NMAX :: nat where "NMAX = 5552"

type_synonym sums = "32 word \<times> 32 word"

definition DO1 :: "sums \<Rightarrow> 8 word \<Rightarrow> sums" where
  "DO1 s b = (fst s + ucast b, snd s + (fst s + ucast b))"

definition DO16 :: "sums \<Rightarrow> 8 word list \<Rightarrow> sums" where
  "DO16 s bs = foldl DO1 s (take 16 bs)"

definition MOD_BASE :: "sums \<Rightarrow> sums" where
  "MOD_BASE s = (fst s mod of_nat BASE, snd s mod of_nat BASE)"

definition wrap_once :: "32 word \<Rightarrow> 32 word" where
  "wrap_once x = (if x \<ge> of_nat BASE then x - of_nat BASE else x)"

definition join_sums :: "sums \<Rightarrow> 32 word" where
  "join_sums s = (fst s OR push_bit 16 (snd s))"

definition split_sums :: "32 word \<Rightarrow> sums" where
  "split_sums adler = (adler AND 0xffff, drop_bit 16 adler AND 0xffff)"

text \<open>\<open>n\<close> times sixteen bytes.\<close>

fun sixteens :: "nat \<Rightarrow> sums \<Rightarrow> 8 word list \<Rightarrow> sums \<times> 8 word list" where
  "sixteens 0 s bs = (s, bs)"
| "sixteens (Suc n) s bs = sixteens n (DO16 s bs) (drop 16 bs)"

lemma sixteens_foldl: "16 * n \<le> length bs \<Longrightarrow> sixteens n s bs = (foldl DO1 s (take (16 * n) bs), drop (16 * n) bs)"
proof (induction n s bs rule: sixteens.induct)
  case (2 n s bs)
  have "take (16 * Suc n) bs = take 16 bs @ take (16 * n) (drop 16 bs)" by (simp flip: take_add)
  then show ?case using 2 by (simp add: DO16_def add.commute)
qed simp

function nmax_blocks :: "sums \<Rightarrow> 8 word list \<Rightarrow> sums \<times> 8 word list" where
  "nmax_blocks s bs =
     (if length bs \<ge> NMAX then nmax_blocks (MOD_BASE (fst (sixteens (NMAX div 16) s bs))) (snd (sixteens (NMAX div 16) s bs))
      else (s, bs))"
  by pat_completeness auto
termination
  by (relation "measure (\<lambda>(s, bs). length bs)") (auto simp: sixteens_foldl NMAX_def)

declare nmax_blocks.simps [simp del]

definition remaining :: "sums \<Rightarrow> 8 word list \<Rightarrow> sums" where
  "remaining s bs =
     (if bs = [] then s
      else (case sixteens (length bs div 16) s bs of (s1, rest) \<Rightarrow> MOD_BASE (foldl DO1 s1 rest)))"

definition adler32_z :: "32 word \<Rightarrow> 8 word list option \<Rightarrow> 32 word" where
  "adler32_z adler buf =
     (let (a, sum2) = split_sums adler in
      case buf of
        None \<Rightarrow> 1
      | Some bs \<Rightarrow>
          if length bs = 1 then
            (let a1 = wrap_once (a + ucast (hd bs)) in join_sums (a1, wrap_once (sum2 + a1)))
          else if length bs < 16 then
            (let s = foldl DO1 (a, sum2) bs in join_sums (wrap_once (fst s), snd s mod of_nat BASE))
          else (case nmax_blocks (a, sum2) bs of (s, rest) \<Rightarrow> join_sums (remaining s rest)))"

definition adler32 :: "32 word \<Rightarrow> 8 word list option \<Rightarrow> 32 word" where
  "adler32 adler buf = adler32_z adler buf"

definition adler32_combine_local :: "32 word \<Rightarrow> 32 word \<Rightarrow> int \<Rightarrow> 32 word" where
  "adler32_combine_local adler1 adler2 len2 =
     (if len2 < 0 then 0xffffffff
      else
        (let rem = (word_of_int (len2 mod int BASE) :: 32 word);
             sum1 = adler1 AND 0xffff;
             sum2 = (rem * sum1) mod of_nat BASE;
             sum1 = sum1 + ((adler2 AND 0xffff) + of_nat BASE - 1);
             sum2 = sum2 + ((drop_bit 16 adler1 AND 0xffff) + (drop_bit 16 adler2 AND 0xffff) + of_nat BASE - rem);
             sum1 = wrap_once (wrap_once sum1);
             sum2 = (if sum2 \<ge> of_nat (2 * BASE) then sum2 - of_nat (2 * BASE) else sum2) in
         join_sums (sum1, wrap_once sum2)))"

definition adler32_combine :: "32 word \<Rightarrow> 32 word \<Rightarrow> int \<Rightarrow> 32 word" where
  "adler32_combine adler1 adler2 len2 = adler32_combine_local adler1 adler2 len2"

definition adler32_combine64 :: "32 word \<Rightarrow> 32 word \<Rightarrow> int \<Rightarrow> 32 word" where
  "adler32_combine64 adler1 adler2 len2 = adler32_combine_local adler1 adler2 len2"

section \<open>The checksum by definition\<close>

text \<open>Both sums modulo 65521 after every byte, on natural numbers; and the sums without reduction.\<close>

definition spec_step :: "nat \<times> nat \<Rightarrow> nat \<Rightarrow> nat \<times> nat" where
  "spec_step s b = ((fst s + b) mod BASE, (snd s + fst s + b) mod BASE)"

definition raw_step :: "nat \<times> nat \<Rightarrow> nat \<Rightarrow> nat \<times> nat" where
  "raw_step s b = (fst s + b, snd s + fst s + b)"

definition bytes :: "8 word list \<Rightarrow> nat list" where
  "bytes bs = map unat bs"

definition checksum_from :: "nat \<times> nat \<Rightarrow> 8 word list \<Rightarrow> nat \<times> nat" where
  "checksum_from s bs = foldl spec_step s (bytes bs)"

definition pack_sums :: "nat \<times> nat \<Rightarrow> 32 word" where
  "pack_sums s = of_nat (snd s * 65536 + fst s)"

lemma bytes_append [simp]: "bytes (xs @ ys) = bytes xs @ bytes ys" and bytes_Nil [simp]: "bytes [] = []"
  and bytes_Cons [simp]: "bytes (b # bs) = unat b # bytes bs" and length_bytes [simp]: "length (bytes bs) = length bs"
  by (simp_all add: bytes_def)

lemma byte_le: "x \<in> set (bytes bs) \<Longrightarrow> x \<le> 255"
proof -
  assume "x \<in> set (bytes bs)"
  then obtain b where "x = unat (b :: 8 word)" by (auto simp: bytes_def)
  moreover have "unat b < 2 ^ LENGTH(8)" by (rule unsigned_less)
  ultimately show "x \<le> 255" by simp
qed

lemma raw_mono: "fst s \<le> fst (foldl raw_step s xs) \<and> snd s \<le> snd (foldl raw_step s xs)"
proof (induction xs arbitrary: s)
  case (Cons x xs)
  have "fst s \<le> fst (raw_step s x)" "snd s \<le> snd (raw_step s x)" by (simp_all add: raw_step_def)
  then show ?case using Cons [of "raw_step s x"] by simp
qed simp

lemma raw_bound:
  "(\<forall>x \<in> set xs. x \<le> 255) \<Longrightarrow>
   fst (foldl raw_step s xs) \<le> fst s + 255 * length xs \<and>
   2 * snd (foldl raw_step s xs) \<le> 2 * snd s + 2 * length xs * fst s + 255 * (length xs * (length xs + 1))"
proof (induction xs rule: rev_induct)
  case (snoc x xs)
  then show ?case by (auto simp: raw_step_def algebra_simps)
qed simp

lemma raw_mod: "(fst (foldl raw_step s xs) mod BASE, snd (foldl raw_step s xs) mod BASE) = foldl spec_step (fst s mod BASE, snd s mod BASE) xs"
proof (induction xs arbitrary: s)
  case (Cons x xs)
  have "spec_step (fst s mod BASE, snd s mod BASE) x = (fst (raw_step s x) mod BASE, snd (raw_step s x) mod BASE)"
    by (simp add: spec_step_def raw_step_def mod_simps) (metis add.assoc mod_add_cong mod_add_left_eq mod_add_right_eq)
  then show ?case using Cons [of "raw_step s x"] by simp
qed simp

text \<open>The words follow the sums without reduction as long as those fit.\<close>

definition nats :: "sums \<Rightarrow> nat \<times> nat" where
  "nats s = (unat (fst s), unat (snd s))"

lemma do1_nats:
  assumes "fst (raw_step (nats s) (unat b)) < 2 ^ 32" and "snd (raw_step (nats s) (unat b)) < 2 ^ 32"
  shows "nats (DO1 s b) = raw_step (nats s) (unat b)"
proof -
  have b: "unat (ucast b :: 32 word) = unat b"
  proof -
    have "unat b < 2 ^ LENGTH(8)" by (rule unsigned_less)
    then show ?thesis by (simp add: unsigned_ucast_eq take_bit_nat_eq_self)
  qed
  have "unat (fst s + ucast b) = unat (fst s) + unat b"
    using assms(1) by (subst unat_add_lem [THEN iffD1]) (simp_all add: b raw_step_def nats_def)
  then show ?thesis
    using assms(2) by (simp add: nats_def raw_step_def DO1_def unat_word_ariths)
qed

lemma words_raw:
  "fst (foldl raw_step (nats s) (bytes bs)) < 2 ^ 32 \<Longrightarrow> snd (foldl raw_step (nats s) (bytes bs)) < 2 ^ 32 \<Longrightarrow>
   nats (foldl DO1 s bs) = foldl raw_step (nats s) (bytes bs)"
proof (induction bs arbitrary: s)
  case (Cons b bs)
  let ?r = "raw_step (nats s) (unat b)"
  have "fst ?r < 2 ^ 32" "snd ?r < 2 ^ 32"
    using raw_mono [of ?r "bytes bs"] Cons(2,3) by (auto intro: le_less_trans)
  then have "nats (DO1 s b) = ?r" by (rule do1_nats)
  then show ?case using Cons(1) [of "DO1 s b"] Cons(2,3) by simp
qed simp

definition valid_sums :: "nat \<times> nat \<Rightarrow> bool" where
  "valid_sums s = (fst s < BASE \<and> snd s < BASE)"

text \<open>This is what \<^verbatim>\<open>NMAX\<close> is for: the sums of that many bytes fit in 32 bits.\<close>

lemma block_fits:
  assumes "valid_sums s" and "length bs \<le> NMAX"
  shows "fst (foldl raw_step s (bytes bs)) < 2 ^ 32 \<and> snd (foldl raw_step s (bytes bs)) < 2 ^ 32"
proof -
  let ?n = "length bs"
  have n: "?n \<le> 5552" using assms(2) by (simp add: NMAX_def)
  have s: "fst s \<le> 65520" "snd s \<le> 65520" using assms(1) by (simp_all add: valid_sums_def BASE_def)
  have "?n * fst s \<le> 5552 * 65520" by (rule mult_le_mono [OF n s(1)])
  moreover have "?n * (?n + 1) \<le> 5552 * 5553" by (rule mult_le_mono) (use n in simp_all)
  ultimately show ?thesis using raw_bound [of "bytes bs" s] byte_le [of _ bs] n s by auto
qed

lemma block_words:
  "valid_sums (nats s) \<Longrightarrow> length bs \<le> NMAX \<Longrightarrow> nats (foldl DO1 s bs) = foldl raw_step (nats s) (bytes bs)"
  using block_fits [of "nats s" bs] by (intro words_raw) auto

lemma mod_nats: "nats (MOD_BASE s) = (fst (nats s) mod BASE, snd (nats s) mod BASE)"
  by (simp add: nats_def MOD_BASE_def unat_mod_distrib BASE_def)

lemma mod_block:
  "valid_sums (nats s) \<Longrightarrow> length bs \<le> NMAX \<Longrightarrow> nats (MOD_BASE (foldl DO1 s bs)) = checksum_from (nats s) bs"
  using raw_mod [of "nats s" "bytes bs"]
  by (simp add: mod_nats block_words checksum_from_def valid_sums_def)

lemma checksum_valid: "valid_sums s \<Longrightarrow> valid_sums (checksum_from s bs)"
  unfolding checksum_from_def by (induction bs arbitrary: s) (simp_all add: valid_sums_def spec_step_def BASE_def)

lemma checksum_append: "checksum_from s (xs @ ys) = checksum_from (checksum_from s xs) ys"
  by (simp add: checksum_from_def)

lemma nmax_blocks_ok:
  "valid_sums (nats s) \<Longrightarrow> nmax_blocks s bs = (s', rest) \<Longrightarrow>
   valid_sums (nats s') \<and> length rest < NMAX \<and> checksum_from (nats s) bs = checksum_from (nats s') rest"
proof (induction s bs rule: nmax_blocks.induct)
  case (1 s bs)
  show ?case
  proof (cases "length bs \<ge> NMAX")
    case False
    then have "nmax_blocks s bs = (s, bs)" by (subst nmax_blocks.simps) simp
    then show ?thesis using 1(2,3) False by simp
  next
    case True
    define t where "t = MOD_BASE (foldl DO1 s (take NMAX bs))"
    have sx: "sixteens (NMAX div 16) s bs = (foldl DO1 s (take NMAX bs), drop NMAX bs)"
      using sixteens_foldl [of "NMAX div 16" bs s] True by (simp add: NMAX_def)
    have t: "nats t = checksum_from (nats s) (take NMAX bs)" unfolding t_def by (rule mod_block [OF 1(2)]) simp
    have run: "nmax_blocks t (drop NMAX bs) = (s', rest)" using 1(3) True by (subst (asm) nmax_blocks.simps) (simp add: sx t_def)
    have "valid_sums (nats t)" unfolding t by (rule checksum_valid [OF 1(2)])
    then have "valid_sums (nats s') \<and> length rest < NMAX \<and> checksum_from (nats t) (drop NMAX bs) = checksum_from (nats s') rest"
      using 1(1) [OF True] run by (simp add: sx t_def)
    then show ?thesis using t checksum_append [of "nats s" "take NMAX bs" "drop NMAX bs"] by simp
  qed
qed

lemma remaining_ok: "valid_sums (nats s) \<Longrightarrow> length bs < NMAX \<Longrightarrow> nats (remaining s bs) = checksum_from (nats s) bs"
proof -
  assume s: "valid_sums (nats s)" and n: "length bs < NMAX"
  have "foldl DO1 (foldl DO1 s (take (16 * (length bs div 16)) bs)) (drop (16 * (length bs div 16)) bs) = foldl DO1 s bs"
    by (simp flip: foldl_append)
  then have "bs \<noteq> [] \<Longrightarrow> remaining s bs = MOD_BASE (foldl DO1 s bs)"
    using sixteens_foldl [of "length bs div 16" bs s] by (simp add: remaining_def)
  then show ?thesis using mod_block [OF s] n by (cases "bs = []") (simp_all add: remaining_def checksum_from_def)
qed

section \<open>Packing\<close>

lemma nats_split: "nats (split_sums adler) = (unat adler mod 65536, unat adler div 65536)"
proof -
  have m: "(0xffff :: 32 word) = mask 16" by (simp add: mask_eq_exp_minus_1)
  have lt: "unat adler < 2 ^ LENGTH(32)" by (rule unsigned_less)
  have "unat (take_bit 16 adler) = unat adler mod 65536" by (simp only: unsigned_take_bit_eq) (simp add: take_bit_eq_mod)
  moreover have "unat (take_bit 16 (drop_bit 16 adler)) = unat adler div 65536"
    using lt by (simp only: unsigned_take_bit_eq unsigned_drop_bit_eq) (simp add: take_bit_eq_mod drop_bit_eq_div)
  ultimately show ?thesis by (simp add: nats_def split_sums_def m take_bit_eq_mask)
qed

lemma join_nats: "valid_sums (nats s) \<Longrightarrow> join_sums s = pack_sums (nats s)"
proof -
  assume v: "valid_sums (nats s)"
  then have a: "unat (fst s) < 2 ^ 16" by (simp add: valid_sums_def nats_def BASE_def)
  have "take_bit 16 (fst s) = fst s"
    by (rule unsigned_word_eqI [where ?'a = nat]) (use a in \<open>simp add: unsigned_take_bit_eq take_bit_nat_eq_self\<close>)
  then have "\<not> bit (fst s) n" if "16 \<le> n" for n using that by (metis bit_take_bit_iff not_le)
  then have "fst s AND push_bit 16 (snd s) = 0"
    by (auto simp: bit_eq_iff bit_simps)
  then have "join_sums s = fst s + push_bit 16 (snd s)" unfolding join_sums_def by (rule disjunctive_add_eq_or [symmetric])
  also have "\<dots> = pack_sums (nats s)" by (simp add: pack_sums_def nats_def push_bit_eq_mult)
  finally show ?thesis .
qed

lemma unat_of_nat32: "n < 2 ^ 32 \<Longrightarrow> unat (of_nat n :: 32 word) = n"
  by (simp add: unat_of_nat take_bit_nat_eq_self)

lemma nats_of_nat: "a < 2 ^ 32 \<Longrightarrow> b < 2 ^ 32 \<Longrightarrow> nats (of_nat a, of_nat b) = (a, b)"
  by (simp add: nats_def unat_of_nat32)

lemma wrap_once_nat: "n < 2 ^ 32 \<Longrightarrow> wrap_once (of_nat n) = of_nat (if n \<ge> BASE then n - BASE else n)"
proof -
  assume n: "n < 2 ^ 32"
  have "of_nat BASE \<le> (of_nat n :: 32 word) \<longleftrightarrow> BASE \<le> n"
    using n by (simp add: word_le_nat_alt unat_of_nat32 BASE_def)
  then show ?thesis by (simp add: wrap_once_def of_nat_diff)
qed

lemma wrap_once_mod: "n < 2 * BASE \<Longrightarrow> wrap_once (of_nat n) = of_nat (n mod BASE)"
  by (subst wrap_once_nat) (auto simp: BASE_def mod_if)

lemma mod_nat32: "n < 2 ^ 32 \<Longrightarrow> (of_nat n :: 32 word) mod of_nat BASE = of_nat (n mod BASE)"
  by (rule unsigned_word_eqI [where ?'a = nat]) (simp add: unat_mod_distrib unat_of_nat32 BASE_def)

lemma join_of_nat: "a < BASE \<Longrightarrow> b < BASE \<Longrightarrow> join_sums (of_nat a, of_nat b) = pack_sums (a, b)"
  using join_nats [of "(of_nat a, of_nat b)"] by (simp add: nats_of_nat BASE_def valid_sums_def)

text \<open>One byte, and fewer than sixteen.\<close>

lemma one_byte:
  assumes "valid_sums (nats (a, s))"
  shows "join_sums (wrap_once (a + ucast b), wrap_once (s + wrap_once (a + ucast b))) = pack_sums (checksum_from (nats (a, s)) [b])"
proof -
  define A B x where "A = unat a" and "B = unat s" and "x = unat b"
  have v: "A < BASE" "B < BASE" using assms by (simp_all add: valid_sums_def nats_def A_def B_def)
  have x: "x \<le> 255" using byte_le [of x "[b]"] by (simp add: x_def)
  have w: "a = of_nat A" "s = of_nat B" "ucast b = (of_nat x :: 32 word)"
    by (simp_all add: A_def B_def x_def)
  have 1: "wrap_once (a + ucast b) = of_nat ((A + x) mod BASE)"
    unfolding w using v x wrap_once_mod [of "A + x"] by (simp add: BASE_def)
  have 2: "wrap_once (s + of_nat ((A + x) mod BASE)) = of_nat ((B + (A + x) mod BASE) mod BASE)"
    unfolding w using v mod_less_divisor [of BASE "A + x"] wrap_once_mod [of "B + (A + x) mod BASE"] by (simp add: BASE_def)
  have "checksum_from (nats (a, s)) [b] = ((A + x) mod BASE, (B + (A + x) mod BASE) mod BASE)"
    by (simp add: checksum_from_def spec_step_def nats_def A_def B_def x_def mod_add_right_eq add.assoc)
  then show ?thesis unfolding 1 2 by (simp add: join_of_nat BASE_def)
qed

lemma short_bytes:
  assumes v: "valid_sums (nats t)" and n: "length bs < 16"
  shows "join_sums (wrap_once (fst (foldl DO1 t bs)), snd (foldl DO1 t bs) mod of_nat BASE) = pack_sums (checksum_from (nats t) bs)"
proof -
  define r where "r = foldl raw_step (nats t) (bytes bs)"
  have w: "nats (foldl DO1 t bs) = r" unfolding r_def by (rule block_words [OF v]) (use n in \<open>simp add: NMAX_def\<close>)
  have "fst r \<le> fst (nats t) + 255 * length bs" using raw_bound [of "bytes bs" "nats t"] byte_le by (simp add: r_def)
  then have 1: "fst r < 2 * BASE" using v n by (simp add: valid_sums_def BASE_def)
  have 2: "snd r < 2 ^ 32" using block_fits [OF v, of bs] n by (simp add: r_def NMAX_def)
  have "fst (foldl DO1 t bs) = of_nat (fst r)" "snd (foldl DO1 t bs) = of_nat (snd r)"
    using w by (auto simp: nats_def)
  then have "join_sums (wrap_once (fst (foldl DO1 t bs)), snd (foldl DO1 t bs) mod of_nat BASE) = pack_sums (fst r mod BASE, snd r mod BASE)"
    using wrap_once_mod [OF 1] mod_nat32 [OF 2] by (simp add: join_of_nat BASE_def)
  then show ?thesis
    using raw_mod [of "nats t" "bytes bs"] v by (simp add: r_def checksum_from_def valid_sums_def)
qed

text \<open>All paths together.\<close>

lemma adler32_checksum:
  assumes "valid_sums (unat adler mod 65536, unat adler div 65536)"
  shows "adler32 adler (Some bs) = pack_sums (checksum_from (unat adler mod 65536, unat adler div 65536) bs)"
proof -
  define a s where "a = fst (split_sums adler)" and "s = snd (split_sums adler)"
  have n: "nats (a, s) = (unat adler mod 65536, unat adler div 65536)" using nats_split [of adler] by (simp add: a_def s_def)
  then have v: "valid_sums (nats (a, s))" using assms by simp
  have sp: "split_sums adler = (a, s)" by (simp add: a_def s_def)
  consider (one) b where "bs = [b]" | (short) "length bs \<noteq> 1" "length bs < 16" | (long) "\<not> length bs < 16"
    by (cases "length bs = 1") (auto simp: length_Suc_conv)
  then show ?thesis
  proof cases
    case one
    then show ?thesis using one_byte [OF v] n by (simp add: adler32_def adler32_z_def sp Let_def)
  next
    case short
    then show ?thesis using short_bytes [OF v] n by (simp add: adler32_def adler32_z_def sp Let_def)
  next
    case long
    obtain t rest where b: "nmax_blocks (a, s) bs = (t, rest)" by (cases "nmax_blocks (a, s) bs")
    note B = nmax_blocks_ok [OF v b]
    have r: "nats (remaining t rest) = checksum_from (nats (a, s)) bs" using B remaining_ok by simp
    then have "join_sums (remaining t rest) = pack_sums (checksum_from (nats (a, s)) bs)"
      using join_nats checksum_valid [OF v, of bs] by metis
    then show ?thesis using long b n by (auto simp: adler32_def adler32_z_def sp Let_def)
  qed
qed

text \<open>C13. Equivalence with the definition of the checksum: started from a valid checksum, \<^verbatim>\<open>adler32\<close> returns
  the two sums modulo 65521 taken after every byte, on all its paths; the sums it reduces only once
  per block of 5552 bytes never wrap at 32 bits.\<close>

theorem adler32_correct:
  assumes "valid_sums (unat adler mod 65536, unat adler div 65536)"
  shows "adler32 adler (Some bs) = pack_sums (checksum_from (unat adler mod 65536, unat adler div 65536) bs)"
  by (rule adler32_checksum [OF assms])

text \<open>The hypothesis at the initial value of the checksum.\<close>

lemma adler32_correct_witness:
  "adler32 1 (Some [97, 98, 99]) = pack_sums (checksum_from (unat (1 :: 32 word) mod 65536, unat (1 :: 32 word) div 65536) [97, 98, 99])"
  by (rule adler32_correct) (simp add: valid_sums_def BASE_def)

section \<open>Combining\<close>

text \<open>The sums of a text in terms of those from zero.\<close>

definition weight :: "nat list \<Rightarrow> nat" where
  "weight xs = snd (foldl raw_step (0, 0) xs)"

lemma raw_shift: "foldl raw_step (a, s) xs = (a + sum_list xs, s + length xs * a + weight xs)"
proof (induction xs rule: rev_induct)
  case (snoc x xs)
  have "fst (foldl raw_step (0, 0) xs) = sum_list xs"
    by (induction xs rule: rev_induct) (simp_all add: raw_step_def)
  then have "weight (xs @ [x]) = weight xs + sum_list xs + x" by (simp add: weight_def raw_step_def)
  then show ?case using snoc by (simp add: raw_step_def algebra_simps)
qed (simp add: weight_def)

lemma checksum_shift:
  "valid_sums (a, s) \<Longrightarrow>
   checksum_from (a, s) bs = ((a + sum_list (bytes bs)) mod BASE, (s + length bs * a + weight (bytes bs)) mod BASE)"
  using raw_mod [of "(a, s)" "bytes bs"] by (simp add: raw_shift checksum_from_def valid_sums_def)

lemma combine_sum1: "(A + (1 + z) mod BASE + BASE - 1) mod BASE = (A + z) mod BASE"
proof -
  have "A + (1 + z) mod BASE + BASE - 1 = A + (1 + z) mod BASE + (BASE - 1)" by (simp add: BASE_def)
  also have "\<dots> mod BASE = (A + (1 + z) + (BASE - 1)) mod BASE" by (metis mod_add_left_eq mod_add_right_eq)
  also have "A + (1 + z) + (BASE - 1) = (A + z) + BASE" by (simp add: BASE_def)
  finally show ?thesis by simp
qed

lemma combine_sum2:
  "((n mod BASE * A) mod BASE + S + (n + w) mod BASE + BASE - n mod BASE) mod BASE = (S + n * A + w) mod BASE"
proof -
  let ?r = "n mod BASE"
  have r: "?r < BASE" by (simp add: BASE_def)
  have "(?r * A) mod BASE + S + (n + w) mod BASE + BASE - ?r = (?r * A) mod BASE + S + (n + w) mod BASE + (BASE - ?r)"
    using r by simp
  also have "\<dots> mod BASE = (n * A + S + (n + w) + (BASE - ?r)) mod BASE"
    by (intro mod_add_cong) (simp_all add: mod_mult_left_eq)
  also have "n * A + S + (n + w) + (BASE - ?r) = (S + n * A + w) + (n - ?r + BASE)"
    using r mod_less_eq_dividend [of n BASE] by simp
  also have "\<dots> mod BASE = (S + n * A + w) mod BASE"
  proof -
    have "n - ?r + BASE = BASE * (n div BASE + 1)" by (simp add: minus_mod_eq_mult_div)
    then show ?thesis by (simp only: mod_mult_self2)
  qed
  finally show ?thesis .
qed

lemma split_pack: "valid_sums (a, s) \<Longrightarrow> split_sums (pack_sums (a, s)) = (of_nat a, of_nat s)"
proof -
  assume v: "valid_sums (a, s)"
  then have "unat (pack_sums (a, s)) = s * 65536 + a"
    unfolding pack_sums_def by (subst unat_of_nat32) (auto simp: valid_sums_def BASE_def)
  then have "nats (split_sums (pack_sums (a, s))) = (a, s)" using v by (simp add: nats_split valid_sums_def BASE_def)
  then show ?thesis by (cases "split_sums (pack_sums (a, s))") (auto simp: nats_def)
qed

text \<open>The word arithmetic of the combination, on valid checksums.\<close>

lemma combine_words:
  assumes v1: "valid_sums (A, S)" and v2: "valid_sums (B, T)"
  shows "adler32_combine (pack_sums (A, S)) (pack_sums (B, T)) (int n) =
    pack_sums ((A + B + BASE - 1) mod BASE, ((n mod BASE * A) mod BASE + S + T + BASE - n mod BASE) mod BASE)"
proof -
  define r where "r = n mod BASE"
  have r: "r < BASE" by (simp add: r_def BASE_def)
  have v: "A < BASE" "S < BASE" "B < BASE" "T < BASE" using v1 v2 by (simp_all add: valid_sums_def)
  have p: "pack_sums (A, S) AND 0xffff = of_nat A" "drop_bit 16 (pack_sums (A, S)) AND 0xffff = of_nat S"
    "pack_sums (B, T) AND 0xffff = of_nat B" "drop_bit 16 (pack_sums (B, T)) AND 0xffff = of_nat T"
    using split_pack [OF v1] split_pack [OF v2] by (simp_all add: split_sums_def)
  have rem: "(word_of_int (int n mod int BASE) :: 32 word) = of_nat r"
    unfolding r_def by (metis of_int_of_nat_eq zmod_int)
  have "r * A \<le> 65520 * 65520" by (rule mult_le_mono) (use r v in \<open>simp_all add: BASE_def\<close>)
  then have prod: "(of_nat r * of_nat A :: 32 word) mod of_nat BASE = of_nat ((r * A) mod BASE)"
    using mod_nat32 [of "r * A"] by simp
  define x where "x = A + B + BASE - 1"
  define y where "y = (r * A) mod BASE + S + T + BASE - r"
  have x: "x < 3 * BASE - 2" using v by (simp add: x_def BASE_def)
  have m: "(r * A) mod BASE < BASE" by (simp add: BASE_def)
  have y: "y < 4 * BASE" unfolding y_def using v m by linarith
  have s1: "of_nat A + (of_nat B + of_nat BASE - 1) = (of_nat x :: 32 word)"
    by (simp add: x_def of_nat_diff BASE_def)
  have s2: "of_nat ((r * A) mod BASE) + (of_nat S + of_nat T + of_nat BASE - of_nat r) = (of_nat y :: 32 word)"
    using r by (simp add: y_def of_nat_diff)
  have w1: "wrap_once (wrap_once (of_nat x)) = of_nat (x mod BASE)"
    using x wrap_once_nat [of x] wrap_once_mod [of x] wrap_once_mod [of "x - BASE"] wrap_once_mod [of "x mod BASE"]
    by (cases "x < BASE") (auto simp: BASE_def mod_if le_mod_geq)
  have ge: "of_nat (2 * BASE) \<le> (of_nat y :: 32 word) \<longleftrightarrow> 2 * BASE \<le> y"
    using y unat_of_nat32 [of y] unat_of_nat32 [of "2 * BASE"] by (simp add: word_le_nat_alt BASE_def)
  have w2: "wrap_once (if of_nat (2 * BASE) \<le> (of_nat y :: 32 word) then of_nat y - of_nat (2 * BASE) else of_nat y) = of_nat (y mod BASE)"
  proof (cases "2 * BASE \<le> y")
    case True
    have "wrap_once (of_nat (y - 2 * BASE)) = of_nat ((y - 2 * BASE) mod BASE)" using y True by (intro wrap_once_mod) simp
    moreover have "(y - 2 * BASE) mod BASE = y mod BASE" using True by (metis mod_mult_self2 le_add_diff_inverse2 mult.commute)
    ultimately show ?thesis using True ge by (simp only: if_True of_nat_diff [OF True, symmetric])
  next
    case False
    then show ?thesis using ge wrap_once_mod [of y] by simp
  qed
  have "adler32_combine (pack_sums (A, S)) (pack_sums (B, T)) (int n) = join_sums (of_nat (x mod BASE), of_nat (y mod BASE))"
    by (simp only: adler32_combine_def adler32_combine_local_def Let_def p rem prod s1 s2 w1 w2) simp
  also have "\<dots> = pack_sums (x mod BASE, y mod BASE)" by (rule join_of_nat) (simp_all add: BASE_def)
  finally show ?thesis by (simp add: x_def y_def r_def)
qed

text \<open>The checksum of a concatenation can be computed from the checksums of its parts and the length of
  the second: \<^verbatim>\<open>adler32_combine\<close> returns exactly what \<^verbatim>\<open>adler32\<close> returns for the whole text.\<close>

theorem adler32_combine_concat:
  "adler32_combine (adler32 1 (Some xs)) (adler32 1 (Some ys)) (int (length ys)) = adler32 1 (Some (xs @ ys))"
proof -
  have one: "valid_sums (1, 0)" by (simp add: valid_sums_def BASE_def)
  have start: "adler32 1 (Some bs) = pack_sums (checksum_from (1, 0) bs)" for bs
    using adler32_checksum [of 1 bs] one by simp
  obtain A S where c: "checksum_from (1, 0) xs = (A, S)" by (cases "checksum_from (1, 0) xs")
  have v1: "valid_sums (A, S)" using checksum_valid [OF one, of xs] c by simp
  let ?z = "sum_list (bytes ys)" and ?w = "weight (bytes ys)"
  have d: "checksum_from (1, 0) ys = ((1 + ?z) mod BASE, (length ys + ?w) mod BASE)"
    using checksum_shift [OF one, of ys] by simp
  have v2: "valid_sums ((1 + ?z) mod BASE, (length ys + ?w) mod BASE)" by (simp add: valid_sums_def BASE_def)
  have "checksum_from (1, 0) (xs @ ys) = ((A + ?z) mod BASE, (S + length ys * A + ?w) mod BASE)"
    using checksum_append [of "(1, 0)" xs ys] c checksum_shift [OF v1, of ys] by simp
  then show ?thesis unfolding start c d combine_words [OF v1 v2] by (simp only: combine_sum1 combine_sum2)
qed

end
