(* ===== verification/Crc32.thy ===== *)
theory Crc32
  imports Crc32Tables
begin

text \<open>
  The CRC-32 of \<^verbatim>\<open>zlib/crc32.c\<close> as the 32-bit little-endian target builds it: constant tables, five
  braids of four-byte words, \<^verbatim>\<open>uLong\<close> of 32 bits; and the code that generated the tables. The
  buffer is \<open>None\<close> for the null pointer; \<open>addr\<close> stands for the address of its first byte, on which the
  alignment loop depends.
\<close>

unbundle bit_operations_syntax

section \<open>The code\<close>

definition N :: nat where "N = 5"
definition W :: nat where "W = 4"
definition POLY :: u32 where "POLY = 0xedb88320"

text \<open>\<^verbatim>\<open>b & 1 ? (b >> 1) ^ POLY : b >> 1\<close>: multiplication by \<open>x\<close>.\<close>

definition times_x :: "u32 \<Rightarrow> u32" where
  "times_x b = (if b AND 1 \<noteq> 0 then drop_bit 1 b XOR POLY else drop_bit 1 b)"

text \<open>The loop of \<^verbatim>\<open>multmodp\<close>; after 32 rounds \<^verbatim>\<open>m\<close> is zero and the loop can never end, which is \<open>None\<close>.\<close>

fun multmodp_loop :: "nat \<Rightarrow> u32 \<Rightarrow> u32 \<Rightarrow> u32 \<Rightarrow> u32 \<Rightarrow> u32 option" where
  "multmodp_loop 0 a m p b = None"
| "multmodp_loop (Suc n) a m p b =
     (let p1 = (if a AND m \<noteq> 0 then p XOR b else p) in
      if a AND m \<noteq> 0 \<and> a AND (m - 1) = 0 then Some p1
      else multmodp_loop n a (drop_bit 1 m) p1 (times_x b))"

definition multmodp :: "u32 \<Rightarrow> u32 \<Rightarrow> u32 option" where
  "multmodp a b = multmodp_loop 32 a (push_bit 31 1) 0 b"

text \<open>A negative exponent stays negative under the arithmetic shift, so the loop does not end.\<close>

function x2nmodp_loop :: "int \<Rightarrow> nat \<Rightarrow> u32 \<Rightarrow> u32 option" where
  "x2nmodp_loop n k p =
     (if n = 0 then Some p
      else if n < 0 then None
      else
        (case (if n mod 2 = 1 then multmodp (x2n_table ! (k mod 32)) p else Some p) of
           None \<Rightarrow> None
         | Some p1 \<Rightarrow> x2nmodp_loop (n div 2) (k + 1) p1))"
  by auto
termination by (relation "measure (\<lambda>(n, k, p). nat n)") auto

declare x2nmodp_loop.simps [simp del]

definition x2nmodp :: "int \<Rightarrow> nat \<Rightarrow> u32 option" where
  "x2nmodp n k = x2nmodp_loop n k (push_bit 31 1)"

text \<open>The generator of the tables: \<^verbatim>\<open>make_crc_table\<close> and the little-endian half of \<^verbatim>\<open>braid\<close>.\<close>

definition make_crc_bytes :: "u32 list" where
  "make_crc_bytes = map (\<lambda>i. (times_x ^^ 8) (of_nat i)) [0..<256]"

fun squares :: "nat \<Rightarrow> u32 \<Rightarrow> u32 list option" where
  "squares 0 p = Some []"
| "squares (Suc n) p =
     (case multmodp p p of None \<Rightarrow> None | Some q \<Rightarrow> map_option (Cons q) (squares n q))"

definition make_x2n_table :: "u32 list option" where
  "make_x2n_table = map_option (Cons (push_bit 30 1)) (squares 31 (push_bit 30 1))"

definition braid_row :: "nat \<Rightarrow> nat \<Rightarrow> nat \<Rightarrow> u32 list option" where
  "braid_row n w k =
     (case x2nmodp (int ((n * w + 3 - k) * 8)) 0 of
        None \<Rightarrow> None
      | Some p \<Rightarrow> map_option (Cons 0) (those (map (\<lambda>i. multmodp (push_bit 24 (of_nat i)) p) [1..<256])))"

definition braid :: "nat \<Rightarrow> nat \<Rightarrow> u32 list list option" where
  "braid n w = those (map (braid_row n w) [0..<w])"

text \<open>One byte: \<^verbatim>\<open>crc = (crc >> 8) ^ crc_table[(crc ^ *buf++) & 0xff]\<close>.\<close>

definition crc_byte :: "u32 \<Rightarrow> u8 \<Rightarrow> u32" where
  "crc_byte crc b = drop_bit 8 crc XOR crc_table ! unat ((crc XOR ucast b) AND 0xff)"

definition crc_word :: "u32 \<Rightarrow> u32" where
  "crc_word data = ((\<lambda>d. drop_bit 8 d XOR crc_table ! unat (d AND 0xff)) ^^ W) data"

text \<open>A word and the \<open>N\<close> words of a block in little-endian memory.\<close>

definition load_word :: "u8 list \<Rightarrow> u32" where
  "load_word bs = ucast (bs ! 0) OR push_bit 8 (ucast (bs ! 1)) OR push_bit 16 (ucast (bs ! 2)) OR push_bit 24 (ucast (bs ! 3))"

definition block_words :: "u8 list \<Rightarrow> u32 list" where
  "block_words bs = map (\<lambda>j. load_word (drop (W * j) bs)) [0..<N]"

fun align_loop :: "nat \<Rightarrow> u32 \<Rightarrow> u8 list \<Rightarrow> u32 \<times> u8 list" where
  "align_loop addr crc [] = (crc, [])"
| "align_loop addr crc (b # bs) =
     (if addr mod W \<noteq> 0 then align_loop (addr + 1) (crc_byte crc b) bs else (crc, b # bs))"

text \<open>One word of a braid through the \<open>W\<close> tables.\<close>

definition braid_word :: "u32 \<Rightarrow> u32" where
  "braid_word word =
     foldl (\<lambda>c k. c XOR crc_braid_table ! k ! unat (drop_bit (8 * k) word AND 0xff))
       (crc_braid_table ! 0 ! unat (word AND 0xff)) [1..<W]"

fun braid_loop :: "nat \<Rightarrow> u32 list \<Rightarrow> u8 list \<Rightarrow> u32 list \<times> u8 list" where
  "braid_loop 0 crcs buf = (crcs, buf)"
| "braid_loop (Suc blks) crcs buf =
     braid_loop blks (map2 (\<lambda>c w. braid_word (c XOR w)) crcs (block_words buf)) (drop (N * W) buf)"

text \<open>The last block joins the braids.\<close>

definition join_braids :: "u32 list \<Rightarrow> u32 list \<Rightarrow> u32" where
  "join_braids crcs ws = foldl (\<lambda>crc (c, w). crc_word (c XOR w XOR crc)) 0 (zip crcs ws)"

definition crc_braided :: "nat \<Rightarrow> u32 \<Rightarrow> u8 list \<Rightarrow> u32 \<times> u8 list" where
  "crc_braided addr crc buf =
     (case align_loop addr crc buf of (crc1, buf1) \<Rightarrow>
        (let blks = length buf1 div (N * W) in
         case braid_loop (blks - 1) (crc1 # replicate (N - 1) 0) buf1 of (crcs, buf2) \<Rightarrow>
           (join_braids crcs (block_words buf2), drop (N * W) buf2)))"

text \<open>The remaining bytes, eight at a time and then one by one.\<close>

function crc_rest :: "u32 \<Rightarrow> u8 list \<Rightarrow> u32" where
  "crc_rest crc buf =
     (if length buf \<ge> 8 then crc_rest (foldl crc_byte crc (take 8 buf)) (drop 8 buf)
      else foldl crc_byte crc buf)"
  by auto
termination by (relation "measure (\<lambda>(c, b). length b)") auto

declare crc_rest.simps [simp del]

definition crc32_z :: "nat \<Rightarrow> u32 \<Rightarrow> u8 list option \<Rightarrow> u32" where
  "crc32_z addr crc buf =
     (case buf of
        None \<Rightarrow> 0
      | Some bs \<Rightarrow>
          (case (if length bs \<ge> N * W + W - 1 then crc_braided addr (NOT crc) bs else (NOT crc, bs)) of
             (crc1, bs1) \<Rightarrow> crc_rest crc1 bs1 XOR 0xffffffff))"

definition crc32 :: "nat \<Rightarrow> u32 \<Rightarrow> u8 list option \<Rightarrow> u32" where
  "crc32 addr crc buf = crc32_z addr crc buf"

definition crc32_combine_op :: "u32 \<Rightarrow> u32 \<Rightarrow> u32 \<Rightarrow> u32 option" where
  "crc32_combine_op crc1 crc2 oper = map_option (\<lambda>p. p XOR crc2) (multmodp oper crc1)"

definition crc32_combine_gen64 :: "int \<Rightarrow> u32 option" where
  "crc32_combine_gen64 len2 = x2nmodp len2 3"

definition crc32_combine64 :: "u32 \<Rightarrow> u32 \<Rightarrow> int \<Rightarrow> u32 option" where
  "crc32_combine64 crc1 crc2 len2 =
     (case x2nmodp len2 3 of None \<Rightarrow> None | Some p \<Rightarrow> map_option (\<lambda>q. q XOR crc2) (multmodp p crc1))"

section \<open>Reference: the shift register\<close>

text \<open>The definition of the CRC, bit by bit, the least significant bit of a byte first.\<close>

definition lfsr_bit :: "u32 \<Rightarrow> bool \<Rightarrow> u32" where
  "lfsr_bit c i = (if bit c 0 \<noteq> i then drop_bit 1 c XOR POLY else drop_bit 1 c)"

definition byte_bits :: "u8 \<Rightarrow> bool list" where
  "byte_bits b = map (bit b) [0..<8]"

definition crc_spec :: "u32 \<Rightarrow> u8 list \<Rightarrow> u32" where
  "crc_spec crc bs = NOT (foldl lfsr_bit (NOT crc) (concat (map byte_bits bs)))"

section \<open>Powers of x\<close>

abbreviation xpow :: "nat \<Rightarrow> u32 \<Rightarrow> u32" where "xpow n b \<equiv> (times_x ^^ n) b"

lemma odd_word: "w AND 1 \<noteq> 0 \<longleftrightarrow> bit w 0" for w :: u32
  by (simp add: bit_0 and_one_eq odd_iff_mod_2_eq_one)

lemma xor_cancel [simp]: "a XOR (a XOR b) = (b :: u32)"
  by (simp flip: xor.assoc)

lemma times_x_xor: "times_x (a XOR b) = times_x a XOR times_x b"
  by (cases "bit a 0"; cases "bit b 0") (simp_all add: times_x_def odd_word bit_xor_iff drop_bit_xor xor.assoc xor.commute xor.left_commute)

lemma times_x_0 [simp]: "times_x 0 = 0" "xpow n 0 = 0"
proof -
  show z: "times_x 0 = 0" by (simp add: times_x_def)
  then show "xpow n 0 = 0" by (induction n) simp_all
qed

lemma xpow_xor: "xpow n (a XOR b) = xpow n a XOR xpow n b"
  by (induction n) (simp_all add: times_x_xor)

lemma xpow_add: "xpow m (xpow n b) = xpow (m + n) b"
  by (simp add: funpow_add)

text \<open>Low zero bits are shifted out.\<close>

lemma xpow_shift: "(\<forall>i<n. \<not> bit w i) \<Longrightarrow> xpow n w = drop_bit n w"
proof (induction n)
  case (Suc n)
  then have "\<not> bit (drop_bit n w) 0" by (simp add: bit_drop_bit_eq)
  then have "times_x (drop_bit n w) = drop_bit (Suc n) w" by (simp add: times_x_def odd_word)
  moreover have "xpow n w = drop_bit n w" using Suc by simp
  ultimately show ?case by (simp only: funpow.simps comp_apply)
qed simp

lemma xpow_push:
  assumes "n + size b \<le> 32"
  shows "xpow n (push_bit n (ucast (b :: 'a :: len word))) = ucast b"
proof -
  have "\<not> bit (push_bit n (ucast b :: u32)) i" if "i < n" for i using that by (simp add: bit_push_bit_iff)
  then have "xpow n (push_bit n (ucast b)) = drop_bit n (push_bit n (ucast b :: u32))" by (simp add: xpow_shift)
  also have "\<dots> = ucast b"
    using assms by (auto simp: bit_eq_iff bit_drop_bit_eq bit_push_bit_iff bit_ucast_iff word_size dest: bit_imp_le_length)
  finally show ?thesis .
qed

lemma times_x_inj: "times_x a = 0 \<Longrightarrow> a = 0"
proof -
  assume z: "times_x a = 0"
  have "\<not> bit a 32" using bit_imp_le_length [of a 32] by auto
  then have "bit (drop_bit 1 a XOR POLY) 31" by (simp add: bit_xor_iff bit_drop_bit_eq POLY_def)
  then have e: "\<not> bit a 0" "drop_bit 1 a = 0" using z by (auto simp: times_x_def odd_word split: if_splits)
  have "\<not> bit a i" for i
  proof (cases i)
    case (Suc j)
    have "bit (drop_bit 1 a) j = bit a (Suc j)" by (simp add: bit_drop_bit_eq)
    then show ?thesis using e(2) Suc by simp
  qed (use e(1) in simp)
  then show "a = 0" by (simp add: bit_eq_iff)
qed

lemma xpow_nonzero: "a \<noteq> 0 \<Longrightarrow> xpow n a \<noteq> 0"
  by (induction n) (auto dest: times_x_inj)


section \<open>Multiplication\<close>

text \<open>The product as a sum of shifted copies of \<open>b\<close>, one for each coefficient of \<open>a\<close>; the bit
  \<open>31 - i\<close> is the coefficient of \<open>x\<close> to the \<open>i\<close>.\<close>

fun prod_upto :: "nat \<Rightarrow> u32 \<Rightarrow> u32 \<Rightarrow> u32" where
  "prod_upto 0 a b = 0"
| "prod_upto (Suc n) a b = prod_upto n a b XOR (if bit a (31 - n) then xpow n b else 0)"

abbreviation pmul :: "u32 \<Rightarrow> u32 \<Rightarrow> u32" where "pmul \<equiv> prod_upto 32"

definition one :: u32 where "one = push_bit 31 1"

lemma bit_one: "bit one i \<longleftrightarrow> i = 31"
  unfolding one_def bit_push_bit_iff by (auto simp: bit_1_iff)

lemma and_bit: "a AND push_bit n 1 \<noteq> 0 \<longleftrightarrow> bit a n" for a :: u32
  by (metis and_exp_eq_0_iff_not_bit push_bit_of_1)

lemma prod_upto_rest: "(\<And>i. i < k \<Longrightarrow> \<not> bit a i) \<Longrightarrow> n + k = 32 \<Longrightarrow> pmul a b = prod_upto n a b"
proof (induction k arbitrary: n)
  case (Suc k)
  have "pmul a b = prod_upto (Suc n) a b" by (rule Suc.IH) (use Suc.prems in auto)
  moreover have "31 - n = k" using Suc.prems(2) by simp
  then have "\<not> bit a (31 - n)" using Suc.prems(1) [of k] by simp
  ultimately show ?case by (simp only: prod_upto.simps if_False xor.right_neutral)
qed simp

lemma mask_and: "n < 32 \<Longrightarrow> a AND (push_bit n 1 - 1) = 0 \<longleftrightarrow> (\<forall>i<n. \<not> bit a i)" for a :: u32
proof -
  assume n: "n < 32"
  have "a AND (push_bit n 1 - 1) = take_bit n a"
    by (simp add: take_bit_eq_mask mask_eq_decr_exp push_bit_of_1)
  then show ?thesis using n by (auto simp: bit_eq_iff bit_take_bit_iff)
qed

lemma multmodp_loop_ok:
  "k < 32 \<Longrightarrow> \<exists>i\<le>k. bit a i \<Longrightarrow>
   multmodp_loop (Suc k) a (push_bit k 1) (prod_upto (31 - k) a b) (xpow (31 - k) b) = Some (pmul a b)"
proof (induction k)
  case 0
  then have "bit a 0" by simp
  then show ?case by (simp add: and_bit [of _ 0, simplified] eval_nat_numeral odd_word)
next
  case (Suc k)
  have step: "prod_upto (31 - k) a b = prod_upto (31 - Suc k) a b XOR (if bit a (Suc k) then xpow (31 - Suc k) b else 0)"
  proof -
    have "31 - k = Suc (31 - Suc k)" "31 - (31 - Suc k) = Suc k" using Suc.prems(1) by simp_all
    then show ?thesis by (simp only: prod_upto.simps)
  qed
  have pow: "xpow (31 - k) b = times_x (xpow (31 - Suc k) b)"
  proof -
    have "31 - k = Suc (31 - Suc k)" using Suc.prems(1) by simp
    then show ?thesis by (simp only: funpow.simps comp_apply)
  qed
  show ?case
  proof (cases "bit a (Suc k) \<and> (\<forall>i<Suc k. \<not> bit a i)")
    case True
    then have "pmul a b = prod_upto (31 - k) a b" using prod_upto_rest [of "Suc k" a "31 - k"] Suc.prems(1) by simp
    then show ?thesis using True step Suc.prems(1) and_bit [of a "Suc k"] mask_and [of "Suc k" a] by (simp del: prod_upto.simps)
  next
    case False
    then have "\<exists>i\<le>k. bit a i" using Suc.prems(2) by (metis le_Suc_eq less_Suc_eq_le)
    moreover have "drop_bit 1 (push_bit (Suc k) 1) = (push_bit k 1 :: u32)"
      using Suc.prems(1) by (intro bit_word_eqI) (auto simp: bit_drop_bit_eq push_bit_of_1 bit_exp_iff simp del: power_Suc)
    ultimately show ?thesis
      using False Suc.IH Suc.prems(1) step pow and_bit [of a "Suc k"] mask_and [of "Suc k" a]
      by (auto simp del: prod_upto.simps funpow.simps multmodp_loop.simps(1) simp: Let_def)
  qed
qed

lemma multmodp_ok: "a \<noteq> 0 \<Longrightarrow> multmodp a b = Some (pmul a b)"
proof -
  assume "a \<noteq> 0"
  then obtain i where "bit a i" by (auto simp: bit_eq_iff)
  moreover from this have "i \<le> 31" using bit_imp_le_length by fastforce
  ultimately show ?thesis using multmodp_loop_ok [of 31 a b] by (auto simp: multmodp_def)
qed


section \<open>Algebra\<close>

lemma prod_xor_left: "prod_upto n (a XOR c) b = prod_upto n a b XOR prod_upto n c b"
  by (induction n) (auto simp: bit_xor_iff xor.assoc xor.commute xor.left_commute)

lemma prod_xor_right: "prod_upto n a (b XOR c) = prod_upto n a b XOR prod_upto n a c"
  by (induction n) (auto simp: xpow_xor xor.assoc xor.commute xor.left_commute)

lemma prod_times_x: "prod_upto n a (times_x b) = times_x (prod_upto n a b)"
  by (induction n) (auto simp: times_x_xor funpow_swap1)

lemma xpow_one: "n < 32 \<Longrightarrow> xpow n one = push_bit (31 - n) 1"
  by (subst xpow_shift) (auto simp: bit_one push_bit_of_1 bit_exp_iff bit_drop_bit_eq simp del: power_Suc intro!: bit_word_eqI)

lemma bit_prod_one: "n \<le> 32 \<Longrightarrow> i < 32 \<Longrightarrow> bit (prod_upto n a one) i \<longleftrightarrow> bit a i \<and> 32 \<le> n + i"
proof (induction n)
  case (Suc n)
  then have "bit (prod_upto (Suc n) a one) i \<longleftrightarrow> (bit a i \<and> 32 \<le> n + i) \<noteq> (bit a (31 - n) \<and> i = 31 - n)"
    by (auto simp: bit_xor_iff xpow_one push_bit_of_1 bit_exp_iff simp del: power_Suc)
  then show ?case using Suc.prems by (cases "i = 31 - n") auto
qed simp

lemma pmul_one [simp]: "pmul a one = a"
  using bit_prod_one [of 32 _ a] by (intro bit_word_eqI) (simp del: prod_upto.simps)

text \<open>A linear map that commutes with multiplication by \<open>x\<close> is multiplication by its value at one.\<close>

lemma linear_pmul:
  assumes lin: "\<And>a b. F (a XOR b) = F a XOR F b" and com: "\<And>b. F (times_x b) = times_x (F b)"
  shows "F b = pmul b (F one)"
proof -
  have z: "F 0 = 0" using lin [of 0 0] by simp
  have pow: "F (xpow n c) = xpow n (F c)" for n c by (induction n) (simp_all add: com)
  have "F (prod_upto n b one) = prod_upto n b (F one)" for n
    by (induction n) (simp_all add: z lin pow)
  from this [of 32] show ?thesis by simp
qed

lemma pmul_commute: "pmul a b = pmul b a"
  using linear_pmul [of "pmul a" b] by (simp add: prod_xor_right prod_times_x)

lemma pmul_times_x: "pmul (times_x a) b = times_x (pmul a b)"
  using prod_times_x [of 32 b a] pmul_commute by metis

lemma pmul_xpow: "pmul (xpow n one) b = xpow n b"
proof -
  have "pmul (xpow n a) b = xpow n (pmul a b)" for a by (induction n) (simp_all add: pmul_times_x)
  then show ?thesis using pmul_commute [of one b] by simp
qed

lemma one_nonzero [simp]: "one \<noteq> 0"
  using bit_one [of 31] by auto

lemma multmodp_xpow: "multmodp (xpow n one) b = Some (xpow n b)"
  using multmodp_ok [OF xpow_nonzero [OF one_nonzero]] pmul_xpow by simp

section \<open>The tables\<close>

lemma multmodp_loop_num:
  "multmodp_loop (numeral k) a m p b =
     (let p1 = (if a AND m \<noteq> 0 then p XOR b else p) in
      if a AND m \<noteq> 0 \<and> a AND (m - 1) = 0 then Some p1
      else multmodp_loop (pred_numeral k) a (drop_bit 1 m) p1 (times_x b))"
  by (simp add: numeral_eq_Suc)

lemmas multmodp_eval = multmodp_def multmodp_loop_num Let_def times_x_def POLY_def x2n_table_def

definition squared :: "nat \<Rightarrow> bool" where
  "squared k \<longleftrightarrow> multmodp (x2n_table ! k) (x2n_table ! k) = Some (x2n_table ! (Suc k mod 32))"

lemma squared_0: "list_all squared [0, 1, 2, 3, 4, 5, 6, 7]"
  by (simp add: squared_def multmodp_eval)

lemma squared_8: "list_all squared [8, 9, 10, 11, 12, 13, 14, 15]"
  by (simp add: squared_def multmodp_eval)

lemma squared_16: "list_all squared [16, 17, 18, 19, 20, 21, 22, 23]"
  by (simp add: squared_def multmodp_eval)

lemma squared_24: "list_all squared [24, 25, 26, 27, 28, 29, 30, 31]"
  by (simp add: squared_def multmodp_eval)

lemma squared_all: "k < 32 \<Longrightarrow> squared k"
proof -
  assume "k < 32"
  then have "k \<in> set ([0, 1, 2, 3, 4, 5, 6, 7] @ [8, 9, 10, 11, 12, 13, 14, 15] @ [16, 17, 18, 19, 20, 21, 22, 23] @
      [24, 25, 26, 27, 28, 29, 30, 31])" by simp presburger
  then show ?thesis using squared_0 squared_8 squared_16 squared_24 unfolding list_all_iff by auto
qed

lemma x2n_table_nth: "k < 32 \<Longrightarrow> x2n_table ! k = xpow (2 ^ k) one"
proof (induction k)
  case 0
  show ?case by (simp add: x2n_table_def xpow_one [of 1, simplified])
next
  case (Suc k)
  then have "multmodp (xpow (2 ^ k) one) (xpow (2 ^ k) one) = Some (x2n_table ! Suc k)"
    using squared_all [of k] by (simp add: squared_def)
  then show ?case by (simp add: multmodp_xpow xpow_add mult_2)
qed

lemma x2n_period: "xpow (2 ^ 32) b = times_x b"
proof -
  have "multmodp (x2n_table ! 31) (x2n_table ! 31) = Some (x2n_table ! 0)"
    using squared_all [of 31] by (simp add: squared_def)
  then have "xpow (2 ^ 31 + 2 ^ 31) one = xpow 1 one"
    using x2n_table_nth [of 31] x2n_table_nth [of 0] by (simp add: multmodp_xpow xpow_add del: funpow.simps)
  then have "xpow (2 ^ 32) one = xpow 1 one" by simp
  then show ?thesis using pmul_xpow [of "2 ^ 32" b] pmul_xpow [of 1 b] by simp
qed

lemma x2n_table_mod: "x2n_table ! (k mod 32) = xpow (2 ^ k) one"
proof -
  have "xpow (2 ^ (j + 32 * n)) one = xpow (2 ^ j) one" for j n
  proof (induction n)
    case (Suc n)
    have "(times_x ^^ (2 ^ 32)) = times_x" using x2n_period by auto
    then have "xpow (2 ^ 32 * 2 ^ (j + 32 * n)) one = xpow (2 ^ (j + 32 * n)) one"
      by (metis funpow_mult)
    moreover have "2 ^ (j + 32 * Suc n) = (2 ^ 32 * 2 ^ (j + 32 * n) :: nat)" by (simp add: power_add)
    ultimately show ?case using Suc by simp
  qed simp
  from this [of "k mod 32" "k div 32"] show ?thesis using x2n_table_nth [of "k mod 32"] by simp
qed

lemma x2nmodp_loop_ok: "0 \<le> n \<Longrightarrow> x2nmodp_loop n k (xpow m one) = Some (xpow (m + nat n * 2 ^ k) one)"
proof (induction n k "xpow m one" arbitrary: m rule: x2nmodp_loop.induct)
  case (1 n k)
  show ?case
  proof (cases "n = 0")
    case True
    then show ?thesis by (simp add: x2nmodp_loop.simps)
  next
    case False
    let ?m = "if n mod 2 = 1 then 2 ^ k + m else m"
    have step: "(if n mod 2 = 1 then multmodp (x2n_table ! (k mod 32)) (xpow m one) else Some (xpow m one)) = Some (xpow ?m one)"
      by (simp add: x2n_table_mod multmodp_xpow xpow_add)
    have "nat n = 2 * nat (n div 2) + nat (n mod 2)" using 1(2) by (simp add: nat_div_distrib nat_mod_distrib)
    moreover have "nat (n mod 2) = (if n mod 2 = 1 then 1 else 0)" by (cases "n mod 2 = 1") simp_all
    ultimately have "?m + nat (n div 2) * 2 ^ (k + 1) = m + nat n * 2 ^ k" by (simp add: algebra_simps)
    moreover have "x2nmodp_loop (n div 2) (k + 1) (xpow ?m one) = Some (xpow (?m + nat (n div 2) * 2 ^ (k + 1)) one)"
      using 1(1) [OF False _ step] 1(2) by simp
    ultimately show ?thesis using False 1(2) step by (subst x2nmodp_loop.simps) simp
  qed
qed

lemma x2nmodp_ok: "0 \<le> n \<Longrightarrow> x2nmodp n k = Some (xpow (nat n * 2 ^ k) one)"
  using x2nmodp_loop_ok [of n k 0] by (simp add: x2nmodp_def one_def)


text \<open>The tables of bytes are linear, so eight entries decide them.\<close>

definition doubled :: "u32 list \<Rightarrow> bool" where
  "doubled t \<longleftrightarrow> length t = 256 \<and> t ! 0 = 0 \<and>
     list_all (\<lambda>j. drop (2 ^ j) (take (2 ^ Suc j) t) = map (\<lambda>x. x XOR t ! (2 ^ j)) (take (2 ^ j) t)) [0, 1, 2, 3, 4, 5, 6, 7]"

lemma xor_of_nat: "r < 2 ^ j \<Longrightarrow> (of_nat r :: u32) XOR of_nat (2 ^ j) = of_nat (2 ^ j + r)"
proof -
  assume r: "r < 2 ^ j"
  then have "take_bit j (of_nat r :: u32) = of_nat r" by (simp add: take_bit_of_nat take_bit_nat_eq_self)
  then have "\<not> bit (of_nat r :: u32) j" by (metis bit_take_bit_iff less_irrefl)
  then have "(of_nat r :: u32) AND 2 ^ j = 0" by (simp add: and_exp_eq_0_iff_not_bit)
  then have "(of_nat r :: u32) + 2 ^ j = of_nat r XOR 2 ^ j" by (rule disjunctive_add_eq_xor)
  then show ?thesis by (simp add: add.commute)
qed

lemma doubled_linear:
  fixes F :: "u32 \<Rightarrow> u32"
  assumes t: "doubled t" and lin: "\<And>a b. F (a XOR b) = F a XOR F b"
    and base: "list_all (\<lambda>j. t ! (2 ^ j) = F (of_nat (2 ^ j))) [0, 1, 2, 3, 4, 5, 6, 7]" and i: "i < 256"
  shows "t ! i = F (of_nat i)"
proof -
  have dom: "j \<in> set [0, 1, 2, 3, 4, 5, 6, 7]" if "j < 8" for j :: nat using that by simp presburger
  have "\<forall>i < 2 ^ j. t ! i = F (of_nat i)" if "j \<le> 8" for j
    using that
  proof (induction j)
    case 0
    show ?case using t lin [of 0 0] by (simp add: doubled_def)
  next
    case (Suc j)
    show ?case
    proof (intro allI impI)
      fix i :: nat
      assume i: "i < 2 ^ Suc j"
      show "t ! i = F (of_nat i)"
      proof (cases "i < 2 ^ j")
        case False
        define r where "r = i - 2 ^ j"
        have r: "i = 2 ^ j + r" "r < 2 ^ j" using i False by (simp_all add: r_def)
        have len: "2 ^ Suc j \<le> length t" using t Suc.prems power_increasing [of "Suc j" 8 "2 :: nat"] by (simp add: doubled_def)
        have d: "drop (2 ^ j) (take (2 ^ Suc j) t) = map (\<lambda>x. x XOR t ! (2 ^ j)) (take (2 ^ j) t)"
          using t dom [of j] Suc.prems unfolding doubled_def list_all_iff by auto
        have "t ! i = drop (2 ^ j) (take (2 ^ Suc j) t) ! r" using r len by simp
        also have "\<dots> = t ! r XOR t ! (2 ^ j)" unfolding d using r len by simp
        also have "\<dots> = F (of_nat r) XOR F (of_nat (2 ^ j))"
          using Suc r base dom [of j] unfolding list_all_iff by auto
        finally show ?thesis using r(1) by (simp only: lin [symmetric] xor_of_nat [OF r(2)])
      qed (use Suc in simp)
    qed
  qed
  from this [of 8] i show ?thesis by simp
qed

lemma doubled_crc_table: "doubled crc_table"
  by (simp add: doubled_def crc_table_def)

lemma doubled_braid_0: "doubled crc_braid_table_0"
  by (simp add: doubled_def crc_braid_table_0_def)

lemma doubled_braid_1: "doubled crc_braid_table_1"
  by (simp add: doubled_def crc_braid_table_1_def)

lemma doubled_braid_2: "doubled crc_braid_table_2"
  by (simp add: doubled_def crc_braid_table_2_def)

lemma doubled_braid_3: "doubled crc_braid_table_3"
  by (simp add: doubled_def crc_braid_table_3_def)

lemma xpow_num: "xpow (numeral k) b = xpow (pred_numeral k) (times_x b)"
  by (simp add: numeral_eq_Suc funpow_swap1)

lemma crc_table_base: "list_all (\<lambda>j. crc_table ! (2 ^ j) = xpow 8 (of_nat (2 ^ j))) [0, 1, 2, 3, 4, 5, 6, 7]"
  by (simp add: crc_table_def times_x_def POLY_def xpow_num)

lemma crc_table_nth: "i < 256 \<Longrightarrow> crc_table ! i = xpow 8 (of_nat i)"
  by (rule doubled_linear [OF doubled_crc_table xpow_xor crc_table_base])

text \<open>Eight zero bits through the table.\<close>

definition zero_byte :: "u32 \<Rightarrow> u32" where
  "zero_byte d = drop_bit 8 d XOR crc_table ! unat (d AND 0xff)"

lemma split_low: "w = (w AND NOT (mask n)) XOR (w AND mask n)" for w :: u32
  by (auto simp: bit_eq_iff bit_xor_iff bit_and_iff bit_not_iff bit_mask_iff)

lemma low_byte_less: "unat (w AND 0xff) < 256" for w :: u32
proof -
  have "w AND 0xff = take_bit 8 w" by (simp add: take_bit_eq_mask mask_eq_exp_minus_1)
  then have "unat (w AND 0xff) = take_bit 8 (unat w)" using unsigned_take_bit_eq [of 8 w] by simp
  then show ?thesis using take_bit_nat_less_exp [of 8 "unat w"] by simp
qed

lemma zero_byte_xpow: "zero_byte d = xpow 8 d"
proof -
  have m: "mask 8 = (0xff :: u32)" by (simp add: mask_eq_exp_minus_1)
  have "xpow 8 d = xpow 8 (d AND NOT (mask 8)) XOR xpow 8 (d AND mask 8)"
    using split_low [of d 8] xpow_xor by metis
  moreover have "xpow 8 (d AND NOT (mask 8)) = drop_bit 8 (d AND NOT (mask 8))"
    by (rule xpow_shift) (simp add: bit_and_iff bit_not_iff bit_mask_iff)
  moreover have "drop_bit 8 (d AND NOT (mask 8)) = drop_bit 8 d"
    by (rule bit_word_eqI) (auto simp: bit_drop_bit_eq bit_and_iff bit_not_iff bit_mask_iff dest: bit_imp_le_length)
  ultimately show ?thesis using crc_table_nth [OF low_byte_less] by (simp add: zero_byte_def m)
qed


definition braided :: "nat \<Rightarrow> bool" where
  "braided j \<longleftrightarrow> multmodp (x2n_table ! 7) (crc_table ! (2 ^ j)) = Some (crc_braid_table_3 ! (2 ^ j))"

lemma braid_base_3: "list_all braided [0, 1, 2, 3, 4, 5, 6, 7]"
  by (simp add: braided_def multmodp_eval crc_braid_table_3_def crc_table_def)

lemma braid_base_2: "list_all (\<lambda>j. crc_braid_table_2 ! (2 ^ j) = zero_byte (crc_braid_table_3 ! (2 ^ j))) [0, 1, 2, 3, 4, 5, 6, 7]"
  by (simp add: crc_braid_table_3_def crc_braid_table_2_def crc_table_def zero_byte_def)

lemma braid_base_1: "list_all (\<lambda>j. crc_braid_table_1 ! (2 ^ j) = zero_byte (crc_braid_table_2 ! (2 ^ j))) [0, 1, 2, 3, 4, 5, 6, 7]"
  by (simp add: crc_braid_table_2_def crc_braid_table_1_def crc_table_def zero_byte_def)

lemma braid_base_0: "list_all (\<lambda>j. crc_braid_table_0 ! (2 ^ j) = zero_byte (crc_braid_table_1 ! (2 ^ j))) [0, 1, 2, 3, 4, 5, 6, 7]"
  by (simp add: crc_braid_table_1_def crc_braid_table_0_def crc_table_def zero_byte_def)

lemma braid_table_nth:
  assumes "k < 4" "i < 256"
  shows "crc_braid_table ! k ! i = xpow (8 * (20 - k)) (of_nat i)"
proof -
  have small: "2 ^ j < (256 :: nat)" if "j \<in> set [0, 1, 2, 3, 4, 5, 6, 7]" for j using that by auto
  have t0: "crc_table ! (2 ^ j) = xpow 8 (of_nat (2 ^ j))" if "j \<in> set [0, 1, 2, 3, 4, 5, 6, 7]" for j
    by (rule crc_table_nth [OF small [OF that]])
  have b3: "list_all (\<lambda>j. crc_braid_table_3 ! (2 ^ j) = xpow 136 (of_nat (2 ^ j))) [0, 1, 2, 3, 4, 5, 6, 7]"
    using braid_base_3 t0 x2n_table_nth [of 7] unfolding list_all_iff by (auto simp: braided_def multmodp_xpow xpow_add)
  have t3: "i < 256 \<Longrightarrow> crc_braid_table_3 ! i = xpow 136 (of_nat i)" for i
    by (rule doubled_linear [OF doubled_braid_3 xpow_xor b3])
  have b2: "list_all (\<lambda>j. crc_braid_table_2 ! (2 ^ j) = xpow 144 (of_nat (2 ^ j))) [0, 1, 2, 3, 4, 5, 6, 7]"
    using braid_base_2 t3 [OF small] unfolding list_all_iff by (auto simp: zero_byte_xpow xpow_add)
  have t2: "i < 256 \<Longrightarrow> crc_braid_table_2 ! i = xpow 144 (of_nat i)" for i
    by (rule doubled_linear [OF doubled_braid_2 xpow_xor b2])
  have b1: "list_all (\<lambda>j. crc_braid_table_1 ! (2 ^ j) = xpow 152 (of_nat (2 ^ j))) [0, 1, 2, 3, 4, 5, 6, 7]"
    using braid_base_1 t2 [OF small] unfolding list_all_iff by (auto simp: zero_byte_xpow xpow_add)
  have t1: "i < 256 \<Longrightarrow> crc_braid_table_1 ! i = xpow 152 (of_nat i)" for i
    by (rule doubled_linear [OF doubled_braid_1 xpow_xor b1])
  have b0: "list_all (\<lambda>j. crc_braid_table_0 ! (2 ^ j) = xpow 160 (of_nat (2 ^ j))) [0, 1, 2, 3, 4, 5, 6, 7]"
    using braid_base_0 t1 [OF small] unfolding list_all_iff by (auto simp: zero_byte_xpow xpow_add)
  have t0: "i < 256 \<Longrightarrow> crc_braid_table_0 ! i = xpow 160 (of_nat i)" for i
    by (rule doubled_linear [OF doubled_braid_0 xpow_xor b0])
  have "k = 0 \<or> k = 1 \<or> k = 2 \<or> k = 3" using assms(1) by auto
  then show ?thesis using t0 t1 t2 t3 assms(2) by (auto simp: crc_braid_table_def)
qed

section \<open>Bytes, words and braids\<close>

lemma crc_byte_xpow: "crc_byte c b = xpow 8 (c XOR ucast b)"
proof -
  have "drop_bit 8 (ucast b :: u32) = 0"
    by (rule bit_word_eqI) (auto simp: bit_drop_bit_eq bit_ucast_iff dest: bit_imp_le_length)
  then have "crc_byte c b = zero_byte (c XOR ucast b)" by (simp add: crc_byte_def zero_byte_def drop_bit_xor)
  then show ?thesis by (simp add: zero_byte_xpow)
qed

lemma lfsr_bit_times: "lfsr_bit c i = times_x (c XOR of_bool i)"
proof -
  have "drop_bit 1 (1 :: u32) = 0" by simp
  then show ?thesis by (cases i) (auto simp: lfsr_bit_def times_x_def odd_word bit_xor_iff drop_bit_xor bit_1_iff)
qed

lemma lfsr_bits:
  "n \<le> 8 \<Longrightarrow> foldl lfsr_bit c (map (bit b) [0..<n]) = xpow n (c XOR take_bit n (ucast b))" for b :: u8
proof (induction n)
  case (Suc n)
  have p: "xpow n (push_bit n 1) = (1 :: u32)"
    using Suc.prems
    by (subst xpow_shift) (auto simp: push_bit_of_1 bit_exp_iff bit_drop_bit_eq bit_1_iff simp del: power_Suc intro!: bit_word_eqI)
  have t: "take_bit (Suc n) (ucast b :: u32) = take_bit n (ucast b) XOR (if bit b n then push_bit n 1 else 0)"
    using Suc.prems
    by (intro bit_word_eqI)
      (auto simp: bit_take_bit_iff bit_xor_iff bit_ucast_iff push_bit_of_1 bit_exp_iff less_Suc_eq simp del: power_Suc)
  have ih: "foldl lfsr_bit c (map (bit b) [0..<n]) = xpow n (c XOR take_bit n (ucast b))" using Suc by simp
  have "foldl lfsr_bit c (map (bit b) [0..<Suc n]) = lfsr_bit (foldl lfsr_bit c (map (bit b) [0..<n])) (bit b n)" by simp
  also have "\<dots> = times_x (xpow n (c XOR take_bit n (ucast b)) XOR of_bool (bit b n))" unfolding ih by (rule lfsr_bit_times)
  also have "of_bool (bit b n) = xpow n (if bit b n then push_bit n 1 else 0)" using p by simp
  finally show ?case unfolding t by (simp add: xpow_xor [symmetric] xor.assoc)
qed simp

lemma lfsr_byte: "foldl lfsr_bit c (byte_bits b) = crc_byte c b"
proof -
  have "take_bit 8 (ucast b :: u32) = ucast b"
    by (rule bit_word_eqI) (auto simp: bit_take_bit_iff bit_ucast_iff dest: bit_imp_le_length)
  then show ?thesis using lfsr_bits [of 8 c b] by (simp add: byte_bits_def crc_byte_xpow)
qed

lemma lfsr_bytes: "foldl lfsr_bit c (concat (map byte_bits bs)) = foldl crc_byte c bs"
  by (induction bs arbitrary: c) (simp_all add: lfsr_byte)

lemma crc_rest_fold: "crc_rest c buf = foldl crc_byte c buf"
proof (induction c buf rule: crc_rest.induct)
  case (1 c buf)
  then show ?case by (subst crc_rest.simps) (simp flip: foldl_append)
qed


lemma crc_word_xpow: "crc_word d = xpow 32 d"
proof -
  have "(\<lambda>d. drop_bit 8 d XOR crc_table ! unat (d AND 0xff)) = times_x ^^ 8"
    using zero_byte_xpow by (auto simp: zero_byte_def)
  then show ?thesis by (simp add: crc_word_def W_def funpow_mult)
qed

definition crc_words :: "u32 \<Rightarrow> u32 list \<Rightarrow> u32" where
  "crc_words c ws = foldl (\<lambda>c w. xpow 32 (c XOR w)) c ws"

lemma load_word_xor:
  "load_word bs = ucast (bs ! 0) XOR push_bit 8 (ucast (bs ! 1)) XOR push_bit 16 (ucast (bs ! 2)) XOR push_bit 24 (ucast (bs ! 3))"
  by (rule bit_word_eqI)
    (auto simp: load_word_def bit_or_iff bit_xor_iff bit_push_bit_iff bit_ucast_iff dest: bit_imp_le_length)

lemma crc_bytes_word: "length bs = 4 \<Longrightarrow> foldl crc_byte c bs = xpow 32 (c XOR load_word bs)"
proof -
  assume "length bs = 4"
  then obtain b0 b1 b2 b3 where bs: "bs = [b0, b1, b2, b3]" by (auto simp: length_Suc_conv numeral_eq_Suc)
  have p: "ucast b = xpow 8 (push_bit 8 (ucast b :: u32))" "ucast b = xpow 16 (push_bit 16 (ucast b :: u32))"
    "ucast b = xpow 24 (push_bit 24 (ucast b :: u32))" for b :: u8
    by (simp_all add: xpow_push word_size)
  have "foldl crc_byte c bs = xpow 8 (xpow 8 (xpow 8 (xpow 8 (c XOR ucast b0) XOR ucast b1) XOR ucast b2) XOR ucast b3)"
    by (simp add: bs crc_byte_xpow)
  also have "\<dots> = xpow 8 (xpow 8 (xpow 8 (xpow 8 (c XOR ucast b0) XOR xpow 8 (push_bit 8 (ucast b1))) XOR
      xpow 16 (push_bit 16 (ucast b2))) XOR xpow 24 (push_bit 24 (ucast b3)))"
    using p by metis
  also have "\<dots> = xpow 32 (c XOR load_word bs)"
    by (simp add: bs load_word_xor xpow_xor xpow_add xor.assoc)
  finally show ?thesis .
qed

lemma crc_bytes_words:
  "length bs = 4 * n \<Longrightarrow> foldl crc_byte c bs = crc_words c (map (\<lambda>j. load_word (drop (4 * j) bs)) [0..<n])"
proof (induction n arbitrary: bs c)
  case (Suc n)
  have "[0..<Suc n] = 0 # map Suc [0..<n]" by (simp add: map_Suc_upt upt_conv_Cons)
  then have ws: "map (\<lambda>j. load_word (drop (4 * j) bs)) [0..<Suc n] =
      load_word bs # map (\<lambda>j. load_word (drop (4 * j) (drop 4 bs))) [0..<n]"
    by (simp add: add.commute)
  have l: "load_word bs = load_word (take 4 bs)" by (simp add: load_word_def)
  have "foldl crc_byte c bs = foldl crc_byte (foldl crc_byte c (take 4 bs)) (drop 4 bs)" by (simp flip: foldl_append)
  also have "\<dots> = crc_words (xpow 32 (c XOR load_word bs)) (map (\<lambda>j. load_word (drop (4 * j) (drop 4 bs))) [0..<n])"
    using Suc crc_bytes_word [of "take 4 bs" c] l by simp
  finally show ?case by (simp only: ws crc_words_def foldl.simps)
qed (simp add: crc_words_def)

lemma block_bytes: "20 \<le> length buf \<Longrightarrow> foldl crc_byte c (take 20 buf) = crc_words c (block_words buf)"
proof -
  assume len: "20 \<le> length buf"
  have "load_word (drop (4 * j) (take 20 buf)) = load_word (drop (4 * j) buf)" if "j < 5" for j
    using that len by (simp add: load_word_def)
  then have "map (\<lambda>j. load_word (drop (4 * j) (take 20 buf))) [0..<5] = block_words buf"
    by (simp add: block_words_def N_def W_def)
  then show ?thesis using crc_bytes_words [of "take 20 buf" 5 c] len by simp
qed

text \<open>One word of a braid moves on by a block of twenty bytes.\<close>

lemma xpow_byte_at:
  "k < 4 \<Longrightarrow> xpow (8 * (20 - k)) (drop_bit (8 * k) w AND 0xff) = xpow 160 (push_bit (8 * k) (drop_bit (8 * k) w AND 0xff))"
proof -
  assume k: "k < 4"
  let ?b = "drop_bit (8 * k) w AND 0xff"
  have m: "(0xff :: u32) = mask 8" by (simp add: mask_eq_exp_minus_1)
  have "xpow (8 * k) (push_bit (8 * k) ?b) = drop_bit (8 * k) (push_bit (8 * k) ?b)"
    by (rule xpow_shift) (auto simp: bit_push_bit_iff bit_and_iff)
  also have "\<dots> = ?b" unfolding m using k
    by (intro bit_word_eqI) (auto simp: bit_drop_bit_eq bit_push_bit_iff bit_and_iff bit_mask_iff)
  finally have "?b = xpow (8 * k) (push_bit (8 * k) ?b)" by (rule sym)
  then have "xpow (8 * (20 - k)) ?b = xpow (8 * (20 - k)) (xpow (8 * k) (push_bit (8 * k) ?b))" by (rule arg_cong)
  also have "\<dots> = xpow 160 (push_bit (8 * k) ?b)"
  proof -
    have "8 * (20 - k) + 8 * k = 160" using k by simp
    then show ?thesis by (simp only: xpow_add)
  qed
  finally show ?thesis .
qed

lemma word_bytes:
  "w = (w AND 0xff) XOR push_bit 8 (drop_bit 8 w AND 0xff) XOR push_bit 16 (drop_bit 16 w AND 0xff) XOR
     push_bit 24 (drop_bit 24 w AND 0xff)" for w :: u32
proof -
  have m: "(0xff :: u32) = mask 8" by (simp add: mask_eq_exp_minus_1)
  show ?thesis unfolding m
    by (rule bit_word_eqI) (auto simp: bit_xor_iff bit_and_iff bit_push_bit_iff bit_drop_bit_eq bit_mask_iff)
qed

lemma braid_word_xpow: "braid_word w = xpow 160 w"
proof -
  have t: "crc_braid_table ! k ! unat (drop_bit (8 * k) w AND 0xff) = xpow 160 (push_bit (8 * k) (drop_bit (8 * k) w AND 0xff))"
    if "k < 4" for k
    using braid_table_nth [OF that low_byte_less] xpow_byte_at [OF that] by simp
  have ks: "[1..<W] = [1, 2, 3]" by (simp add: W_def upt_rec)
  have t0: "crc_braid_table ! 0 ! unat (w AND 0xff) = xpow 160 (w AND 0xff)" using t [of 0] by simp
  have "braid_word w = xpow 160 (w AND 0xff) XOR xpow 160 (push_bit (8 * 1) (drop_bit (8 * 1) w AND 0xff)) XOR
      xpow 160 (push_bit (8 * 2) (drop_bit (8 * 2) w AND 0xff)) XOR xpow 160 (push_bit (8 * 3) (drop_bit (8 * 3) w AND 0xff))"
    using t [of 1] t [of 2] t [of 3] by (simp only: braid_word_def ks foldl.simps t0 xor.assoc)
  also have "\<dots> = xpow 160 ((w AND 0xff) XOR push_bit 8 (drop_bit 8 w AND 0xff) XOR push_bit 16 (drop_bit 16 w AND 0xff) XOR
     push_bit 24 (drop_bit 24 w AND 0xff))"
    by (simp add: xpow_xor xor.assoc)
  also have "\<dots> = xpow 160 w" by (simp only: word_bytes [of w, symmetric])
  finally show ?thesis .
qed


lemma five: "length xs = 5 \<Longrightarrow> \<exists>a b c d e. xs = [a, b, c, d, e]"
  by (auto simp: length_Suc_conv numeral_eq_Suc)

lemma length_block_words [simp]: "length (block_words buf) = 5"
  by (simp add: block_words_def N_def)

lemma join_first: "length ws = 5 \<Longrightarrow> join_braids (crc # replicate (N - 1) 0) ws = crc_words crc ws"
  using five [of ws]
  by (auto simp: join_braids_def crc_words_def crc_word_xpow N_def numeral_eq_Suc xor.commute)

lemma join_step:
  assumes "length cs = 5" "length ws = 5" "length vs = 5"
  shows "join_braids (map2 (\<lambda>c w. braid_word (c XOR w)) cs ws) vs = crc_words (join_braids cs ws) vs"
proof -
  obtain c0 c1 c2 c3 c4 w0 w1 w2 w3 w4 v0 v1 v2 v3 v4 where
    l: "cs = [c0, c1, c2, c3, c4]" "ws = [w0, w1, w2, w3, w4]" "vs = [v0, v1, v2, v3, v4]"
    using five assms by metis
  show ?thesis
    by (simp add: l join_braids_def crc_words_def crc_word_xpow braid_word_xpow xpow_xor xpow_add
        xor.assoc xor.commute xor.left_commute)
qed

definition braid_value :: "u32 list \<Rightarrow> u8 list \<Rightarrow> u32" where
  "braid_value crcs buf = foldl crc_byte (join_braids crcs (block_words buf)) (drop 20 buf)"

lemma braid_loop_value:
  "20 * Suc n \<le> length buf \<Longrightarrow> length crcs = 5 \<Longrightarrow> braid_loop n crcs buf = (crcs', buf') \<Longrightarrow>
     braid_value crcs' buf' = braid_value crcs buf"
proof (induction n arbitrary: crcs buf)
  case (Suc n)
  define cs where "cs = map2 (\<lambda>c w. braid_word (c XOR w)) crcs (block_words buf)"
  have cs: "length cs = 5" using Suc.prems(2) by (simp add: cs_def)
  have "braid_value crcs' buf' = braid_value cs (drop 20 buf)"
    using Suc.IH [of "drop 20 buf" cs] Suc.prems cs by (simp add: cs_def N_def W_def)
  also have "\<dots> = foldl crc_byte (crc_words (join_braids crcs (block_words buf)) (block_words (drop 20 buf))) (drop 20 (drop 20 buf))"
    using join_step [of crcs "block_words buf" "block_words (drop 20 buf)"] Suc.prems(2) by (simp add: braid_value_def cs_def)
  also have "\<dots> = foldl crc_byte (foldl crc_byte (join_braids crcs (block_words buf)) (take 20 (drop 20 buf))) (drop 20 (drop 20 buf))"
    using block_bytes [of "drop 20 buf"] Suc.prems(1) by simp
  also have "\<dots> = braid_value crcs buf" by (simp only: braid_value_def foldl_append [symmetric] append_take_drop_id)
  finally show ?case .
qed simp

lemma align_loop_fold:
  "align_loop addr crc buf = (crc', buf') \<Longrightarrow> foldl crc_byte crc buf = foldl crc_byte crc' buf' \<and>
     length buf \<le> length buf' + (4 - addr mod 4) mod 4"
proof (induction addr crc buf rule: align_loop.induct)
  case (2 addr crc b bs)
  show ?case
  proof (cases "addr mod W = 0")
    case False
    then have "addr mod 4 = 1 \<or> addr mod 4 = 2 \<or> addr mod 4 = 3" using mod_less_divisor [of 4 addr] unfolding W_def by linarith
    then have "(4 - addr mod 4) mod 4 = Suc ((4 - (addr + 1) mod 4) mod 4)"
      using mod_Suc [of addr 4] by auto
    then show ?thesis using 2 False by simp
  qed (use 2 in simp)
qed simp

lemma crc_braided_fold:
  assumes "23 \<le> length buf" and "crc_braided addr crc buf = (crc', buf')"
  shows "foldl crc_byte crc' buf' = foldl crc_byte crc buf"
proof -
  obtain crc1 buf1 where a: "align_loop addr crc buf = (crc1, buf1)" by fastforce
  obtain crcs buf2 where b: "braid_loop (length buf1 div 20 - 1) (crc1 # replicate (N - 1) 0) buf1 = (crcs, buf2)" by fastforce
  have "(4 - addr mod 4) mod 4 < 4" by simp
  then have len: "20 \<le> length buf1" using align_loop_fold [OF a] assms(1) by linarith
  then have "Suc (length buf1 div 20 - 1) = length buf1 div 20" using div_le_mono [OF len, of 20] by simp
  then have blk: "20 * Suc (length buf1 div 20 - 1) \<le> length buf1" by simp
  have "crc' = join_braids crcs (block_words buf2)" "buf' = drop 20 buf2"
    using assms(2) a b by (simp_all add: crc_braided_def N_def W_def Let_def)
  then have "foldl crc_byte crc' buf' = braid_value crcs buf2" by (simp add: braid_value_def)
  also have "\<dots> = braid_value (crc1 # replicate (N - 1) 0) buf1"
    by (rule braid_loop_value [OF blk _ b]) (simp add: N_def)
  also have "\<dots> = foldl crc_byte (foldl crc_byte crc1 (take 20 buf1)) (drop 20 buf1)"
    using block_bytes [OF len] join_first [OF length_block_words] by (simp only: braid_value_def)
  also have "\<dots> = foldl crc_byte crc1 buf1" by (simp only: foldl_append [symmetric] append_take_drop_id)
  finally show ?thesis using align_loop_fold [OF a] by simp
qed

lemma not_xor: "c XOR 0xffffffff = NOT c" for c :: u32
proof -
  have "(0xffffffff :: u32) = - 1" by simp
  then show ?thesis by (simp only: xor.commute [of c] bit.xor_one_left)
qed

lemma crc32_z_fold: "crc32_z addr crc (Some bs) = NOT (foldl crc_byte (NOT crc) bs)"
proof (cases "N * W + W - 1 \<le> length bs")
  case True
  obtain c b where "crc_braided addr (NOT crc) bs = (c, b)" by fastforce
  then show ?thesis
    using crc_braided_fold [of bs addr "NOT crc" c b] True by (simp add: crc32_z_def crc_rest_fold not_xor N_def W_def)
qed (simp add: crc32_z_def crc_rest_fold not_xor)


section \<open>Properties\<close>

text \<open>C12. The checksum is the CRC-32 of the buffer: for every start value, every alignment of the
  buffer and every length, the braided computation over the tables gives what the shift register
  gives bit by bit; without a buffer the initial value is returned.\<close>

theorem crc32_correct:
  "crc32 addr crc (Some bs) = crc_spec crc bs \<and> crc32 addr crc None = 0"
  by (simp add: crc32_def crc32_z_fold crc_spec_def lfsr_bytes) (simp add: crc32_z_def)

lemma fold_split: "foldl crc_byte (c XOR d) bs = xpow (8 * length bs) c XOR foldl crc_byte d bs"
proof (induction bs arbitrary: c d)
  case (Cons b bs)
  have "crc_byte (c XOR d) b = xpow 8 c XOR crc_byte d b" by (simp add: crc_byte_xpow xpow_xor xor.assoc)
  then show ?case using Cons.IH [of "xpow 8 c" "crc_byte d b"] by (simp add: xpow_add add.commute)
qed simp

lemma crc_append:
  "NOT (foldl crc_byte (NOT 0) (as @ bs)) =
     xpow (8 * length bs) (NOT (foldl crc_byte (NOT 0) as)) XOR NOT (foldl crc_byte (NOT 0) bs)"
proof -
  let ?a = "foldl crc_byte (NOT 0) as"
  have "NOT ?a XOR NOT 0 = ?a" by simp
  then have "foldl crc_byte (NOT 0) (as @ bs) = foldl crc_byte (NOT ?a XOR NOT 0) bs" by simp
  also have "\<dots> = xpow (8 * length bs) (NOT ?a) XOR foldl crc_byte (NOT 0) bs" by (rule fold_split)
  finally show ?thesis by simp
qed

text \<open>C14. The checksums of two pieces and the length of the second give the checksum of the whole,
  directly or with a precomputed operator, and a computation can be continued piece by piece; the
  loops of \<^verbatim>\<open>multmodp\<close> and \<^verbatim>\<open>x2nmodp\<close> end on the way.\<close>

theorem crc32_combine_concat:
  "crc32_combine64 (crc32 p 0 (Some as)) (crc32 q 0 (Some bs)) (int (length bs)) = Some (crc32 r 0 (Some (as @ bs))) \<and>
   Option.bind (crc32_combine_gen64 (int (length bs))) (crc32_combine_op (crc32 p 0 (Some as)) (crc32 q 0 (Some bs))) =
     Some (crc32 r 0 (Some (as @ bs))) \<and>
   crc32 q (crc32 p c (Some as)) (Some bs) = crc32 r c (Some (as @ bs))"
proof -
  have op: "x2nmodp (int (length bs)) 3 = Some (xpow (8 * length bs) one)"
    using x2nmodp_ok [of "int (length bs)" 3] by (simp add: mult.commute)
  have app: "xpow (8 * length bs) (NOT (foldl crc_byte (NOT 0) as)) XOR NOT (foldl crc_byte (NOT 0) bs) =
      NOT (foldl crc_byte (NOT 0) (as @ bs))"
    by (rule crc_append [symmetric])
  show ?thesis
    using app by (simp add: crc32_combine64_def crc32_combine_gen64_def crc32_combine_op_def crc32_def crc32_z_fold op multmodp_xpow)
qed

lemma length_x2n_table: "length x2n_table = 32"
  by (simp add: x2n_table_def)

lemma those_Some: "those (map (\<lambda>x. Some (f x)) xs) = Some (map f xs)"
  by (induction xs) simp_all

lemma squares_ok: "squares n (xpow (2 ^ k) one) = Some (map (\<lambda>i. xpow (2 ^ (k + Suc i)) one) [0..<n])"
proof (induction n arbitrary: k)
  case (Suc n)
  have "multmodp (xpow (2 ^ k) one) (xpow (2 ^ k) one) = Some (xpow (2 ^ Suc k) one)"
    by (simp add: multmodp_xpow xpow_add mult_2)
  moreover have "[0..<Suc n] = 0 # map Suc [0..<n]" by (simp add: map_Suc_upt upt_conv_Cons)
  ultimately show ?case using Suc.IH [of "Suc k"] by (simp del: upt_Suc)
qed simp

lemma braid_entry:
  assumes "k < 4" "i < 256"
  shows "pmul (push_bit 24 (of_nat i)) (xpow (8 * (23 - k)) one) = crc_braid_table ! k ! i"
proof -
  have low: "xpow 24 (push_bit 24 (of_nat i :: u32)) = of_nat i"
    using xpow_push [of 24 "of_nat i :: u8"] assms(2)
    by (simp add: word_size unsigned_of_nat take_bit_nat_eq_self)
  have "pmul (push_bit 24 (of_nat i)) (xpow (8 * (23 - k)) one) = xpow (8 * (23 - k)) (push_bit 24 (of_nat i))"
    by (simp only: pmul_commute [of "push_bit 24 (of_nat i)"] pmul_xpow)
  also have "\<dots> = xpow (8 * (20 - k)) (xpow 24 (push_bit 24 (of_nat i)))"
  proof -
    have "8 * (23 - k) = 8 * (20 - k) + 24" using assms(1) by simp
    then show ?thesis by (simp only: xpow_add)
  qed
  also have "\<dots> = crc_braid_table ! k ! i" using low braid_table_nth [OF assms] by simp
  finally show ?thesis .
qed


lemma braid_row_ok: "k < 4 \<Longrightarrow> braid_row N W k = Some (crc_braid_table ! k)"
proof -
  assume k: "k < 4"
  let ?p = "xpow (8 * (23 - k)) one"
  have eq: "(N * W + 3 - k) * 8 = 8 * (23 - k)" by (simp add: N_def W_def)
  have x: "x2nmodp (int ((N * W + 3 - k) * 8)) 0 = Some ?p" unfolding eq
    using x2nmodp_ok [of "int (8 * (23 - k))" 0] by (simp only: of_nat_0_le_iff nat_int power_0 mult_1_right simp_thms)
  have f: "multmodp (push_bit 24 (of_nat i)) ?p = Some (crc_braid_table ! k ! i)" if "i \<in> set [1..<256]" for i
  proof -
    have "xpow 24 (push_bit 24 (of_nat i :: u32)) = of_nat i"
      using xpow_push [of 24 "of_nat i :: u8"] that by (simp add: word_size unsigned_of_nat take_bit_nat_eq_self)
    moreover have "(of_nat i :: u32) \<noteq> 0" using that by (auto simp: word_of_nat_eq_0_iff dest: dvd_imp_le)
    ultimately have "push_bit 24 (of_nat i :: u32) \<noteq> 0" by (metis times_x_0(2))
    then show ?thesis using multmodp_ok braid_entry [OF k, of i] that by simp
  qed
  have "map (\<lambda>i. multmodp (push_bit 24 (of_nat i)) ?p) [1..<256] = map (\<lambda>i. Some (crc_braid_table ! k ! i)) [1..<256]"
    by (rule map_cong [OF refl f])
  then have "those (map (\<lambda>i. multmodp (push_bit 24 (of_nat i)) ?p) [1..<256]) = Some (map ((!) (crc_braid_table ! k)) [1..<256])"
    by (simp only: those_Some)
  moreover have "crc_braid_table ! k = 0 # map ((!) (crc_braid_table ! k)) [1..<256]"
  proof -
    have t: "doubled (crc_braid_table ! k)"
      using k doubled_braid_0 doubled_braid_1 doubled_braid_2 doubled_braid_3
      by (auto simp: crc_braid_table_def less_Suc_eq numeral_eq_Suc)
    then have "crc_braid_table ! k = map ((!) (crc_braid_table ! k)) [0..<256]"
      using map_nth [of "crc_braid_table ! k"] by (simp only: doubled_def)
    also have "[0..<256] = 0 # [1..<256 :: nat]" by (simp add: upt_conv_Cons)
    finally show ?thesis using t by (simp only: list.map doubled_def)
  qed
  ultimately show ?thesis by (simp only: braid_row_def x option.case option.map)
qed

text \<open>The constant tables of \<^verbatim>\<open>crc32.h\<close> that the build uses are those its generator computes.\<close>

theorem crc_tables_generated:
  "make_crc_bytes = crc_table \<and> make_x2n_table = Some x2n_table \<and> braid N W = Some crc_braid_table"
proof (intro conjI)
  have len: "length crc_table = 256" using doubled_crc_table by (simp add: doubled_def)
  show "make_crc_bytes = crc_table"
    by (rule nth_equalityI) (simp_all add: make_crc_bytes_def len crc_table_nth del: funpow.simps)
  have "make_x2n_table = Some (map (\<lambda>i. xpow (2 ^ i) one) [0..<32])"
  proof -
    have "push_bit 30 1 = xpow (2 ^ 0) one" by (simp add: xpow_one [of 1, simplified])
    moreover have "[0..<32] = 0 # map Suc [0..<31]" by (simp add: map_Suc_upt upt_conv_Cons)
    ultimately show ?thesis using squares_ok [of 31 0] by (simp only: make_x2n_table_def list.map option.map map_map comp_def add_0)
  qed
  moreover have "map (\<lambda>i. xpow (2 ^ i) one) [0..<32] = x2n_table"
    by (rule nth_equalityI) (simp_all add: x2n_table_nth length_x2n_table del: funpow.simps)
  ultimately show "make_x2n_table = Some x2n_table" by simp
  have "map (braid_row N W) [0..<W] = map (\<lambda>k. Some (crc_braid_table ! k)) [0..<W]"
    by (rule map_cong) (use braid_row_ok in \<open>auto simp: W_def\<close>)
  then have "braid N W = Some (map ((!) crc_braid_table) [0..<W])" by (simp only: braid_def those_Some)
  also have "map ((!) crc_braid_table) [0..<W] = crc_braid_table"
  proof -
    have "length crc_braid_table = W" by (simp add: W_def crc_braid_table_def)
    then show ?thesis using map_nth [of crc_braid_table] by simp
  qed
  finally show "braid N W = Some crc_braid_table" .
qed

end
