(* ===== verification/Spec2Isabelle.thy ===== *)
theory Spec2Isabelle
  imports AppMain Jsmn Sched NMap Adler32 Crc32
begin

text \<open>
  The SimiBox downloader: a model of the firmware and its correctness.

  \<^bold>\<open>The program.\<close> The downloader is a second firmware of the SimiBox (an ESP32 music box). The main
  firmware leaves a request in non-volatile storage (NVS) and reboots into the downloader, which
  connects to Wi-Fi, fetches one folder of files over HTTPS to the SD card, verifies it, swaps it in
  for the old one, leaves a report in NVS and boots the main firmware again. The sources are in
  \<^verbatim>\<open>src/src\<close>; \<^verbatim>\<open>src/managed_components\<close> are vendored libraries.

  \<^bold>\<open>Theories and code.\<close> Every definition has the name of the C function, type or macro it models; a
  part of a function has a name of its own and is composed the way the function composes it.
  \<^item> \<open>Prelude\<close>: machine integers, ESP-IDF error codes, C strings in fixed-size arrays.
  \<^item> \<open>Nvs\<close>: the NVS interface the firmware calls. NVS is not in the repository, so it is a record of
    operations \<open>nvs_api\<close> over an abstract world; the locale \<open>nvs_store\<close> lists the documented laws, and
    a store in memory satisfies them.
  \<^item> \<open>BootManager\<close>: \<^verbatim>\<open>simibox_boot_manager_idf.c\<close> and \<^verbatim>\<open>simibox_nvs_protocol.h\<close>. State: \<open>boot_mgr\<close>
    (\<^verbatim>\<open>g_nvs_handle\<close>, \<^verbatim>\<open>g_current_state\<close>) beside the NVS world.
  \<^item> \<open>WifiCreds\<close>: \<^verbatim>\<open>simibox_wifi_creds_idf.c\<close>. State: the handle with its networks, the event bits and
    the event handler; the Wi-Fi driver is a parameter \<open>wifi_api\<close>.
  \<^item> \<open>Led\<close>: \<^verbatim>\<open>simibox_led_idf.c\<close>. State: the pattern record and the timer duties; float arithmetic is a
    parameter with the few IEEE facts used as the locale \<open>float_arith\<close>. The setters are lists of
    single stores, and \<open>led_reach\<close> interleaves them with the animation task, whose frames are split
    at every field a setter writes; the mutex is taken where the code takes it.
  \<^item> \<open>PingPong\<close>: the transfer loop of \<^verbatim>\<open>download_file_standalone\<close> and the task \<^verbatim>\<open>sd_writer_task\<close> as two
    step functions \<open>net_step\<close> and \<open>sd_step\<close> over shared buffers, the job record and two binary
    semaphores; a step is one access to a buffer, one semaphore operation or one library call, or
    the stores or loads of the job record, which only its owner touches. \<open>pp_reach\<close> is any interleaving,
    \<open>seq_loop\<close> the loop that writes each buffer at once.
  \<^item> \<open>HttpPool\<close>, \<open>FileSys\<close>, \<open>SdBus\<close>, \<open>Download\<close>: the parts of \<^verbatim>\<open>simibox_download.cpp\<close>: the pooled HTTP
    client, the file helpers on a volume, mounting and resetting the card, and the download of a
    file and of a folder. Drivers, file system calls and the network answer from scripts in the
    state, so that every pattern of failures is a start state. \<open>DownloadCorrect\<close> has the properties.
  \<^item> \<open>AppMain\<close>: \<^verbatim>\<open>downloader_main.cpp\<close>, both builds: recovery of NVS, boot count, request, connection,
    download, report and restart, over the states of all the parts above. A failing
    \<^verbatim>\<open>ESP_ERROR_CHECK\<close> is the outcome \<open>Abort\<close>.
  \<^item> \<open>Jsmn\<close>: the JSON tokenizer \<^verbatim>\<open>espressif__jsmn/include/jsmn.h\<close>; an access outside the token array
    is the result \<open>TOKEN_FAULT\<close>.
  \<^item> \<open>Pq\<close> and \<open>Sched\<close>: the priority queue \<^verbatim>\<open>nghttp2_pq.c\<close>, its contract as the locale \<open>weak_order\<close>, and
    the scheduling of outgoing HTTP/2 streams in \<^verbatim>\<open>nghttp2_session.c\<close> that uses it with the wrapping
    comparison \<open>stream_less\<close>. A failing \<^verbatim>\<open>assert\<close> is \<open>None\<close>; \<open>sched_allowed\<close> has the callers' checks.
  \<^item> \<open>NMap\<close>: the hash map \<^verbatim>\<open>nghttp2_map.c\<close>; the locale \<open>probing\<close> holds what open addressing with Robin
    Hood probing promises for any hash function into the table.
  \<^item> \<open>Adler32\<close>, \<open>Crc32Tables\<close>, \<open>Crc32\<close>: \<^verbatim>\<open>zlib/adler32.c\<close>, the tables of \<^verbatim>\<open>zlib/crc32.h\<close> and \<^verbatim>\<open>zlib/crc32.c\<close>, on
    32-bit words.

  \<^bold>\<open>What the lemmas show.\<close>
  \<^item> The protocol: saved boot states are read back unchanged; a pending request survives the reboot;
    a run of the main program that does not abort reports exactly once, and after a saved report no
    request is pending; the fifth boot without success gives up. When the next boot reads a success,
    the requested folder is complete on the card: the theorem of \<open>AppMain\<close> that joins boot protocol,
    connection, download, file system and bus.
  \<^item> The transfer: every interleaving of the two tasks gives the result of the sequential loop; no
    buffer is written while it is read; the tasks neither deadlock nor run forever. The last
    theorem of this theory puts that into the download of a file.
  \<^item> The folder: success means a verified folder in place; no failure touches anything outside it and
    its temporary twin; every path gives back handles, buffers and the task.
  \<^item> Wi-Fi, LED, SD bus, files: order and bounds of what is tried, shown, clocked and deleted; a colour
    set under the mutex survives every frame in flight, and two races of the setters without it.
  \<^item> The libraries: tokens are nested and delimited and the dry run sizes the array; the scheduler
    keeps its heaps in order across the wrap of the virtual time, picks the right stream and never
    fails an assertion; the hash map answers as a partial map does and its probing ends; both
    checksums equal their definitions on every path (the braided one for every alignment), and
    checksums of pieces combine to that of the whole.

  \<^bold>\<open>Loops and bounds.\<close> Loops over lists are structural; the others are total functions with a measure
  (bytes left, clock steps left, depth of the volume, size of the text), so there is no fuel, with two
  exceptions: \<open>multmodp_loop\<close> counts the 32 rounds after which its mask is zero and the C loop cannot
  end, and the probing loops of the hash map are partial functions, whose return on every map the
  operations reach is part of the theorem about the map. The one concurrent run is bounded by
  \<open>pp_terminates\<close>. Counters that can wrap in the code are words: the retry and boot counters (8 bits),
  the byte total of a file and the millisecond counter (32 bits), the virtual time of a stream (64
  bits). Array positions and lengths that the buffers bound are natural numbers.

  \<^bold>\<open>Not modelled.\<close> Log output, timing statistics, the SD diagnostics macros and delays (a delay is an
  event where its length matters). cJSON, the HTTP client, FATFS, the drivers and NVS are outside the
  repository and parameters of the model. Of the vendored libraries only the parts above: no code of
  the downloader calls the rest of zlib and nghttp2, the WebSocket client, the display driver and the
  DSP library; the \<^verbatim>\<open>JSMN_PARENT_LINKS\<close> build of the tokenizer and the \<^verbatim>\<open>NO_DIVIDE\<close> build of Adler-32
  and the big-endian, ARM and 64-bit builds of CRC-32 are left out.
\<close>

section \<open>The concurrent transfer inside the download of a file\<close>

text \<open>The download of a file may use the sequential transfer for what the two tasks do: from the
  state of the download, with staging buffers of the allocated size, every complete interleaving of
  the network task and the SD writer ends with exactly the result, the progress and the remaining
  card answers that \<^verbatim>\<open>download_file_standalone\<close> goes on with.\<close>

theorem transfer_interleaved:
  assumes "length b0 = s_buf_capacity d" and "length b1 = s_buf_capacity d"
    and run: "pp_reach (on_read fp) (s_buf_capacity d) (pp_start b0 b1 (ses_body x) (fwrites d) (prog d)) s"
    and fin: "npc s = NetDone"
  shows "transfer fp x d = (pp_result_of s, d\<lparr>prog := progress s, fwrites := wr s\<rparr>)"
proof -
  note start = pp_inv_start [OF assms(1,2)]
  have "pp_result_of s = seq_loop (on_read fp) (s_buf_capacity d) (ses_body x) [] (fwrites d) False 0 (prog d)"
    using pp_reach_out [OF run start] pp_out_start pp_out_done [OF pp_reach_inv [OF run start] fin] by metis
  then have "seq_loop (on_read fp) (s_buf_capacity d) (ses_body x) [] (fwrites d) False 0 (prog d) = pp_result_of s"
    by (rule sym)
  then show ?thesis by (simp add: transfer_def Let_def) (simp add: pp_result_of_def)
qed

text \<open>A run on a body of one byte, with a one-byte buffer.\<close>

definition demo_body :: http_session where
  "demo_body = \<lparr>ses_err = ESP_OK, ses_clen = 1, ses_status = 200, ses_body = [RdData [7]]\<rparr>"

abbreviation demo_staged :: dl where "demo_staged \<equiv> demo_dl\<lparr>s_buf_capacity := 1\<rparr>"

lemma demo_transfer_run:
  "\<exists>s. pp_run (on_read fix_ops) 1 ([True, True, True, True, True, True, True, True] @
      [False, False, False, False, False, False, False] @ [True])
      (pp_start [0] [0] (ses_body demo_body) (fwrites demo_staged) (prog demo_staged)) = Some s \<and>
    npc s = NetDone \<and> wfile s = [7]"
  by (simp add: pp_exec demo_body_def demo_dl_def)

lemma transfer_interleaved_witness:
  "res_file (fst (transfer fix_ops demo_body demo_staged)) = [7]"
proof -
  obtain s where s: "pp_run (on_read fix_ops) 1 ([True, True, True, True, True, True, True, True] @
      [False, False, False, False, False, False, False] @ [True])
      (pp_start [0] [0] (ses_body demo_body) (fwrites demo_staged) (prog demo_staged)) = Some s" "npc s = NetDone" "wfile s = [7]"
    using demo_transfer_run by blast
  have "transfer fix_ops demo_body demo_staged = (pp_result_of s, demo_staged\<lparr>prog := progress s, fwrites := wr s\<rparr>)"
    by (rule transfer_interleaved [of "[0]" _ "[0]"]) (use s pp_run_reach [OF s(1)] in simp_all)
  then show ?thesis using s(3) by (simp add: pp_result_of_def)
qed

end
